(* ===== verification/Lance_Prelude.thy ===== *)
theory Lance_Prelude
  imports Main "HOL-Library.Word"
begin

text \<open>
  Shared vocabulary of the development: the machine integers of the Rust code, its result type,
  the standard-library operations on integers, ranges, slices and iterators that the components
  call, and the generic lemmas about them.

  Conventions. \<open>u8\<close>, \<open>u16\<close>, \<open>u32\<close> and \<open>u64\<close> values are words of that width, so
  \<open>+\<close>, \<open>-\<close> and \<open>as\<close>-casts wrap and truncate exactly as in a release build.
  \<open>usize\<close> values (lengths and positions of in-memory vectors) are natural numbers; a
  subtraction of sizes that the code does not guard is written \<open>usize_sub\<close>, which wraps at
  64 bits. An index out of bounds, a failed \<open>unwrap\<close> or \<open>expect\<close> and an explicit
  \<open>panic!\<close> is the error value \<open>Panic\<close>; an \<open>Err\<close> of the code is the
  corresponding error value. Iterators are the list of the items they yield.
\<close>

unbundle bit_operations_syntax

subsection \<open>Machine integers, errors and results\<close>

type_synonym u8 = "8 word"
type_synonym u16 = "16 word"
type_synonym u32 = "32 word"
type_synonym u64 = "64 word"
type_synonym u128 = "128 word"
type_synonym usize = nat

datatype lance_error = Panic | InvalidInput | Internal | CorruptRowIds | IoError

type_synonym 'a res = "lance_error + 'a"

definition bindr :: "'a res \<Rightarrow> ('a \<Rightarrow> 'b res) \<Rightarrow> 'b res" where
  "bindr m f = (case m of Inl e \<Rightarrow> Inl e | Inr x \<Rightarrow> f x)"

definition unwrap :: "'a option \<Rightarrow> 'a res" where
  "unwrap x = (case x of None \<Rightarrow> Inl Panic | Some v \<Rightarrow> Inr v)"

definition index_slice :: "'a list \<Rightarrow> usize \<Rightarrow> 'a res" where
  "index_slice xs i = (if i < length xs then Inr (xs ! i) else Inl Panic)"

fun mapr :: "('a \<Rightarrow> 'b res) \<Rightarrow> 'a list \<Rightarrow> 'b list res" where
  "mapr f [] = Inr []"
| "mapr f (x # xs) = bindr (f x) (\<lambda>y. bindr (mapr f xs) (\<lambda>ys. Inr (y # ys)))"

fun filterr :: "('a \<Rightarrow> bool res) \<Rightarrow> 'a list \<Rightarrow> 'a list res" where
  "filterr p [] = Inr []"
| "filterr p (x # xs) =
     bindr (p x) (\<lambda>b. bindr (filterr p xs) (\<lambda>ys. Inr (if b then x # ys else ys)))"

fun foldr_res :: "('a \<Rightarrow> 's \<Rightarrow> 's res) \<Rightarrow> 'a list \<Rightarrow> 's \<Rightarrow> 's res" where
  "foldr_res f [] s = Inr s"
| "foldr_res f (x # xs) s = bindr (f x s) (foldr_res f xs)"

lemma bindr_simps [simp]: "bindr (Inl e) f = Inl e" "bindr (Inr x) f = f x"
  by (simp_all add: bindr_def)

lemma unwrap_simps [simp]: "unwrap None = Inl Panic" "unwrap (Some v) = Inr v"
  by (simp_all add: unwrap_def)

lemma index_slice_simps [simp]:
  "i < length xs \<Longrightarrow> index_slice xs i = Inr (xs ! i)"
  "length xs \<le> i \<Longrightarrow> index_slice xs i = Inl Panic"
  by (simp_all add: index_slice_def)

lemma bindr_eq_Inr: "bindr m f = Inr y \<longleftrightarrow> (\<exists>x. m = Inr x \<and> f x = Inr y)"
  by (cases m) auto

lemma mapr_Inr: "(\<And>x. x \<in> set xs \<Longrightarrow> f x = Inr (g x)) \<Longrightarrow> mapr f xs = Inr (map g xs)"
  by (induction xs) auto

lemma filterr_Inr:
  "(\<And>x. x \<in> set xs \<Longrightarrow> p x = Inr (q x)) \<Longrightarrow> filterr p xs = Inr (filter q xs)"
  by (induction xs) auto

lemma bindr_Inr_id [simp]: "bindr r Inr = r"
  by (cases r) simp_all

lemma bindr_foldr_res_Nil [simp]: "bindr r (foldr_res f []) = r"
  by (cases r) simp_all

lemma foldr_res_append: "foldr_res f (xs @ ys) s = bindr (foldr_res f xs s) (foldr_res f ys)"
proof (induction xs arbitrary: s)
  case (Cons x xs)
  then show ?case by (cases "f x s") auto
qed simp

subsection \<open>Integer operations of the standard library\<close>

definition checked_add :: "'a::len word \<Rightarrow> 'a word \<Rightarrow> 'a word option" where
  "checked_add a b = (if unat a + unat b < 2 ^ LENGTH('a) then Some (a + b) else None)"

definition checked_sub :: "'a::len word \<Rightarrow> 'a word \<Rightarrow> 'a word option" where
  "checked_sub a b = (if b \<le> a then Some (a - b) else None)"

definition saturating_add :: "'a::len word \<Rightarrow> 'a word \<Rightarrow> 'a word" where
  "saturating_add a b = (case checked_add a b of Some c \<Rightarrow> c | None \<Rightarrow> - 1)"

definition saturating_sub :: "'a::len word \<Rightarrow> 'a word \<Rightarrow> 'a word" where
  "saturating_sub a b = (case checked_sub a b of Some c \<Rightarrow> c | None \<Rightarrow> 0)"

definition saturating_mul :: "'a::len word \<Rightarrow> 'a word \<Rightarrow> 'a word" where
  "saturating_mul a b = (if unat a * unat b < 2 ^ LENGTH('a) then a * b else - 1)"

definition usize_sub :: "usize \<Rightarrow> usize \<Rightarrow> usize" where
  "usize_sub a b = (if b \<le> a then a - b else a + 2 ^ 64 - b)"

definition usize_add :: "usize \<Rightarrow> usize \<Rightarrow> usize" where
  "usize_add a b = (a + b) mod 2 ^ 64"

definition div_ceil :: "nat \<Rightarrow> nat \<Rightarrow> nat" where
  "div_ceil a b = (a + b - 1) div b"

definition popcount :: "'a::len word \<Rightarrow> nat" where
  "popcount w = length (filter (bit w) [0..<LENGTH('a)])"

definition trailing_zeros :: "'a::len word \<Rightarrow> nat" where
  "trailing_zeros w = length (takeWhile (\<lambda>i. \<not> bit w i) [0..<LENGTH('a)])"

definition trailing_ones :: "'a::len word \<Rightarrow> nat" where
  "trailing_ones w = length (takeWhile (bit w) [0..<LENGTH('a)])"

definition from_le_bytes :: "u8 list \<Rightarrow> 'a::len word" where
  "from_le_bytes bs = foldr (\<lambda>b acc. ucast b OR push_bit 8 acc) bs 0"

subsection \<open>Ranges, slices and iterators of the standard library\<close>

type_synonym 'a range = "'a \<times> 'a"

definition range_is_empty :: "'a::linorder range \<Rightarrow> bool" where
  "range_is_empty r \<longleftrightarrow> \<not> fst r < snd r"

definition range_contains :: "'a::linorder range \<Rightarrow> 'a \<Rightarrow> bool" where
  "range_contains r x \<longleftrightarrow> fst r \<le> x \<and> x < snd r"

definition range_vals :: "'a::len word range \<Rightarrow> 'a word list" where
  "range_vals r = map word_of_nat [unat (fst r)..<unat (snd r)]"

definition partition_point :: "('a \<Rightarrow> bool) \<Rightarrow> 'a list \<Rightarrow> usize" where
  "partition_point p xs = length (takeWhile p xs)"

definition binary_search :: "'a::linorder list \<Rightarrow> 'a \<Rightarrow> usize + usize" where
  "binary_search xs v =
     (let k = partition_point (\<lambda>x. x < v) xs
      in if k < length xs \<and> xs ! k = v then Inr k else Inl k)"

definition pairs2 :: "'a list \<Rightarrow> ('a \<times> 'a) list" where
  "pairs2 xs = zip xs (tl xs)"

definition list_min :: "'a::linorder list \<Rightarrow> 'a option" where
  "list_min xs = (case xs of [] \<Rightarrow> None | y # ys \<Rightarrow> Some (foldl min y ys))"

definition list_max :: "'a::linorder list \<Rightarrow> 'a option" where
  "list_max xs = (case xs of [] \<Rightarrow> None | y # ys \<Rightarrow> Some (foldl max y ys))"

fun as_chunks :: "nat \<Rightarrow> 'a list \<Rightarrow> 'a list list \<times> 'a list" where
  "as_chunks n xs =
     (if n = 0 \<or> length xs < n then ([], xs)
      else (let (cs, t) = as_chunks n (drop n xs) in (take n xs # cs, t)))"

declare as_chunks.simps [simp del]

subsection \<open>Words, ranges and searches\<close>

lemma unat_add_of_nat: "unat (a :: 'a::len word) + n < 2 ^ LENGTH('a) \<Longrightarrow> unat (a + word_of_nat n) = unat a + n"
  by (simp add: unat_word_ariths unat_of_nat mod_add_right_eq)

lemma unat_u64_bound: "unat (x :: u64) < 2 ^ 64" and unat_u32_bound: "unat (y :: u32) < 2 ^ 32"
  using unsigned_less[of x, where ?'a = nat] unsigned_less[of y, where ?'a = nat] by simp_all

lemma unat_ucast: "unat (ucast (x :: 'a::len word) :: 'b::len word) = unat x mod 2 ^ LENGTH('b)"
  by (simp add: unsigned_ucast_eq take_bit_eq_mod)

lemma unat_ucast_up: "LENGTH('a::len) \<le> LENGTH('b::len) \<Longrightarrow> unat (ucast (x :: 'a word) :: 'b word) = unat x"
  unfolding unat_ucast by (rule mod_less) (rule less_le_trans[OF unsigned_less], simp)

lemma unat_ucast_small: "unat x < 2 ^ LENGTH('b::len) \<Longrightarrow> unat (ucast (x :: 'a::len word) :: 'b word) = unat x"
  by (simp add: unat_ucast)

lemma unat_minus_1: "unat (- 1 :: 'a::len word) = 2 ^ LENGTH('a) - 1"
  by (simp add: unsigned_minus_1_eq_mask mask_eq_exp_minus_1)

lemma le_ucast_max:
  assumes "LENGTH('a::len) \<le> LENGTH('b::len)"
  shows "(x :: 'b word) \<le> ucast (- 1 :: 'a word) \<longleftrightarrow> unat x < 2 ^ LENGTH('a)"
proof -
  have "x \<le> ucast (- 1 :: 'a word) \<longleftrightarrow> unat x \<le> 2 ^ LENGTH('a) - 1"
    unfolding word_le_nat_alt unat_ucast_up[OF assms] unat_minus_1 ..
  also have "\<dots> \<longleftrightarrow> unat x < 2 ^ LENGTH('a)"
    using zero_less_power[of "2 :: nat" "LENGTH('a)"] by linarith
  finally show ?thesis .
qed

lemma length_range_vals [simp]: "length (range_vals r) = unat (snd r) - unat (fst r)"
  by (simp add: range_vals_def)

lemma nth_range_vals:
  "i < unat (snd r) - unat (fst r) \<Longrightarrow> range_vals r ! i = fst r + word_of_nat i"
  by (simp add: range_vals_def)

lemma unat_nth_range_vals:
  assumes "i < unat (snd r) - unat (fst r)"
  shows "unat (range_vals r ! i) = unat (fst r) + i"
proof -
  have "unat (fst r) + i < unat (snd r)" using assms by simp
  also have "\<dots> < 2 ^ LENGTH('a)" by (rule unsigned_less)
  finally show ?thesis using assms by (simp add: nth_range_vals unat_add_of_nat)
qed

lemma map_unat_range_vals: "map unat (range_vals r) = [unat (fst r)..<unat (snd r)]"
  by (rule nth_equalityI) (simp_all add: unat_nth_range_vals)

lemma sorted_range_vals [simp]: "sorted_wrt (<) (range_vals r)"
proof -
  have "sorted_wrt (<) (map unat (range_vals r))" unfolding map_unat_range_vals by simp
  then show ?thesis unfolding sorted_wrt_map by (rule sorted_wrt_mono_rel[rotated]) (simp add: word_less_nat_alt)
qed

lemma strict_sorted_distinct: "sorted_wrt (<) (xs :: 'a::linorder list) \<Longrightarrow> distinct xs"
  by (simp add: strict_sorted_iff)

lemma strict_sorted_sorted: "sorted_wrt (<) (xs :: 'a::linorder list) \<Longrightarrow> sorted xs"
  by (simp add: strict_sorted_iff)

lemma distinct_range_vals [simp]: "distinct (range_vals r)"
  by (simp add: strict_sorted_distinct)

lemma set_range_vals [simp]: "set (range_vals r) = {fst r..<snd r}"
proof (rule set_eqI)
  fix x :: "'a::len word"
  have "x \<in> set (range_vals r) \<longleftrightarrow> unat x \<in> set (map unat (range_vals r))"
    by (auto simp flip: word_unat_eq_iff)
  then show "x \<in> set (range_vals r) \<longleftrightarrow> x \<in> {fst r..<snd r}"
    by (simp add: map_unat_range_vals word_less_nat_alt word_le_nat_alt del: set_map)
qed

lemma range_vals_empty: "\<not> fst r < snd r \<Longrightarrow> range_vals r = []"
  by (simp add: range_vals_def word_less_nat_alt)

lemma range_vals_append:
  assumes "a \<le> b" "b \<le> c"
  shows "range_vals (a, b) @ range_vals (b, c) = range_vals (a, c)"
proof -
  have "[unat a..<unat b] @ [unat b..<unat c] = [unat a..<unat c]"
    using assms upt_add_eq_append[of "unat a" "unat b" "unat c - unat b"] by (simp add: word_le_nat_alt)
  then show ?thesis by (simp add: range_vals_def flip: map_append)
qed

lemma unat_add_1: "(a :: 'a::len word) < b \<Longrightarrow> unat (a + 1) = unat a + 1"
proof -
  assume "a < b"
  then have "unat a + 1 < 2 ^ LENGTH('a)"
    by (metis Suc_eq_plus1 Suc_leI le_less_trans unsigned_less word_less_nat_alt)
  then show ?thesis using unat_add_of_nat[of a 1] by simp
qed

lemma range_vals_Cons: "a < b \<Longrightarrow> range_vals (a, b) = a # range_vals (a + 1, b)"
  by (simp add: range_vals_def upt_conv_Cons word_less_nat_alt unat_add_1[unfolded word_less_nat_alt])

lemma range_vals_offset:
  assumes "unat base + x + n < 2 ^ LENGTH('a)"
  shows "range_vals (base + word_of_nat x, base + word_of_nat x + word_of_nat n :: 'a::len word) =
    map (\<lambda>off. base + word_of_nat off) [x..<x + n]"
proof -
  have "unat (base + word_of_nat x) = unat base + x" "unat (base + word_of_nat x + word_of_nat n) = unat base + x + n"
    using assms unat_add_of_nat[of base x] unat_add_of_nat[of base "x + n"] by (simp_all add: add.assoc)
  then show ?thesis by (intro nth_equalityI) (simp_all add: nth_range_vals)
qed

lemma drop_take_append: "p \<le> q \<Longrightarrow> q \<le> r \<Longrightarrow> drop p (take q xs) @ drop q (take r xs) = drop p (take r xs)"
proof -
  assume "p \<le> q" "q \<le> r"
  then have "take r xs = take q xs @ drop q (take r xs)" by (metis append_take_drop_id min.absorb1 take_take)
  moreover have "p \<le> length (take q xs) \<or> drop q (take r xs) = []" using \<open>p \<le> q\<close> by auto
  ultimately show ?thesis by (metis append_Nil2 diff_is_0_eq drop_0 drop_append)
qed

lemma usize_sub_le [simp]: "b \<le> a \<Longrightarrow> usize_sub a b = a - b"
  by (simp add: usize_sub_def)

lemma div_ceil_8: "div_ceil n 8 = (n + 7) div 8"
  by (simp add: div_ceil_def)

lemma div_ceil_8_bounds: "n \<le> 8 * div_ceil n 8" "8 * div_ceil n 8 < n + 8"
  unfolding div_ceil_8 by arith+

lemma checked_sub_simps [simp]:
  "b \<le> a \<Longrightarrow> checked_sub a b = Some (a - b)" "a < b \<Longrightarrow> checked_sub a b = None"
  by (auto simp: checked_sub_def)

lemma saturating_sub_le [simp]: "b \<le> a \<Longrightarrow> saturating_sub a b = a - b"
  by (simp add: saturating_sub_def)

lemma unat_saturating_sub: "unat (saturating_sub a b) = unat a - unat b"
  by (simp add: saturating_sub_def checked_sub_def unat_sub word_le_nat_alt)

lemma checked_add_1: "checked_add a 1 = (if a = - 1 then None else Some (a + 1))"
  for a :: "'a::len word"
proof -
  have "unat (- 1 :: 'a word) = 2 ^ LENGTH('a) - 1" by (simp add: unsigned_minus_1_eq_mask mask_eq_exp_minus_1)
  then have "unat a + 1 < 2 ^ LENGTH('a) \<longleftrightarrow> unat a \<noteq> unat (- 1 :: 'a word)"
    using unsigned_less[of a, where ?'a = nat] by linarith
  then have "unat a + 1 < 2 ^ LENGTH('a) \<longleftrightarrow> a \<noteq> - 1" by (simp flip: word_unat_eq_iff)
  then show ?thesis by (simp add: checked_add_def)
qed

lemma foldl_min_eq: "foldl min y ys = Min (set (y # ys))" for y :: "'a::linorder"
proof (induction ys arbitrary: y)
  case (Cons a ys)
  then show ?case by (cases "ys = []") (simp_all add: min.assoc min.commute min.left_commute)
qed simp

lemma foldl_max_eq: "foldl max y ys = Max (set (y # ys))" for y :: "'a::linorder"
proof (induction ys arbitrary: y)
  case (Cons a ys)
  then show ?case by (cases "ys = []") (simp_all add: max.assoc max.commute max.left_commute)
qed simp

lemma list_min_eq: "xs \<noteq> [] \<Longrightarrow> list_min xs = Some (Min (set xs))"
  by (cases xs) (simp_all add: list_min_def foldl_min_eq del: set_simps)

lemma list_max_eq: "xs \<noteq> [] \<Longrightarrow> list_max xs = Some (Max (set xs))"
  by (cases xs) (simp_all add: list_max_def foldl_max_eq del: set_simps)

lemma list_min_Nil [simp]: "list_min [] = None" and list_max_Nil [simp]: "list_max [] = None"
  by (simp_all add: list_min_def list_max_def)

lemma takeWhile_eq_filter_sorted:
  assumes "sorted xs" "\<And>x y. x \<le> y \<Longrightarrow> p y \<Longrightarrow> p x"
  shows "takeWhile p xs = filter p xs"
  using assms(1)
proof (induction xs)
  case (Cons x xs)
  have "filter p xs = []" if "\<not> p x"
    using that Cons.prems assms(2) by (auto simp: filter_empty_conv)
  with Cons show ?case by auto
qed simp

lemma partition_point_sorted_less:
  "sorted xs \<Longrightarrow> partition_point (\<lambda>x. x < v) xs = length (filter (\<lambda>x. x < v) xs)"
  by (simp add: partition_point_def takeWhile_eq_filter_sorted)

lemma partition_point_sorted_le:
  "sorted xs \<Longrightarrow> partition_point (\<lambda>x. x \<le> v) xs = length (filter (\<lambda>x. x \<le> v) xs)"
  by (simp add: partition_point_def takeWhile_eq_filter_sorted)

lemma partition_point_le_length: "partition_point p xs \<le> length xs"
  by (simp add: partition_point_def length_takeWhile_le)

lemma partition_point_nth: "i < partition_point p xs \<Longrightarrow> p (xs ! i)"
  by (metis partition_point_def nth_mem set_takeWhileD takeWhile_nth)

lemma partition_point_not: "partition_point p xs < length xs \<Longrightarrow> \<not> p (xs ! partition_point p xs)"
  by (simp add: partition_point_def nth_length_takeWhile)

lemma binary_search_sorted_notin:
  assumes "sorted xs" "v \<notin> set xs"
  shows "binary_search xs v = Inl (length (filter (\<lambda>x. x < v) xs))"
  using assms nth_mem by (fastforce simp: binary_search_def Let_def partition_point_sorted_less)

lemma strict_sorted_nth_filter:
  fixes xs :: "'a::linorder list"
  assumes "sorted_wrt (<) xs" "i < length xs"
  shows "length (filter (\<lambda>x. x < xs ! i) xs) = i"
proof -
  have "takeWhile (\<lambda>x. x < xs ! i) xs = take i xs"
    using assms by (intro takeWhile_eq_take_P_nth) (auto simp: sorted_wrt_iff_nth_less)
  then show ?thesis
    using assms takeWhile_eq_filter_sorted[of xs "\<lambda>x. x < xs ! i"] by (simp add: strict_sorted_sorted)
qed

lemma binary_search_strict_sorted:
  assumes "sorted_wrt (<) xs" "i < length xs"
  shows "binary_search xs (xs ! i) = Inr i"
  using assms strict_sorted_nth_filter[OF assms]
  by (simp add: binary_search_def Let_def partition_point_sorted_less strict_sorted_sorted)

lemma binary_search_is_Inr:
  "sorted xs \<Longrightarrow> isl (binary_search xs v) \<longleftrightarrow> v \<notin> set xs"
proof (cases "v \<in> set xs")
  case True
  assume srt: "sorted xs"
  let ?k = "partition_point (\<lambda>x. x < v) xs"
  from True have k: "?k < length xs"
    by (metis partition_point_le_length partition_point_nth in_set_conv_nth less_irrefl nat_neq_iff not_le)
  then have "v \<le> xs ! ?k" using partition_point_not by fastforce
  moreover from True obtain i where i: "i < length xs" "xs ! i = v" by (auto simp: in_set_conv_nth)
  then have "?k \<le> i" using partition_point_nth[of i "\<lambda>x. x < v" xs] by force
  then have "xs ! ?k \<le> v" using srt i by (metis sorted_nth_mono)
  ultimately show ?thesis using True k by (auto simp: binary_search_def Let_def)
next
  case False
  assume "sorted xs"
  with False show ?thesis by (simp add: binary_search_sorted_notin)
qed

subsection \<open>Bits of byte vectors\<close>


lemma popcount_0 [simp]: "popcount 0 = 0"
  by (simp add: popcount_def)

lemma bit_from_le_bytes:
  "8 * length bs \<le> LENGTH('a) \<Longrightarrow>
   bit (from_le_bytes bs :: 'a::len word) i \<longleftrightarrow> i < 8 * length bs \<and> bit (bs ! (i div 8)) (i mod 8)"
proof (induction bs arbitrary: i)
  case Nil
  then show ?case by (simp add: from_le_bytes_def)
next
  case (Cons b bs)
  have step: "(from_le_bytes (b # bs) :: 'a word) = ucast b OR push_bit 8 (from_le_bytes bs)"
    by (simp add: from_le_bytes_def)
  show ?case
  proof (cases "i < 8")
    case True
    with Cons.prems show ?thesis
      by (auto simp: step bit_or_iff bit_push_bit_iff bit_unsigned_iff dest: bit_imp_le_length)
  next
    case False
    then have "i div 8 = Suc ((i - 8) div 8)" "i mod 8 = (i - 8) mod 8"
      by (simp_all add: div_if mod_if)
    moreover have "bit (from_le_bytes bs :: 'a word) (i - 8) \<longleftrightarrow>
        i - 8 < 8 * length bs \<and> bit (bs ! ((i - 8) div 8)) ((i - 8) mod 8)"
      using Cons by simp
    ultimately show ?thesis using False Cons.prems
      by (auto simp: step bit_or_iff bit_push_bit_iff bit_unsigned_iff dest: bit_imp_le_length)
  qed
qed

definition bytes_bits :: "u8 list \<Rightarrow> bool list" where
  "bytes_bits data = concat (map (\<lambda>b. map (bit b) [0..<8]) data)"

lemma length_bytes_bits [simp]: "length (bytes_bits data) = 8 * length data"
  by (induction data) (simp_all add: bytes_bits_def)

lemma bytes_bits_Cons: "bytes_bits (b # data) = map (bit b) [0..<8] @ bytes_bits data"
  by (simp add: bytes_bits_def)

lemma bytes_bits_Nil [simp]: "bytes_bits [] = []"
  by (simp add: bytes_bits_def)

lemma bytes_bits_append: "bytes_bits (xs @ ys) = bytes_bits xs @ bytes_bits ys"
  by (simp add: bytes_bits_def)

lemma nth_bytes_bits: "i < 8 * length data \<Longrightarrow> bytes_bits data ! i = bit (data ! (i div 8)) (i mod 8)"
proof (induction data arbitrary: i)
  case (Cons b data)
  show ?case
  proof (cases "i < 8")
    case False
    then have "i div 8 = Suc ((i - 8) div 8)" "i mod 8 = (i - 8) mod 8"
      by (simp_all add: div_if mod_if)
    with False Cons show ?thesis by (simp add: bytes_bits_Cons nth_append)
  qed (simp add: bytes_bits_Cons nth_append)
qed simp

lemma count_list_True: "count_list bs True = length (filter (\<lambda>b. b) bs)"
  by (induction bs) auto

lemma count_list_map_bit: "count_list (map (bit w) is) True = length (filter (bit w) is)"
  by (induction "is") auto

lemma popcount_byte: "popcount (b :: u8) = count_list (map (bit b) [0..<8]) True"
  by (simp add: popcount_def count_list_map_bit)

lemma popcount_from_le_bytes:
  assumes "8 * length bs = LENGTH('a)"
  shows "popcount (from_le_bytes bs :: 'a::len word) = count_list (bytes_bits bs) True"
proof -
  have "map (bit (from_le_bytes bs :: 'a word)) [0..<LENGTH('a)] = bytes_bits bs"
    using assms by (intro nth_equalityI) (simp_all add: bit_from_le_bytes nth_bytes_bits)
  then show ?thesis by (metis count_list_map_bit popcount_def)
qed

lemma as_chunks_concat: "as_chunks n xs = (cs, t) \<Longrightarrow> xs = concat cs @ t"
proof (induction n xs arbitrary: cs t rule: as_chunks.induct)
  case (1 n xs)
  show ?case
  proof (cases "n = 0 \<or> length xs < n")
    case True
    with "1.prems" show ?thesis by (simp add: as_chunks.simps[of n xs])
  next
    case False
    obtain cs' t' where rec: "as_chunks n (drop n xs) = (cs', t')" by fastforce
    with False "1.prems" have "cs = take n xs # cs'" "t = t'" by (simp_all add: as_chunks.simps[of n xs])
    moreover from "1.IH"[OF False rec] have "drop n xs = concat cs' @ t'" .
    ultimately show ?thesis by (metis append.assoc append_take_drop_id concat.simps(2))
  qed
qed

lemma as_chunks_length: "as_chunks n xs = (cs, t) \<Longrightarrow> c \<in> set cs \<Longrightarrow> length c = n"
proof (induction n xs arbitrary: cs t rule: as_chunks.induct)
  case (1 n xs)
  show ?case
  proof (cases "n = 0 \<or> length xs < n")
    case True
    with "1.prems" show ?thesis by (simp add: as_chunks.simps[of n xs])
  next
    case False
    obtain cs' t' where rec: "as_chunks n (drop n xs) = (cs', t')" by fastforce
    with False "1.prems" have "cs = take n xs # cs'" by (simp_all add: as_chunks.simps[of n xs])
    with "1.IH"[OF False rec] "1.prems"(2) False show ?thesis by auto
  qed
qed

end
