(* ===== verification/Positional.thy ===== *)
theory Positional
  imports Lance_Prelude
begin

text \<open>
  The interface the row-id structures share: a well-formed value stands for a list of distinct items,
  \<open>len\<close> counts it, \<open>get\<close> reads a position and \<open>position\<close> finds an item. What a client relies on,
  that \<open>get\<close> and \<open>position\<close> are inverse to each other and agree with \<open>len\<close>, follows from these laws.
\<close>

locale positional =
  fixes vals :: "'s \<Rightarrow> 'v list"
    and wf :: "'s \<Rightarrow> bool"
    and len :: "'s \<Rightarrow> usize res"
    and get :: "'s \<Rightarrow> usize \<Rightarrow> 'v option res"
    and position :: "'s \<Rightarrow> 'v \<Rightarrow> usize option res"
    and limit :: nat
  assumes vals_distinct: "wf s \<Longrightarrow> distinct (vals s)"
    and vals_bound: "wf s \<Longrightarrow> length (vals s) \<le> limit"
    and len_law: "wf s \<Longrightarrow> len s = Inr (length (vals s))"
    and get_law: "wf s \<Longrightarrow> i < limit \<Longrightarrow> get s i = Inr (if i < length (vals s) then Some (vals s ! i) else None)"
    and position_hit: "wf s \<Longrightarrow> i < length (vals s) \<Longrightarrow> position s (vals s ! i) = Inr (Some i)"
    and position_miss: "wf s \<Longrightarrow> v \<notin> set (vals s) \<Longrightarrow> position s v = Inr None"
begin

lemma position_total: "wf s \<Longrightarrow> \<exists>p. position s v = Inr p"
  by (cases "v \<in> set (vals s)") (auto simp: in_set_conv_nth position_hit position_miss)

lemma position_SomeD: "wf s \<Longrightarrow> position s v = Inr (Some i) \<Longrightarrow> i < length (vals s) \<and> vals s ! i = v"
  by (cases "v \<in> set (vals s)") (auto simp: in_set_conv_nth position_hit position_miss)

lemma position_Some_iff: "wf s \<Longrightarrow> i < limit \<Longrightarrow> position s v = Inr (Some i) \<longleftrightarrow> get s i = Inr (Some v)"
  using position_SomeD[of s v i] position_hit[of s i] by (auto simp: get_law)

lemma position_None_iff: "wf s \<Longrightarrow> position s v = Inr None \<longleftrightarrow> v \<notin> set (vals s)"
  by (cases "v \<in> set (vals s)") (auto simp: in_set_conv_nth position_hit position_miss)

lemma position_inj: "wf s \<Longrightarrow> position s v = Inr (Some i) \<Longrightarrow> position s w = Inr (Some i) \<Longrightarrow> v = w"
  using position_SomeD by metis

lemma position_less_len: "wf s \<Longrightarrow> position s v = Inr (Some i) \<Longrightarrow> len s = Inr n \<Longrightarrow> i < n"
  using position_SomeD len_law by fastforce

lemma get_beyond_len: "wf s \<Longrightarrow> len s = Inr n \<Longrightarrow> n \<le> i \<Longrightarrow> i < limit \<Longrightarrow> get s i = Inr None"
  by (simp add: len_law get_law)

end

end
