(* ===== verification/Encoded_Array.thy ===== *)
theory Encoded_Array
  imports Positional
begin

text \<open>
  \<open>EncodedU64Array\<close> (\<open>rust/lance-table/src/rowids/encoded_array.rs\<close>): a vector of
  64-bit values held as 16-bit or 32-bit offsets from a base, or plainly. The values an array
  stands for are \<open>enc_iter\<close>; an array is well-formed when adding an offset to the base
  never wraps, which every constructor establishes. The lemmas state each accessor as the list
  operation on the values it stands for, and that construction is lossless and keeps the order
  that the binary search relies on.
\<close>

datatype encoded_u64_array =
    EncU16 u64 "u16 list"
  | EncU32 u64 "u32 list"
  | EncU64 "u64 list"

fun enc_len :: "encoded_u64_array \<Rightarrow> usize" where
  "enc_len (EncU16 base offsets) = length offsets"
| "enc_len (EncU32 base offsets) = length offsets"
| "enc_len (EncU64 values) = length values"

fun enc_iter :: "encoded_u64_array \<Rightarrow> u64 list" where
  "enc_iter (EncU16 base offsets) = map (\<lambda>off. base + ucast off) offsets"
| "enc_iter (EncU32 base offsets) = map (\<lambda>off. base + ucast off) offsets"
| "enc_iter (EncU64 values) = values"

fun enc_get :: "encoded_u64_array \<Rightarrow> usize \<Rightarrow> u64 option" where
  "enc_get (EncU16 base offsets) i =
     (if i < length offsets then Some (base + ucast (offsets ! i)) else None)"
| "enc_get (EncU32 base offsets) i =
     (if i < length offsets then Some (base + ucast (offsets ! i)) else None)"
| "enc_get (EncU64 values) i = (if i < length values then Some (values ! i) else None)"

fun enc_min :: "encoded_u64_array \<Rightarrow> u64 option" where
  "enc_min (EncU16 base offsets) = (if offsets = [] then None else Some base)"
| "enc_min (EncU32 base offsets) = (if offsets = [] then None else Some base)"
| "enc_min (EncU64 values) = list_min values"

fun enc_max :: "encoded_u64_array \<Rightarrow> u64 option" where
  "enc_max (EncU16 base offsets) = map_option (\<lambda>off. base + ucast off) (list_max offsets)"
| "enc_max (EncU32 base offsets) = map_option (\<lambda>off. base + ucast off) (list_max offsets)"
| "enc_max (EncU64 values) = list_max values"

fun enc_first :: "encoded_u64_array \<Rightarrow> u64 option" where
  "enc_first (EncU16 base offsets) = (if offsets = [] then None else Some (base + ucast (hd offsets)))"
| "enc_first (EncU32 base offsets) = (if offsets = [] then None else Some (base + ucast (hd offsets)))"
| "enc_first (EncU64 values) = (if values = [] then None else Some (hd values))"

fun enc_last :: "encoded_u64_array \<Rightarrow> u64 option" where
  "enc_last (EncU16 base offsets) = (if offsets = [] then None else Some (base + ucast (last offsets)))"
| "enc_last (EncU32 base offsets) = (if offsets = [] then None else Some (base + ucast (last offsets)))"
| "enc_last (EncU64 values) = (if values = [] then None else Some (last values))"

fun enc_binary_search :: "encoded_u64_array \<Rightarrow> u64 \<Rightarrow> usize + usize" where
  "enc_binary_search (EncU16 base offsets) val =
     (case checked_sub val base of
        None \<Rightarrow> Inl 0
      | Some val \<Rightarrow>
          if val > ucast (- 1 :: u16) then Inl (length offsets)
          else binary_search offsets (ucast val))"
| "enc_binary_search (EncU32 base offsets) val =
     (case checked_sub val base of
        None \<Rightarrow> Inl 0
      | Some val \<Rightarrow>
          if val > ucast (- 1 :: u32) then Inl (length offsets)
          else binary_search offsets (ucast val))"
| "enc_binary_search (EncU64 values) val = binary_search values val"

definition enc_from_vec :: "u64 list \<Rightarrow> encoded_u64_array" where
  "enc_from_vec values =
     (let min = (case list_min values of None \<Rightarrow> 0 | Some m \<Rightarrow> m);
          max = (case list_max values of None \<Rightarrow> 0 | Some m \<Rightarrow> m);
          range = max - min
      in if values = [] then EncU64 []
         else if range \<le> ucast (- 1 :: u16) then EncU16 min (map (\<lambda>v. ucast (v - min)) values)
         else if range \<le> ucast (- 1 :: u32) then EncU32 min (map (\<lambda>v. ucast (v - min)) values)
         else EncU64 values)"

definition enc_from_range :: "u64 range \<Rightarrow> encoded_u64_array" where
  "enc_from_range r =
     (let min = fst r; max = snd r; range = max - min
      in if range < ucast (- 1 :: u16) then EncU16 min (range_vals (0, ucast range))
         else if range < ucast (- 1 :: u32) then EncU32 min (range_vals (0, ucast range))
         else EncU64 (range_vals (min, max)))"

fun enc_slice :: "encoded_u64_array \<Rightarrow> usize \<Rightarrow> usize \<Rightarrow> encoded_u64_array res" where
  "enc_slice (EncU16 base offsets) offset len =
     (if offset + len \<le> length offsets
      then Inr (enc_from_vec (map (\<lambda>off. base + ucast off) (take len (drop offset offsets))))
      else Inl Panic)"
| "enc_slice (EncU32 base offsets) offset len =
     (if offset + len \<le> length offsets
      then Inr (enc_from_vec (map (\<lambda>off. base + ucast off) (take len (drop offset offsets))))
      else Inl Panic)"
| "enc_slice (EncU64 values) offset len =
     (if offset + len \<le> length values then Inr (EncU64 (take len (drop offset values))) else Inl Panic)"

subsection \<open>Invariant\<close>

definition offsets_fit :: "u64 \<Rightarrow> 'a::len word list \<Rightarrow> bool" where
  "offsets_fit base offsets \<longleftrightarrow> list_all (\<lambda>off. unat base + unat off < 2 ^ 64) offsets"

fun enc_wf :: "encoded_u64_array \<Rightarrow> bool" where
  "enc_wf (EncU16 base offsets) = offsets_fit base offsets"
| "enc_wf (EncU32 base offsets) = offsets_fit base offsets"
| "enc_wf (EncU64 values) = True"

text \<open>The reader of the minimum takes the base, so it is exact only when some offset is zero.\<close>

fun enc_base_tight :: "encoded_u64_array \<Rightarrow> bool" where
  "enc_base_tight (EncU16 base offsets) = (offsets \<noteq> [] \<longrightarrow> 0 \<in> set offsets)"
| "enc_base_tight (EncU32 base offsets) = (offsets \<noteq> [] \<longrightarrow> 0 \<in> set offsets)"
| "enc_base_tight (EncU64 values) = True"

subsection \<open>Accessors\<close>

lemma enc_len_eq [simp]: "enc_len a = length (enc_iter a)"
  by (cases a) simp_all

lemma enc_get_eq: "enc_get a i = (if i < length (enc_iter a) then Some (enc_iter a ! i) else None)"
  by (cases a) simp_all

lemma enc_first_eq: "enc_first a = (if enc_iter a = [] then None else Some (hd (enc_iter a)))"
  by (cases a) (auto simp: hd_map)

lemma enc_last_eq: "enc_last a = (if enc_iter a = [] then None else Some (last (enc_iter a)))"
  by (cases a) (auto simp: last_map)

lemma unat_ucast_offset: "LENGTH('a::len) \<le> 64 \<Longrightarrow> unat (ucast (off :: 'a word) :: u64) = unat off"
  by (simp add: unat_ucast_up)

lemma unat_base_offset:
  assumes "LENGTH('a::len) \<le> 64" "unat base + unat (off :: 'a word) < 2 ^ 64"
  shows "unat (base + ucast off :: u64) = unat base + unat off"
  using assms by (simp add: unat_word_ariths unat_ucast_offset)

lemma base_offset_less_iff:
  assumes "LENGTH('a::len) \<le> 64" "unat base + unat (x :: 'a word) < 2 ^ 64" "unat base + unat y < 2 ^ 64"
  shows "(base + ucast x :: u64) < base + ucast y \<longleftrightarrow> x < y"
  using assms by (simp add: word_less_nat_alt unat_base_offset)

lemma base_offset_eq_iff:
  assumes "LENGTH('a::len) \<le> 64" "unat base + unat (x :: 'a word) < 2 ^ 64" "unat base + unat y < 2 ^ 64"
  shows "(base + ucast x :: u64) = base + ucast y \<longleftrightarrow> x = y"
  using assms by (simp add: word_unat_eq_iff unat_base_offset)

lemma list_max_map_mono:
  assumes "mono_on (set xs) f"
  shows "list_max (map f xs) = map_option f (list_max xs)"
proof (cases "xs = []")
  case False
  have "Max (f ` set xs) = f (Max (set xs))"
    using False assms by (intro Max_eqI) (auto simp: mono_on_def)
  with False show ?thesis by (simp add: list_max_eq)
qed simp

lemma enc_max_eq: "enc_wf a \<Longrightarrow> enc_max a = list_max (enc_iter a)"
proof (cases a)
  case (EncU16 base offsets)
  assume "enc_wf a"
  with EncU16 show ?thesis
    by (auto simp: offsets_fit_def list_all_iff word_le_nat_alt unat_base_offset mono_on_def
        intro!: list_max_map_mono[symmetric])
next
  case (EncU32 base offsets)
  assume "enc_wf a"
  with EncU32 show ?thesis
    by (auto simp: offsets_fit_def list_all_iff word_le_nat_alt unat_base_offset mono_on_def
        intro!: list_max_map_mono[symmetric])
qed simp

lemma base_le_offset:
  "LENGTH('a::len) \<le> 64 \<Longrightarrow> unat base + unat (off :: 'a word) < 2 ^ 64 \<Longrightarrow> base \<le> (base + ucast off :: u64)"
  by (simp add: word_le_nat_alt unat_base_offset)

lemma list_min_le: "list_min xs = Some m \<Longrightarrow> v \<in> set xs \<Longrightarrow> m \<le> v"
  by (cases "xs = []") (auto simp: list_min_eq)

lemma enc_min_le:
  assumes "enc_wf a" "enc_min a = Some m" "v \<in> set (enc_iter a)"
  shows "m \<le> v"
  using assms
  by (cases a) (auto simp: offsets_fit_def list_all_iff base_le_offset list_min_le split: if_splits)

lemma enc_min_None: "enc_min a = None \<longleftrightarrow> enc_iter a = []"
  by (cases a) (auto simp: list_min_def split: list.splits)

lemma enc_min_eq:
  assumes "enc_wf a" "enc_base_tight a"
  shows "enc_min a = list_min (enc_iter a)"
proof (cases "enc_iter a = []")
  case True
  then show ?thesis by (simp add: enc_min_None)
next
  case False
  then obtain m where m: "enc_min a = Some m" using enc_min_None by fastforce
  have "m \<in> set (enc_iter a)"
    using m assms(2) False by (cases a) (force simp: list_min_eq split: if_splits)+
  then have "Min (set (enc_iter a)) = m" using enc_min_le[OF assms(1) m] by (intro Min_eqI) auto
  with False m show ?thesis by (simp add: list_min_eq)
qed

subsection \<open>Binary search\<close>

lemma partition_point_map: "partition_point p (map f xs) = partition_point (p \<circ> f) xs"
  by (simp add: partition_point_def takeWhile_map)

lemma partition_point_cong:
  "(\<And>x. x \<in> set xs \<Longrightarrow> p x = q x) \<Longrightarrow> partition_point p xs = partition_point q xs"
  unfolding partition_point_def by (metis takeWhile_cong)

lemma binary_search_offsets:
  assumes "LENGTH('a::len) \<le> 64" "offsets_fit base (offsets :: 'a word list)"
  shows "(case checked_sub val base of None \<Rightarrow> Inl 0
     | Some val \<Rightarrow> if val > ucast (- 1 :: 'a word) then Inl (length offsets)
                   else binary_search offsets (ucast val)) =
    binary_search (map (\<lambda>off. base + ucast off) offsets) val"
proof -
  let ?f = "\<lambda>off :: 'a word. base + ucast off"
  have fit: "unat (?f x) = unat base + unat x" if "x \<in> set offsets" for x
    using that assms by (auto simp: offsets_fit_def list_all_iff unat_base_offset)
  have pp: "partition_point (\<lambda>x. x < val) (map ?f offsets) = partition_point (\<lambda>x. unat base + unat x < unat val) offsets"
    unfolding partition_point_map by (rule partition_point_cong) (simp add: word_less_nat_alt fit)
  have max: "ucast (- 1 :: 'a word) < w \<longleftrightarrow> \<not> unat w < 2 ^ LENGTH('a)" for w :: u64
    using le_ucast_max[where ?'a = 'a and ?'b = 64, of w] assms(1) by (simp only: len_num1 not_le[symmetric]) simp
  consider "val < base" | "base \<le> val" "\<not> unat (val - base) < 2 ^ LENGTH('a)" | "base \<le> val" "unat (val - base) < 2 ^ LENGTH('a)"
    by force
  then show ?thesis
  proof cases
    case 1
    then have "partition_point (\<lambda>x. unat base + unat x < unat val) offsets = 0"
      by (cases offsets) (simp_all add: partition_point_def word_less_nat_alt)
    moreover have "?f (offsets ! 0) \<noteq> val" if "0 < length offsets"
      using fit[of "offsets ! 0"] that 1 by (auto simp: word_less_nat_alt)
    ultimately show ?thesis using 1 unfolding binary_search_def pp max by (auto simp: Let_def)
  next
    case 2
    have lt: "unat base + unat x < unat val" for x :: "'a word"
    proof -
      have "unat x < 2 ^ LENGTH('a)" by (rule unsigned_less)
      moreover have "unat (val - base) = unat val - unat base" using 2(1) by (simp add: unat_sub)
      ultimately show ?thesis using 2(2) by linarith
    qed
    then have "partition_point (\<lambda>x. unat base + unat x < unat val) offsets = length offsets"
      unfolding partition_point_def by (metis takeWhile_eq_all_conv)
    with 2 show ?thesis unfolding binary_search_def pp max by (simp add: Let_def)
  next
    case 3
    then have v: "unat (ucast (val - base) :: 'a word) = unat val - unat base"
      by (simp add: unat_ucast_small unat_sub)
    have "partition_point (\<lambda>x. x < ucast (val - base)) offsets = partition_point (\<lambda>x. unat base + unat x < unat val) offsets"
      using 3 by (intro partition_point_cong) (auto simp: word_less_nat_alt word_le_nat_alt v)
    moreover have "offsets ! k = ucast (val - base) \<longleftrightarrow> ?f (offsets ! k) = val" if "k < length offsets" for k
      using 3 fit[of "offsets ! k"] that by (auto simp: word_unat_eq_iff v word_le_nat_alt)
    ultimately show ?thesis
      using 3 unfolding binary_search_def pp max by (simp add: Let_def cong: conj_cong)
  qed
qed

text \<open>Searching the offsets is searching the values.\<close>

lemma enc_binary_search_eq: "enc_wf a \<Longrightarrow> enc_binary_search a val = binary_search (enc_iter a) val"
  by (cases a) (simp_all only: enc_wf.simps enc_iter.simps enc_binary_search.simps binary_search_offsets
      len_num1 len_of_numeral_defs numeral_le_iff)

subsection \<open>Construction\<close>

lemma offset_encode:
  fixes v base max :: u64
  assumes "LENGTH('a::len) \<le> 64" "base \<le> v" "v \<le> max" "max - base \<le> ucast (- 1 :: 'a word)"
  shows "base + ucast (ucast (v - base) :: 'a word) = v" "unat base + unat (ucast (v - base) :: 'a word) < 2 ^ 64"
proof -
  have "unat (v - base) \<le> unat (max - base)" using assms(2,3) by (simp add: unat_sub word_le_nat_alt)
  also have "\<dots> < 2 ^ LENGTH('a)" using assms(1,4) le_ucast_max[where ?'a = 'a and ?'b = 64] by simp
  finally have u: "unat (ucast (v - base) :: 'a word) = unat v - unat base"
    using assms(2) by (simp add: unat_ucast_small unat_sub)
  have le: "unat base \<le> unat v" using assms(2) by (simp add: word_le_nat_alt)
  then show fits: "unat base + unat (ucast (v - base) :: 'a word) < 2 ^ 64"
    using u unsigned_less[of v, where ?'a = nat] by simp
  show "base + ucast (ucast (v - base) :: 'a word) = v"
    using unat_base_offset[OF assms(1) fits] u le by (simp add: word_unat_eq_iff)
qed

lemma offsets_of_vec:
  assumes "LENGTH('a::len) \<le> 64" "\<And>v. v \<in> set values \<Longrightarrow> base \<le> v \<and> v \<le> mx" "base \<in> set values"
    "mx - base \<le> (ucast (- 1 :: 'a word) :: u64)"
  shows "map (\<lambda>off. base + ucast (off :: 'a word)) (map (\<lambda>v. ucast (v - base)) values) = values"
    "offsets_fit base (map (\<lambda>v. ucast (v - base) :: 'a word) values)"
    "0 \<in> set (map (\<lambda>v. ucast (v - base) :: 'a word) values)"
  using assms(2,3) offset_encode[OF assms(1) _ _ assms(4)]
  by (auto simp: offsets_fit_def list_all_iff image_iff intro!: map_idI bexI[of _ base])

lemma enc_from_vec_spec:
  "enc_iter (enc_from_vec values) = values \<and> enc_wf (enc_from_vec values) \<and> enc_base_tight (enc_from_vec values)"
proof (cases "values = []")
  case False
  define mn mx where "mn = Min (set values)" and "mx = Max (set values)"
  have bounds: "mn \<le> v" "v \<le> mx" if "v \<in> set values" for v
    using that by (simp_all add: mn_def mx_def)
  have mn: "mn \<in> set values" using False by (simp add: mn_def)
  have enc: "enc_from_vec values =
      (if mx - mn \<le> ucast (- 1 :: u16) then EncU16 mn (map (\<lambda>v. ucast (v - mn)) values)
       else if mx - mn \<le> ucast (- 1 :: u32) then EncU32 mn (map (\<lambda>v. ucast (v - mn)) values)
       else EncU64 values)"
    using False by (simp only: enc_from_vec_def list_min_eq list_max_eq mn_def mx_def Let_def option.simps if_False not_False_eq_True)
  have b: "v \<in> set values \<Longrightarrow> mn \<le> v \<and> v \<le> mx" for v using bounds by blast
  show ?thesis unfolding enc
    using offsets_of_vec[where ?'a = 16, OF _ b mn] offsets_of_vec[where ?'a = 32, OF _ b mn]
    by (simp only: enc_iter.simps enc_wf.simps enc_base_tight.simps split: if_splits) simp
qed (simp add: enc_from_vec_def)

lemma enc_iter_from_vec [simp]: "enc_iter (enc_from_vec values) = values"
  and enc_wf_from_vec [simp]: "enc_wf (enc_from_vec values)"
  and enc_tight_from_vec [simp]: "enc_base_tight (enc_from_vec values)"
  using enc_from_vec_spec by simp_all

lemma offsets_from_range:
  fixes a b :: u64
  assumes "LENGTH('a::len) \<le> 64" "a \<le> b" "b - a < ucast (- 1 :: 'a word)"
  shows "map (\<lambda>off. a + ucast (off :: 'a word)) (range_vals (0, ucast (b - a))) = range_vals (a, b) \<and>
    offsets_fit a (range_vals (0, ucast (b - a) :: 'a word))"
proof -
  have "unat (b - a) < 2 ^ LENGTH('a)"
    using assms(1) le_ucast_max[where ?'a = 'a and ?'b = 64] less_imp_le[OF assms(3)] by simp
  then have u: "unat (ucast (b - a) :: 'a word) = unat b - unat a"
    using assms(2) by (simp add: unat_ucast_small unat_sub)
  have fit: "unat a + unat off < 2 ^ 64" if "off \<in> set (range_vals (0, ucast (b - a) :: 'a word))" for off
    using that u unsigned_less[of b, where ?'a = nat] by (simp add: word_less_nat_alt)
  have "map (\<lambda>off. a + ucast (off :: 'a word)) (range_vals (0, ucast (b - a))) ! i = range_vals (a, b) ! i"
    if i: "i < unat b - unat a" for i
  proof -
    let ?x = "range_vals (0, ucast (b - a) :: 'a word) ! i"
    have "?x \<in> set (range_vals (0, ucast (b - a) :: 'a word))" using i u by (intro nth_mem) simp
    then have "unat (a + ucast ?x) = unat a + i"
      using unat_base_offset[OF assms(1) fit] unat_nth_range_vals[of i "(0, ucast (b - a) :: 'a word)"] i u by simp
    then show ?thesis using i u unat_nth_range_vals[of i "(a, b)"] by (simp add: word_unat_eq_iff)
  qed
  with fit u show ?thesis by (auto simp: offsets_fit_def list_all_iff intro!: nth_equalityI)
qed

lemma enc_from_range_spec:
  assumes "fst r \<le> snd r"
  shows "enc_iter (enc_from_range r) = range_vals r \<and> enc_wf (enc_from_range r)"
  using offsets_from_range[where ?'a = 16, OF _ assms] offsets_from_range[where ?'a = 32, OF _ assms]
  unfolding enc_from_range_def Let_def by (auto split: if_splits)

lemma enc_slice_spec:
  assumes "offset + len \<le> length (enc_iter a)"
  shows "\<exists>b. enc_slice a offset len = Inr b \<and> enc_iter b = take len (drop offset (enc_iter a)) \<and> enc_wf b"
  using assms by (cases a) (simp_all add: take_map drop_map)

lemma enc_slice_panics: "length (enc_iter a) < offset + len \<Longrightarrow> enc_slice a offset len = Inl Panic"
  by (cases a) simp_all

subsection \<open>Sorted arrays as a positional structure\<close>

lemma length_distinct_words: "distinct xs \<Longrightarrow> length xs \<le> 2 ^ LENGTH('a)"
  for xs :: "'a::len word list"
  using card_mono[of UNIV "set xs"] by (simp add: distinct_card card_word)

definition enc_position :: "encoded_u64_array \<Rightarrow> u64 \<Rightarrow> usize option res" where
  "enc_position a v = Inr (case enc_binary_search a v of Inr k \<Rightarrow> Some k | Inl _ \<Rightarrow> None)"

lemma enc_position_eq:
  assumes "enc_wf a" "sorted_wrt (<) (enc_iter a)"
  shows "i < length (enc_iter a) \<Longrightarrow> enc_position a (enc_iter a ! i) = Inr (Some i)"
    "v \<notin> set (enc_iter a) \<Longrightarrow> enc_position a v = Inr None"
proof -
  show "enc_position a (enc_iter a ! i) = Inr (Some i)" if "i < length (enc_iter a)"
    using binary_search_strict_sorted[OF assms(2) that] by (simp add: enc_position_def enc_binary_search_eq[OF assms(1)])
  show "enc_position a v = Inr None" if "v \<notin> set (enc_iter a)"
    using that assms by (simp add: enc_position_def enc_binary_search_eq binary_search_sorted_notin strict_sorted_sorted)
qed

interpretation enc: positional enc_iter "\<lambda>a. enc_wf a \<and> sorted_wrt (<) (enc_iter a)" "\<lambda>a. Inr (enc_len a)"
  "\<lambda>a i. Inr (enc_get a i)" enc_position "2 ^ 64"
proof
  show "length (enc_iter a) \<le> 2 ^ 64" if "enc_wf a \<and> sorted_wrt (<) (enc_iter a)" for a
    using length_distinct_words[of "enc_iter a"] that by (simp add: strict_sorted_distinct)
qed (auto simp: strict_sorted_distinct enc_get_eq enc_position_eq)

subsection \<open>Properties\<close>

text \<open>
  C2. Packing a vector of row ids (offsets of 16 or 32 bits over the minimum when they fit) is
  lossless: the encoded array is well-formed and iterates over exactly the packed values, so
  \<open>get\<close> reads them back.
\<close>

theorem encode_roundtrip:
  "enc_iter (enc_from_vec xs) = xs \<and> enc_wf (enc_from_vec xs) \<and> enc_len (enc_from_vec xs) = length xs \<and>
   enc_get (enc_from_vec xs) i = (if i < length xs then Some (xs ! i) else None)"
  using enc_from_vec_spec[of xs] by (simp add: enc_get_eq)

end
