(* ===== verification/Bitmap.thy ===== *)
theory Bitmap
  imports Lance_Prelude
begin

text \<open>
  The packed bitmap of \<^verbatim>\<open>lance-table/src/rowids/bitmap.rs\<close>: \<open>Bitmap\<close>, its slices and
  the conversions from boolean slices. \<open>bitmap_bits\<close> is what a bitmap means (the list of its
  bits) and \<open>bitmap_wf\<close> the representation invariant: as many bytes as the length needs, and
  no padding bit set. Every operation is characterised on \<open>bitmap_bits\<close>.
\<close>

subsection \<open>Data and operations\<close>

record bitmap =
  bm_data :: "u8 list"
  bm_len :: usize

record bitmap_slice =
  bs_bitmap :: bitmap
  bs_start :: usize
  bs_len :: usize

definition count_ones :: "u8 list \<Rightarrow> usize" where
  "count_ones data =
     (let (words, tail) = as_chunks 8 data
      in sum_list (map (\<lambda>word. popcount (from_le_bytes word :: u64)) words)
         + sum_list (map popcount tail))"

definition bit_test :: "u8 \<Rightarrow> nat \<Rightarrow> bool" where
  "bit_test byte i \<longleftrightarrow> byte AND push_bit i 1 \<noteq> 0"

definition bitmap_from_parts :: "u8 list \<Rightarrow> usize \<Rightarrow> bitmap" where
  "bitmap_from_parts data len = \<lparr>bm_data = data, bm_len = len\<rparr>"

definition bitmap_new_empty :: "usize \<Rightarrow> bitmap" where
  "bitmap_new_empty len = bitmap_from_parts (replicate (div_ceil len 8) 0) len"

definition bitmap_new_full :: "usize \<Rightarrow> bitmap" where
  "bitmap_new_full len =
     (let data = replicate (div_ceil len 8) 255;
          remainder = len mod 8
      in if remainder \<noteq> 0
         then let bits_to_clear = 8 - remainder;
                  last_byte = fold (\<lambda>offset_from_end byte.
                                let i = 7 - offset_from_end in byte AND NOT (push_bit i 1))
                              [0..<bits_to_clear] (last data)
              in bitmap_from_parts (data[length data - 1 := last_byte]) len
         else bitmap_from_parts data len)"

definition bitmap_set :: "bitmap \<Rightarrow> usize \<Rightarrow> bitmap res" where
  "bitmap_set bm i =
     bindr (index_slice (bm_data bm) (i div 8))
       (\<lambda>byte. Inr (bm\<lparr>bm_data := (bm_data bm)[i div 8 := byte OR push_bit (i mod 8) 1]\<rparr>))"

definition bitmap_clear :: "bitmap \<Rightarrow> usize \<Rightarrow> bitmap res" where
  "bitmap_clear bm i =
     bindr (index_slice (bm_data bm) (i div 8))
       (\<lambda>byte. Inr (bm\<lparr>bm_data := (bm_data bm)[i div 8 := byte AND NOT (push_bit (i mod 8) 1)]\<rparr>))"

definition bitmap_clear_range :: "bitmap \<Rightarrow> usize \<times> usize \<Rightarrow> bitmap res" where
  "bitmap_clear_range bm r =
     (if range_is_empty r then Inr bm
      else
        let first = fst r div 8; last = (snd r - 1) div 8;
            head = (ucast (push_bit (fst r mod 8) (255 :: u16)) :: u8);
            tail = (ucast (drop_bit (7 - (snd r - 1) mod 8) (255 :: u16)) :: u8);
            data = bm_data bm
        in if first = last
           then bindr (index_slice data first)
                  (\<lambda>byte. Inr (bm\<lparr>bm_data := data[first := byte AND NOT (head AND tail)]\<rparr>))
           else bindr (index_slice data first)
                  (\<lambda>byte. bindr (index_slice data last)
                    (\<lambda>byte'.
                      let data1 = data[first := byte AND NOT head];
                          data2 = take (first + 1) data1 @ replicate (last - (first + 1)) 0
                                  @ drop last data1
                      in Inr (bm\<lparr>bm_data := data2[last := byte' AND NOT tail]\<rparr>))))"

definition bitmap_get :: "bitmap \<Rightarrow> usize \<Rightarrow> bool res" where
  "bitmap_get bm i =
     bindr (index_slice (bm_data bm) (i div 8)) (\<lambda>byte. Inr (bit_test byte (i mod 8)))"

definition bitmap_slice :: "bitmap \<Rightarrow> usize \<Rightarrow> usize \<Rightarrow> bitmap_slice" where
  "bitmap_slice bm start len = \<lparr>bs_bitmap = bm, bs_start = start, bs_len = len\<rparr>"

definition bitmap_count_ones :: "bitmap \<Rightarrow> usize" where
  "bitmap_count_ones bm = count_ones (bm_data bm)"

definition bitmap_count_zeros :: "bitmap \<Rightarrow> usize" where
  "bitmap_count_zeros bm = usize_sub (bm_len bm) (bitmap_count_ones bm)"

definition bitmap_iter :: "bitmap \<Rightarrow> bool list" where
  "bitmap_iter bm =
     take (bm_len bm) (concat (map (\<lambda>x. map (\<lambda>i. bit_test x i) [0..<8]) (bm_data bm)))"

definition bitmap_from_bools :: "bool list \<Rightarrow> bitmap res" where
  "bitmap_from_bools bools =
     foldr_res (\<lambda>(i, b) bm. if b then bitmap_set bm i else Inr bm)
       (enumerate 0 bools) (bitmap_new_empty (length bools))"

definition slice_count_ones :: "bitmap_slice \<Rightarrow> usize res" where
  "slice_count_ones s =
     (if bs_len s = 0 then Inr 0
      else
        let data = bm_data (bs_bitmap s);
            first_byte = bs_start s div 8;
            last_byte = (bs_start s + bs_len s - 1) div 8;
            last_bit = (bs_start s + bs_len s - 1) mod 8 + 1
        in if first_byte = last_byte
           then bindr (index_slice data first_byte)
                  (\<lambda>byte. Inr (length (filter (bit_test byte) [bs_start s mod 8..<last_bit])))
           else bindr (index_slice data first_byte)
                  (\<lambda>fb. bindr (index_slice data last_byte)
                    (\<lambda>lb. Inr (length (filter (bit_test fb) [bs_start s mod 8..<8])
                               + length (filter (bit_test lb) [0..<last_bit])
                               + count_ones (take (last_byte - (first_byte + 1))
                                                  (drop (first_byte + 1) data))))))"

definition slice_count_zeros :: "bitmap_slice \<Rightarrow> usize res" where
  "slice_count_zeros s = bindr (slice_count_ones s) (\<lambda>ones. Inr (usize_sub (bs_len s) ones))"

definition bitmap_from_slice :: "bitmap_slice \<Rightarrow> bitmap res" where
  "bitmap_from_slice s =
     foldr_res (\<lambda>i bm. bindr (bitmap_get (bs_bitmap s) (bs_start s + i))
                  (\<lambda>b. if b then bitmap_set bm i else Inr bm))
       [0..<bs_len s] (bitmap_new_empty (bs_len s))"

subsection \<open>Meaning and invariant\<close>

definition bitmap_bits :: "bitmap \<Rightarrow> bool list" where
  "bitmap_bits bm = take (bm_len bm) (bytes_bits (bm_data bm))"

definition bitmap_wf :: "bitmap \<Rightarrow> bool" where
  "bitmap_wf bm \<longleftrightarrow>
     length (bm_data bm) = div_ceil (bm_len bm) 8 \<and>
     list_all Not (drop (bm_len bm) (bytes_bits (bm_data bm)))"

lemma bit_test_iff: "bit_test byte i \<longleftrightarrow> bit byte i"
  by (simp add: bit_test_def push_bit_eq_mult and_exp_eq_0_iff_not_bit)

lemma bitmap_iter_eq: "bitmap_iter bm = bitmap_bits bm"
  by (simp add: bitmap_iter_def bitmap_bits_def bytes_bits_def bit_test_iff)

lemma bitmap_wf_bits:
  assumes "bitmap_wf bm"
  shows "bytes_bits (bm_data bm) = bitmap_bits bm @ replicate (8 * length (bm_data bm) - bm_len bm) False"
proof -
  have "drop (bm_len bm) (bytes_bits (bm_data bm)) =
      replicate (length (drop (bm_len bm) (bytes_bits (bm_data bm)))) False"
    using assms by (intro replicate_eqI) (auto simp: bitmap_wf_def list_all_iff)
  then show ?thesis unfolding bitmap_bits_def by (metis append_take_drop_id length_bytes_bits length_drop)
qed

lemma bitmap_wf_le: "bitmap_wf bm \<Longrightarrow> bm_len bm \<le> 8 * length (bm_data bm)"
  using div_ceil_8_bounds(1)[of "bm_len bm"] by (simp add: bitmap_wf_def)

lemma length_bitmap_bits [simp]: "bitmap_wf bm \<Longrightarrow> length (bitmap_bits bm) = bm_len bm"
  using bitmap_wf_le[of bm] by (simp add: bitmap_bits_def)

lemma bitmap_wf_index: "bitmap_wf bm \<Longrightarrow> i < bm_len bm \<Longrightarrow> i div 8 < length (bm_data bm)"
  using bitmap_wf_le[of bm] by auto

lemma nth_bitmap_bits:
  "bitmap_wf bm \<Longrightarrow> i < bm_len bm \<Longrightarrow> bitmap_bits bm ! i = bit (bm_data bm ! (i div 8)) (i mod 8)"
  using bitmap_wf_le[of bm] by (simp add: bitmap_bits_def nth_bytes_bits)

lemma bitmap_eqI:
  "\<lbrakk>bitmap_wf a; bitmap_wf b; bm_len a = bm_len b; bitmap_bits a = bitmap_bits b\<rbrakk> \<Longrightarrow>
   bytes_bits (bm_data a) = bytes_bits (bm_data b)"
  by (metis bitmap_wf_bits bitmap_wf_def)

subsection \<open>Counting and reading\<close>

lemma count_ones_bits: "count_ones data = count_list (bytes_bits data) True"
proof -
  obtain ws t where ct: "as_chunks 8 data = (ws, t)" by fastforce
  have "sum_list (map (\<lambda>w. popcount (from_le_bytes w :: u64)) ws) = count_list (bytes_bits (concat ws)) True"
    using as_chunks_length[OF ct]
    by (induction ws) (simp_all add: popcount_from_le_bytes bytes_bits_append count_list_append)
  moreover have "sum_list (map popcount t) = count_list (bytes_bits t) True"
    by (induction t) (simp_all add: popcount_byte bytes_bits_Cons count_list_append del: upt_rec_numeral)
  ultimately have "count_ones data = count_list (bytes_bits (concat ws @ t)) True"
    by (simp add: count_ones_def ct bytes_bits_append count_list_append)
  then show ?thesis using as_chunks_concat[OF ct] by simp
qed

lemma count_list_replicate_False: "count_list (replicate n False) True = 0"
  by (induction n) auto

lemma count_list_bool: "count_list bs True + count_list bs False = length bs"
  by (induction bs) auto

lemma bitmap_count_ones_eq:
  "bitmap_wf bm \<Longrightarrow> bitmap_count_ones bm = count_list (bitmap_bits bm) True"
  by (simp add: bitmap_count_ones_def count_ones_bits bitmap_wf_bits count_list_append count_list_replicate_False)

lemma bitmap_count_zeros_eq:
  assumes "bitmap_wf bm"
  shows "bitmap_count_zeros bm = count_list (bitmap_bits bm) False"
  using count_list_bool[of "bitmap_bits bm"] assms
  by (simp add: bitmap_count_zeros_def bitmap_count_ones_eq)

lemma bitmap_get_eq [simp]:
  "bitmap_wf bm \<Longrightarrow> i < bm_len bm \<Longrightarrow> bitmap_get bm i = Inr (bitmap_bits bm ! i)"
  by (simp add: bitmap_get_def bitmap_wf_index nth_bitmap_bits bit_test_iff)

subsection \<open>Updating\<close>

lemma div8_mod8_eq: "(j div 8 = i div 8 \<and> j mod 8 = i mod 8) \<longleftrightarrow> j = (i :: nat)"
  by (metis div_mult_mod_eq)

lemma bytes_bits_update_nth:
  assumes "j < 8 * length data" "k < length data"
  shows "bytes_bits (data[k := b]) ! j = (if j div 8 = k then bit b (j mod 8) else bytes_bits data ! j)"
proof -
  have "j div 8 < length data" using assms(1) by auto
  then show ?thesis using assms by (simp add: nth_bytes_bits nth_list_update)
qed

lemma bytes_bits_or:
  assumes "i < 8 * length data"
  shows "bytes_bits (data[i div 8 := data ! (i div 8) OR push_bit (i mod 8) 1]) = (bytes_bits data)[i := True]"
proof (rule nth_equalityI)
  fix j assume j: "j < length (bytes_bits (data[i div 8 := data ! (i div 8) OR push_bit (i mod 8) 1]))"
  have k: "i div 8 < length data" using assms by auto
  show "bytes_bits (data[i div 8 := data ! (i div 8) OR push_bit (i mod 8) 1]) ! j = (bytes_bits data)[i := True] ! j"
    using j assms k div8_mod8_eq[of j i] mod_less_divisor[of 8 i] mod_less_divisor[of 8 j]
    by (auto simp: bytes_bits_update_nth nth_list_update nth_bytes_bits bit_or_iff bit_exp_iff possible_bit_word)
qed simp

lemma bytes_bits_and_not:
  assumes "i < 8 * length data"
  shows "bytes_bits (data[i div 8 := data ! (i div 8) AND NOT (push_bit (i mod 8) 1)]) = (bytes_bits data)[i := False]"
proof (rule nth_equalityI)
  fix j assume j: "j < length (bytes_bits (data[i div 8 := data ! (i div 8) AND NOT (push_bit (i mod 8) 1)]))"
  have k: "i div 8 < length data" using assms by auto
  show "bytes_bits (data[i div 8 := data ! (i div 8) AND NOT (push_bit (i mod 8) 1)]) ! j = (bytes_bits data)[i := False] ! j"
    using j assms k div8_mod8_eq[of j i] mod_less_divisor[of 8 i] mod_less_divisor[of 8 j]
    by (auto simp: bytes_bits_update_nth nth_list_update nth_bytes_bits bit_and_iff bit_not_iff bit_exp_iff possible_bit_word)
qed simp

lemma bitmap_set_eq:
  assumes "bitmap_wf bm" "i < bm_len bm"
  shows "\<exists>bm'. bitmap_set bm i = Inr bm' \<and> bitmap_wf bm' \<and> bm_len bm' = bm_len bm \<and>
           bitmap_bits bm' = (bitmap_bits bm)[i := True]"
proof -
  have "i < 8 * length (bm_data bm)" using assms bitmap_wf_le[of bm] by simp
  from bytes_bits_or[OF this] show ?thesis
    using assms bitmap_wf_index[OF assms] by (auto simp: bitmap_set_def bitmap_wf_def bitmap_bits_def take_update_swap drop_update_cancel)
qed

lemma bitmap_clear_eq:
  assumes "bitmap_wf bm" "i < bm_len bm"
  shows "\<exists>bm'. bitmap_clear bm i = Inr bm' \<and> bitmap_wf bm' \<and> bm_len bm' = bm_len bm \<and>
           bitmap_bits bm' = (bitmap_bits bm)[i := False]"
proof -
  have "i < 8 * length (bm_data bm)" using assms bitmap_wf_le[of bm] by simp
  from bytes_bits_and_not[OF this] show ?thesis
    using assms bitmap_wf_index[OF assms] by (auto simp: bitmap_clear_def bitmap_wf_def bitmap_bits_def take_update_swap drop_update_cancel)
qed

lemma bitmap_set_panics: "length (bm_data bm) \<le> i div 8 \<Longrightarrow> bitmap_set bm i = Inl Panic"
  by (simp add: bitmap_set_def)

subsection \<open>Construction\<close>

lemma bytes_bits_replicate_0: "bytes_bits (replicate n 0) = replicate (8 * n) False"
proof (induction n)
  case (Suc n)
  have "map (bit (0 :: u8)) [0..<8] = replicate 8 False" by (intro nth_equalityI) simp_all
  with Suc show ?case by (simp add: bytes_bits_Cons replicate_add del: upt_rec_numeral)
qed simp

lemma bit_255: "bit (255 :: 'a::len word) n \<longleftrightarrow> n < 8 \<and> n < LENGTH('a)"
proof -
  have "(255 :: 'a word) = mask 8" by (simp add: mask_eq_exp_minus_1)
  then show ?thesis by (simp only: bit_mask_iff possible_bit_word) auto
qed

lemma bytes_bits_replicate_255: "bytes_bits (replicate n 255) = replicate (8 * n) True"
proof (induction n)
  case (Suc n)
  have "bit (255 :: u8) i" if "i < 8" for i
    using that by (subst bit_255) simp
  then have "map (bit (255 :: u8)) [0..<8] = replicate 8 True"
    by (intro nth_equalityI) (simp_all del: upt_rec_numeral)
  with Suc show ?case by (simp add: bytes_bits_Cons replicate_add del: upt_rec_numeral)
qed simp

lemma bitmap_new_empty_eq:
  "bitmap_wf (bitmap_new_empty n) \<and> bm_len (bitmap_new_empty n) = n \<and>
   bitmap_bits (bitmap_new_empty n) = replicate n False"
  using div_ceil_8_bounds(1)[of n]
  by (auto simp: bitmap_new_empty_def bitmap_from_parts_def bitmap_wf_def bitmap_bits_def
      bytes_bits_replicate_0 list_all_iff min_def)

lemma bit_clear_high:
  "m \<le> 8 \<Longrightarrow> bit (fold (\<lambda>off byte. let i = 7 - off in byte AND NOT (push_bit i 1)) [0..<m] (b :: u8)) j \<longleftrightarrow>
     bit b j \<and> j + m < 8"
proof (induction m)
  case (Suc m)
  then show ?case
    by (auto simp: Let_def bit_and_iff bit_not_iff bit_exp_iff possible_bit_word dest: bit_imp_le_length)
qed (auto dest: bit_imp_le_length)

lemma byte_order_less: "(j :: nat) < 8 * (n div 8 + 1) \<Longrightarrow> j < n \<longleftrightarrow> (if j div 8 = n div 8 then j mod 8 < n mod 8 else True)"
proof -
  assume less: "j < 8 * (n div 8 + 1)"
  define q r Q R where d: "q = j div 8" "r = j mod 8" "Q = n div 8" "R = n mod 8"
  have jn: "j = 8 * q + r" "n = 8 * Q + R" "r < 8" by (simp_all add: d)
  from less have "8 * q + r < 8 * (Q + 1)" unfolding d(3)[symmetric] jn(1)[symmetric] .
  then have "q < Q + 1" by simp
  then have "q = Q \<or> q + 1 \<le> Q" by auto
  with jn show ?thesis unfolding d[symmetric] by auto
qed

lemma bitmap_new_full_eq:
  "bitmap_wf (bitmap_new_full n) \<and> bm_len (bitmap_new_full n) = n \<and>
   bitmap_bits (bitmap_new_full n) = replicate n True"
proof (cases "n mod 8 = 0")
  case True
  then have "8 * div_ceil n 8 = n" by (auto simp: div_ceil_8)
  with True show ?thesis
    by (simp add: bitmap_new_full_def bitmap_from_parts_def bitmap_wf_def bitmap_bits_def
        bytes_bits_replicate_255)
next
  case False
  let ?k = "div_ceil n 8" and ?m = "8 - n mod 8"
  have k: "?k = n div 8 + 1" using False by (simp add: div_ceil_8) presburger
  define b :: u8 where
    "b = fold (\<lambda>off byte. let i = 7 - off in byte AND NOT (push_bit i 1)) [0..<?m] 255"
  have bb: "bit b j \<longleftrightarrow> j < n mod 8" for j
    unfolding b_def using False by (subst bit_clear_high, simp, subst bit_255) auto
  have full: "bitmap_new_full n = \<lparr>bm_data = (replicate ?k 255)[n div 8 := b], bm_len = n\<rparr>"
  proof -
    have "last (replicate ?k 255 :: u8 list) = 255" "length (replicate ?k 255 :: u8 list) - 1 = n div 8"
      by (simp_all add: k)
    then show ?thesis unfolding bitmap_new_full_def bitmap_from_parts_def b_def Let_def
      by (simp only: False if_False not_False_eq_True if_True)
  qed
  have nth: "bytes_bits ((replicate ?k 255)[n div 8 := b]) ! j = (j < n)" if "j < 8 * ?k" for j
  proof -
    have "j < n \<longleftrightarrow> (if j div 8 = n div 8 then j mod 8 < n mod 8 else True)"
      using that k by (intro byte_order_less) simp
    then show ?thesis
      using that k by (simp add: bytes_bits_update_nth bb bytes_bits_replicate_255 del: replicate.simps)
  qed
  have eq: "bytes_bits ((replicate ?k 255)[n div 8 := b]) = replicate n True @ replicate (8 * ?k - n) False"
    using div_ceil_8_bounds(1)[of n]
    by (intro nth_equalityI) (auto simp: nth nth_append)
  show ?thesis unfolding full bitmap_wf_def bitmap_bits_def by (simp add: eq list_all_iff)
qed

lemma enumerate_0_snoc: "enumerate 0 (xs @ [x]) = enumerate 0 xs @ [(length xs, x)]"
  by (simp add: enumerate_append_eq)

lemma bitmap_from_bools_eq:
  "\<exists>bm. bitmap_from_bools bools = Inr bm \<and> bitmap_wf bm \<and> bitmap_bits bm = bools"
proof -
  let ?f = "\<lambda>(i, b) bm. if b then bitmap_set bm i else Inr bm"
  have "\<exists>bm. foldr_res ?f (enumerate 0 xs) (bitmap_new_empty (length xs + n)) = Inr bm \<and>
      bitmap_wf bm \<and> bm_len bm = length xs + n \<and> bitmap_bits bm = xs @ replicate n False" for xs n
  proof (induction xs arbitrary: n rule: rev_induct)
    case Nil
    then show ?case using bitmap_new_empty_eq[of n] by simp
  next
    case (snoc x xs)
    from snoc[of "Suc n"] obtain bm where bm:
      "foldr_res ?f (enumerate 0 xs) (bitmap_new_empty (length xs + Suc n)) = Inr bm"
      "bitmap_wf bm" "bm_len bm = length xs + Suc n" "bitmap_bits bm = xs @ replicate (Suc n) False"
      by blast
    have *: "foldr_res ?f (enumerate 0 (xs @ [x])) (bitmap_new_empty (length (xs @ [x]) + n)) =
      (if x then bitmap_set bm (length xs) else Inr bm)"
      using bm(1) by (simp add: enumerate_0_snoc foldr_res_append)
    show ?case unfolding * using bm(2-) bitmap_set_eq[of bm "length xs"] by (auto simp: list_update_append)
  qed
  from this[of bools 0] show ?thesis by (auto simp: bitmap_from_bools_def)
qed

lemma bitmap_from_slice_eq:
  assumes "bitmap_wf bm" "start + n \<le> bm_len bm"
  shows "\<exists>bm'. bitmap_from_slice (bitmap_slice bm start n) = Inr bm' \<and> bitmap_wf bm' \<and>
     bitmap_bits bm' = take n (drop start (bitmap_bits bm))"
proof -
  let ?f = "\<lambda>i bm'. bindr (bitmap_get bm (start + i)) (\<lambda>b. if b then bitmap_set bm' i else Inr bm')"
  let ?bits = "drop start (bitmap_bits bm)"
  have "\<exists>bm'. foldr_res ?f [0..<k] (bitmap_new_empty n) = Inr bm' \<and>
      bitmap_wf bm' \<and> bm_len bm' = n \<and> bitmap_bits bm' = take k ?bits @ replicate (n - k) False"
    if "k \<le> n" for k using that
  proof (induction k)
    case 0
    then show ?case using bitmap_new_empty_eq[of n] by simp
  next
    case (Suc k)
    then obtain bm' where bm': "foldr_res ?f [0..<k] (bitmap_new_empty n) = Inr bm'"
      "bitmap_wf bm'" "bm_len bm' = n" "bitmap_bits bm' = take k ?bits @ replicate (n - k) False"
      by force
    have *: "foldr_res ?f [0..<Suc k] (bitmap_new_empty n) =
      (if ?bits ! k then bitmap_set bm' k else Inr bm')"
      using bm'(1) assms Suc.prems by (simp add: foldr_res_append)
    have "replicate (n - k) False = False # replicate (n - Suc k) False"
      using Suc.prems by (simp flip: replicate_Suc add: Suc_diff_Suc)
    moreover have "take (Suc k) ?bits = take k ?bits @ [?bits ! k]"
      using Suc.prems assms by (intro take_Suc_conv_app_nth) simp
    ultimately show ?case unfolding * using bm'(2-) bitmap_set_eq[of bm' k] Suc.prems assms
      by (auto simp: list_update_append)
  qed
  from this[of n] show ?thesis by (auto simp: bitmap_from_slice_def bitmap_slice_def)
qed

subsection \<open>Clearing a range\<close>

lemma bit_head: "bit (ucast (push_bit k (255 :: u16)) :: u8) j \<longleftrightarrow> k \<le> j \<and> j < 8"
  by (subst bit_ucast_iff, subst bit_push_bit_iff, subst bit_255) auto

lemma bit_tail: "k \<le> 7 \<Longrightarrow> bit (ucast (drop_bit (7 - k) (255 :: u16)) :: u8) j \<longleftrightarrow> j \<le> k"
  by (subst bit_ucast_iff, subst bit_drop_bit_eq, unfold o_def, subst bit_255) auto

lemma byte_order_le: "i \<le> j \<longleftrightarrow> i div 8 < j div 8 \<or> i div 8 = j div 8 \<and> i mod 8 \<le> j mod (8 :: nat)"
proof -
  have "a * 8 + b \<le> c * 8 + d \<longleftrightarrow> a < c \<or> a = c \<and> b \<le> d" if "b < 8" "d < 8" for a b c d :: nat
    using that by linarith
  from this[of "i mod 8" "j mod 8" "i div 8" "j div 8"] show ?thesis by simp
qed

lemma clear_range_byte_one:
  assumes "start < end" "start div 8 = (end - 1) div 8" "(end - 1) div 8 < length (bm_data bm)"
  shows "bitmap_clear_range bm (start, end) =
    Inr (bm\<lparr>bm_data := (bm_data bm)[start div 8 := bm_data bm ! (start div 8) AND
       NOT (ucast (push_bit (start mod 8) (255 :: u16)) AND ucast (drop_bit (7 - (end - 1) mod 8) (255 :: u16)))]\<rparr>)"
  using assms by (simp add: bitmap_clear_range_def range_is_empty_def Let_def)

lemma clear_range_byte_many:
  assumes "start < end" "start div 8 < (end - 1) div 8" "(end - 1) div 8 < length (bm_data bm)"
  shows "bitmap_clear_range bm (start, end) =
    Inr (bm\<lparr>bm_data :=
      (take (start div 8) (bm_data bm) @ [bm_data bm ! (start div 8) AND NOT (ucast (push_bit (start mod 8) (255 :: u16)))] @
       replicate ((end - 1) div 8 - (start div 8 + 1)) 0 @
       [bm_data bm ! ((end - 1) div 8) AND NOT (ucast (drop_bit (7 - (end - 1) mod 8) (255 :: u16)))] @
       drop ((end - 1) div 8 + 1) (bm_data bm))\<rparr>)"
proof -
  have fill: "(take (f + 1) (d[f := x]) @ replicate (l - (f + 1)) 0 @ drop l (d[f := x]))[l := y] =
     take f d @ [x] @ replicate (l - (f + 1)) 0 @ [y] @ drop (l + 1) d"
    if "f < l" "l < length d" for f l x y and d :: "u8 list"
    using that by (intro nth_equalityI) (auto simp: nth_append nth_list_update nth_Cons')
  have "start div 8 < length (bm_data bm)" "start div 8 \<noteq> (end - 1) div 8" using assms by linarith+
  with assms show ?thesis
    by (simp only: bitmap_clear_range_def range_is_empty_def Let_def index_slice_simps bindr_simps fill if_False
         fst_conv snd_conv linorder_not_le[symmetric] simp_thms)
qed

lemma byte_mask_one:
  "i < 8 \<Longrightarrow> k \<le> 7 \<Longrightarrow> bit (b AND NOT (ucast (push_bit s (255 :: u16)) AND ucast (drop_bit (7 - k) (255 :: u16))) :: u8) i \<longleftrightarrow>
     bit b i \<and> \<not> (s \<le> i \<and> i \<le> k)"
  unfolding bit_and_iff bit_not_iff bit_head bit_tail by auto

lemma byte_mask_head: "i < 8 \<Longrightarrow> bit (b AND NOT (ucast (push_bit s (255 :: u16))) :: u8) i \<longleftrightarrow> bit b i \<and> \<not> s \<le> i"
  unfolding bit_and_iff bit_not_iff bit_head by auto

lemma byte_mask_tail: "i < 8 \<Longrightarrow> k \<le> 7 \<Longrightarrow> bit (b AND NOT (ucast (drop_bit (7 - k) (255 :: u16))) :: u8) i \<longleftrightarrow> bit b i \<and> \<not> i \<le> k"
  unfolding bit_and_iff bit_not_iff bit_tail by auto

lemma clear_bytes_bit:
  assumes "f < l" "l < length d" "k < length d" "i < 8" "e \<le> 7"
  shows "bit ((take f d @ [d ! f AND NOT (ucast (push_bit s (255 :: u16)))] @ replicate (l - (f + 1)) 0 @
       [d ! l AND NOT (ucast (drop_bit (7 - e) (255 :: u16)))] @ drop (l + 1) d :: u8 list) ! k) i \<longleftrightarrow>
    bit (d ! k) i \<and> \<not> ((f < k \<or> f = k \<and> s \<le> i) \<and> (k < l \<or> k = l \<and> i \<le> e))"
proof -
  consider "k < f" | "k = f" | "f < k" "k < l" | "k = l" | "l < k" by linarith
  then show ?thesis using assms
    by cases (auto simp: nth_append byte_mask_head byte_mask_tail nth_Cons' simp del: mask_numeral)
qed

lemma byte_range_iff:
  assumes "start < end"
  shows "start \<le> j \<and> j < end \<longleftrightarrow>
     (start div 8 < j div 8 \<or> start div 8 = j div 8 \<and> start mod 8 \<le> j mod 8) \<and>
     (j div 8 < (end - 1) div 8 \<or> j div 8 = (end - 1) div 8 \<and> j mod 8 \<le> (end - 1) mod (8 :: nat))"
proof -
  have less_iff: "j < end \<longleftrightarrow> j \<le> end - 1" for j using assms by linarith
  show ?thesis unfolding less_iff byte_order_le[of start j] byte_order_le[of j "end - 1"] by blast
qed

lemma bitmap_clear_range_bits:
  assumes "start < end" "end \<le> 8 * length (bm_data bm)"
  shows "\<exists>data. bitmap_clear_range bm (start, end) = Inr (bm\<lparr>bm_data := data\<rparr>) \<and>
    length data = length (bm_data bm) \<and>
    (\<forall>j < 8 * length data. bytes_bits data ! j \<longleftrightarrow> bytes_bits (bm_data bm) ! j \<and> \<not> (start \<le> j \<and> j < end))"
proof -
  define d f l e where def: "d = bm_data bm" "f = start div 8" "l = (end - 1) div 8" "e = (end - 1) mod 8"
  have fl: "f \<le> l" "l < length d" and e: "e \<le> 7" using assms unfolding def by (auto intro: div_le_mono)
  note eqs = def[symmetric]
  have len: "j div 8 < length d" "j mod 8 < 8" if "j < 8 * length d" for j using that by auto
  have ex: ?thesis
    if d': "bitmap_clear_range bm (start, end) = Inr (bm\<lparr>bm_data := d'\<rparr>)" "length d' = length d"
      "\<And>k i. k < length d \<Longrightarrow> i < 8 \<Longrightarrow> bit (d' ! k) i \<longleftrightarrow> bit (d ! k) i \<and>
          \<not> ((f < k \<or> f = k \<and> start mod 8 \<le> i) \<and> (k < l \<or> k = l \<and> i \<le> e))" for d'
  proof (intro exI[of _ d'] conjI allI impI)
    fix j assume "j < 8 * length d'"
    then have j: "j < 8 * length d" "j < 8 * length d'" by (simp_all add: d'(2))
    show "bytes_bits d' ! j \<longleftrightarrow> bytes_bits (bm_data bm) ! j \<and> \<not> (start \<le> j \<and> j < end)"
      unfolding byte_range_iff[OF assms(1)] eqs nth_bytes_bits[OF j(1)] nth_bytes_bits[OF j(2)]
        d'(3)[OF len[OF j(1)]] ..
  qed (use d' def(1) in simp_all)
  show ?thesis
  proof (cases "f = l")
    case True
    show ?thesis
      by (rule ex[OF clear_range_byte_one[OF assms(1) True[unfolded def] fl(2)[unfolded def], unfolded eqs]])
        (auto simp only: length_list_update nth_list_update byte_mask_one[OF _ e] True fl(2) split: if_splits)
  next
    case False
    then have lt: "f < l" using fl(1) by simp
    show ?thesis
      by (rule ex[OF clear_range_byte_many[OF assms(1) lt[unfolded def] fl(2)[unfolded def], unfolded eqs]])
        (use lt fl in simp, rule clear_bytes_bit[OF lt fl(2) _ _ e], assumption+)
  qed
qed

text \<open>Clearing a range touches exactly the bits of the range.\<close>

lemma bitmap_clear_range_eq:
  assumes "bitmap_wf bm" "end \<le> bm_len bm"
  shows "\<exists>bm'. bitmap_clear_range bm (start, end) = Inr bm' \<and> bitmap_wf bm' \<and> bm_len bm' = bm_len bm \<and>
     bitmap_bits bm' = map (\<lambda>j. bitmap_bits bm ! j \<and> \<not> (start \<le> j \<and> j < end)) [0..<bm_len bm]"
proof (cases "start < end")
  case True
  have le: "bm_len bm \<le> 8 * length (bm_data bm)" by (rule bitmap_wf_le[OF assms(1)])
  obtain data where data: "bitmap_clear_range bm (start, end) = Inr (bm\<lparr>bm_data := data\<rparr>)"
    "length data = length (bm_data bm)"
    "\<And>j. j < 8 * length data \<Longrightarrow> bytes_bits data ! j \<longleftrightarrow> bytes_bits (bm_data bm) ! j \<and> \<not> (start \<le> j \<and> j < end)"
    using bitmap_clear_range_bits[OF True, of bm] assms le by auto
  show ?thesis
    using assms data le
    by (auto simp: bitmap_wf_def bitmap_bits_def list_all_length intro!: nth_equalityI)
next
  case False
  then show ?thesis using assms
    by (auto simp: bitmap_clear_range_def range_is_empty_def intro!: nth_equalityI)
qed

subsection \<open>Counting in a slice\<close>

lemma drop_bytes_bits: "drop (8 * k) (bytes_bits d) = bytes_bits (drop k d)"
proof (induction k arbitrary: d)
  case (Suc k)
  then show ?case by (cases d) (simp_all add: bytes_bits_Cons add.commute[of 8] flip: drop_drop)
qed simp

lemma take_bytes_bits: "take (8 * k) (bytes_bits d) = bytes_bits (take k d)"
proof (induction k arbitrary: d)
  case (Suc k)
  then show ?case by (cases d) (simp_all add: bytes_bits_Cons)
qed simp

lemma count_upt_bit:
  "length (filter (bit_test b) [i..<j]) = count_list (map (bit b) [i..<j]) True"
proof -
  have "bit_test b = bit b" by (simp add: bit_test_iff fun_eq_iff)
  then show ?thesis by (simp add: count_list_map_bit)
qed

lemma byte_slice:
  assumes "k < length d" "i \<le> j" "j \<le> 8"
  shows "map (bit (d ! k)) [i..<j] = take (j - i) (drop (8 * k + i) (bytes_bits d))"
proof (rule nth_equalityI)
  fix a assume "a < length (map (bit (d ! k)) [i..<j])"
  then have a: "a < j - i" by simp
  then have "8 * k + i + a = 8 * k + (i + a)" "i + a < 8" using assms by simp_all
  then have "(8 * k + i + a) div 8 = k" "(8 * k + i + a) mod 8 = i + a"
    by (simp_all only: mod_mult_self4 mod_less div_mult_self4)
  then show "map (bit (d ! k)) [i..<j] ! a = take (j - i) (drop (8 * k + i) (bytes_bits d)) ! a"
    using a assms by (simp add: nth_bytes_bits)
qed (use assms in simp)

lemma bytes_bits_three_way:
  assumes "s \<le> 8" "e \<le> 8" "f < l" "l < length d"
  shows "take (8 - s + (8 * (l - (f + 1)) + e)) (drop (8 * f + s) (bytes_bits d)) =
    map (bit (d ! f)) [s..<8] @ bytes_bits (take (l - (f + 1)) (drop (f + 1) d)) @ map (bit (d ! l)) [0..<e]"
proof -
  have eqs: "8 * f + s + (8 - s) = 8 * (f + 1)" "8 * (f + 1) + 8 * (l - (f + 1)) = 8 * l"
    "8 - s + (8 * f + s) = 8 * (f + 1)" "8 * (l - (f + 1)) + 8 * (f + 1) = 8 * l"
    using assms by simp_all
  show ?thesis
    using byte_slice[of f d s 8] byte_slice[of l d 0 e] assms
    unfolding take_add drop_drop eqs take_bytes_bits[symmetric] drop_bytes_bits[symmetric] by (simp del: upt_rec_numeral)
qed

lemma slice_count_ones_bits:
  assumes "0 < n" "start + n \<le> 8 * length (bm_data bm)"
  shows "slice_count_ones (bitmap_slice bm start n) = Inr (count_list (take n (drop start (bytes_bits (bm_data bm)))) True)"
proof -
  define d f l s e where def: "d = bm_data bm" "f = start div 8" "l = (start + n - 1) div 8"
    "s = start mod 8" "e = (start + n - 1) mod 8 + 1"
  have st: "start = 8 * f + s" "s < 8" unfolding def by simp_all
  have "start + n - 1 = 8 * l + (e - 1)" "0 < e" "e \<le> 8" unfolding def by simp_all
  then have en: "start + n = 8 * l + e" "0 < e" "e \<le> 8" using assms(1) by linarith+
  have l: "l < length d" using assms(2) en unfolding def(1) by linarith
  show ?thesis
  proof (cases "f = l")
    case True
    have n: "n = e - s" and se: "s \<le> e" using True st en assms(1) by linarith+
    have "slice_count_ones (bitmap_slice bm start n) = Inr (count_list (map (bit (d ! f)) [s..<e]) True)"
      using True assms(1) l unfolding slice_count_ones_def bitmap_slice_def
      by (simp only: bitmap_slice.simps Let_def def[symmetric] index_slice_simps bindr_simps count_upt_bit
          if_True nat_less_le split: if_splits) simp
    then show ?thesis using byte_slice[OF l se en(3)] n st def(1) True by simp
  next
    case False
    then have fl: "f < l" using st en assms(1) by linarith
    have n: "n = 8 - s + (8 * (l - (f + 1)) + e)" using st en fl by simp
    have "slice_count_ones (bitmap_slice bm start n) =
        Inr (count_list (map (bit (d ! f)) [s..<8]) True + count_list (map (bit (d ! l)) [0..<e]) True +
             count_list (bytes_bits (take (l - (f + 1)) (drop (f + 1) d))) True)"
      using False assms(1) l fl unfolding slice_count_ones_def bitmap_slice_def
      by (simp only: bitmap_slice.simps Let_def def[symmetric] index_slice_simps bindr_simps count_upt_bit
          count_ones_bits if_False less_trans[OF fl l] split: if_splits) simp
    then show ?thesis
      using bytes_bits_three_way[of s e f l d] st(2) en(3) fl l
      by (simp only: st(1) n def(1)[symmetric]) simp
  qed
qed

lemma slice_count_ones_eq:
  assumes "bitmap_wf bm" "start + n \<le> bm_len bm"
  shows "slice_count_ones (bitmap_slice bm start n) = Inr (count_list (take n (drop start (bitmap_bits bm))) True)"
proof (cases "n = 0")
  case True
  then show ?thesis by (simp add: slice_count_ones_def bitmap_slice_def)
next
  case False
  have "take n (drop start (bitmap_bits bm)) = take n (drop start (bytes_bits (bm_data bm)))"
    using assms(2) by (simp add: bitmap_bits_def drop_take)
  with slice_count_ones_bits[of n start bm] False assms bitmap_wf_le[OF assms(1)] show ?thesis by simp
qed

lemma slice_count_zeros_eq:
  assumes "bitmap_wf bm" "start + n \<le> bm_len bm"
  shows "slice_count_zeros (bitmap_slice bm start n) = Inr (count_list (take n (drop start (bitmap_bits bm))) False)"
proof -
  have "length (take n (drop start (bitmap_bits bm))) = n" using assms by simp
  then have "count_list (take n (drop start (bitmap_bits bm))) True + count_list (take n (drop start (bitmap_bits bm))) False = n"
    using count_list_bool by metis
  then have "usize_sub n (count_list (take n (drop start (bitmap_bits bm))) True) =
     count_list (take n (drop start (bitmap_bits bm))) False" by simp
  then show ?thesis using slice_count_ones_eq[OF assms]
    by (simp add: slice_count_zeros_def bitmap_slice_def)
qed

subsection \<open>Properties\<close>

text \<open>
  C1. \<open>Bitmap::clear_range\<close> clears exactly the bits of the range and keeps every other bit, the
  length and the zeroed tail of the last byte, although it works byte-wise with partial masks at
  both ends.
\<close>

theorem clear_range_correct:
  assumes "bitmap_wf bm" "end \<le> bm_len bm"
  shows "\<exists>bm'. bitmap_clear_range bm (start, end) = Inr bm' \<and> bitmap_wf bm' \<and> bm_len bm' = bm_len bm \<and>
    (\<forall>j < bm_len bm. bitmap_bits bm' ! j \<longleftrightarrow> bitmap_bits bm ! j \<and> \<not> (start \<le> j \<and> j < end))"
proof -
  obtain bm' where bm': "bitmap_clear_range bm (start, end) = Inr bm'" "bitmap_wf bm'" "bm_len bm' = bm_len bm"
    "bitmap_bits bm' = map (\<lambda>j. bitmap_bits bm ! j \<and> \<not> (start \<le> j \<and> j < end)) [0..<bm_len bm]"
    using bitmap_clear_range_eq[OF assms] by blast
  have "bitmap_bits bm' ! j \<longleftrightarrow> bitmap_bits bm ! j \<and> \<not> (start \<le> j \<and> j < end)" if "j < bm_len bm" for j
    using that by (simp add: bm'(4))
  with bm' show ?thesis by blast
qed

theorem clear_range_correct_witness:
  "bitmap_wf (bitmap_new_full 20) \<and>
   (\<exists>bm'. bitmap_clear_range (bitmap_new_full 20) (3, 18) = Inr bm' \<and> bitmap_wf bm' \<and> bm_len bm' = 20 \<and>
     (\<forall>j < 20. bitmap_bits bm' ! j \<longleftrightarrow> bitmap_bits (bitmap_new_full 20) ! j \<and> \<not> (3 \<le> j \<and> j < 18)))"
  using clear_range_correct[of "bitmap_new_full 20" 18 3] bitmap_new_full_eq[of 20] by simp

end
