(* ===== verification/Hole_Runs.thy ===== *)
theory Hole_Runs
  imports Bitmap Positional
begin

text \<open>
  \<open>HoleRuns\<close> (\<open>rust/lance-table/src/rowids/runs.rs\<close>): the missing offsets of a range as
  maximal runs, with prefix counts of the present offsets that make both directions of the
  offset/position translation a binary search. The abstract value of a hole set is the ascending
  list of its present offsets, \<open>hr_present\<close>; \<open>position\<close> and \<open>offset_at\<close> are
  shown to be index lookup in that list and its inverse, \<open>extend_values\<close> and
  \<open>present_ranges\<close> to enumerate it, and the two constructors to produce well-formed hole
  sets (\<open>from_bitmap\<close>: exactly the cleared bits) or to reject the input.
\<close>

record hole_runs =
  hr_span :: u32
  hr_starts :: "u32 list"
  hr_present_before :: "u32 list"

fun try_new_loop :: "u32 \<Rightarrow> (u32 \<times> u32) list \<Rightarrow> u32 list \<Rightarrow> u32 \<Rightarrow> u32 option \<Rightarrow> (u32 list \<times> u32) res" where
  "try_new_loop span [] present_before missing previous_end = Inr (present_before, missing)"
| "try_new_loop span ((start, end) # runs) present_before missing previous_end =
     (if start \<ge> end then Inl CorruptRowIds
      else if end > span then Inl CorruptRowIds
      else if (case previous_end of Some pe \<Rightarrow> pe \<ge> start | None \<Rightarrow> False) then Inl CorruptRowIds
      else try_new_loop span runs (present_before @ [start - missing]) (missing + (end - start)) (Some end))"

definition hole_runs_try_new :: "u32 \<Rightarrow> u32 list \<Rightarrow> u32 list \<Rightarrow> hole_runs res" where
  "hole_runs_try_new span starts ends =
     (if length starts \<noteq> length ends then Inl CorruptRowIds
      else bindr (try_new_loop span (zip starts ends) [] 0 None)
        (\<lambda>(present_before, missing).
           Inr \<lparr>hr_span = span, hr_starts = starts, hr_present_before = present_before @ [span - missing]\<rparr>))"

type_synonym run_state = "u32 list \<times> u32 list \<times> u32 option"

definition run_bit_step :: "u32 \<Rightarrow> bool \<Rightarrow> run_state \<Rightarrow> run_state" where
  "run_bit_step here is_present st =
     (case st of (starts, ends, open_run) \<Rightarrow>
        (case (is_present, open_run) of
           (False, None) \<Rightarrow> (starts, ends, Some here)
         | (True, Some start) \<Rightarrow> (starts @ [start], ends @ [here], None)
         | _ \<Rightarrow> st))"

definition run_byte_step :: "usize \<Rightarrow> u8 \<Rightarrow> usize \<Rightarrow> run_state \<Rightarrow> run_state" where
  "run_byte_step span byte offset st =
     (let valid_bits = min (usize_sub span offset) 8;
          present = byte OR (if valid_bits < 8 then push_bit valid_bits (- 1) else 0)
      in if present = - 1 then
           (case st of (starts, ends, Some start) \<Rightarrow> (starts @ [start], ends @ [word_of_nat offset], None)
                     | _ \<Rightarrow> st)
         else if present = 0 then
           (case st of (starts, ends, None) \<Rightarrow> (starts, ends, Some (word_of_nat offset)) | _ \<Rightarrow> st)
         else fold (\<lambda>i. run_bit_step (word_of_nat (offset + i)) (drop_bit i present AND 1 \<noteq> 0)) [0..<valid_bits] st)"

fun from_bitmap_loop :: "usize \<Rightarrow> u8 list \<Rightarrow> usize \<Rightarrow> run_state \<Rightarrow> run_state" where
  "from_bitmap_loop span [] offset st = st"
| "from_bitmap_loop span (byte # bytes) offset st =
     (let st' = run_byte_step span byte offset st
      in if offset + 8 \<ge> span then st' else from_bitmap_loop span bytes (offset + 8) st')"

definition hole_runs_from_bitmap :: "bitmap \<Rightarrow> hole_runs res" where
  "hole_runs_from_bitmap bm =
     (let span = bm_len bm;
          (starts, ends, open_run) = from_bitmap_loop span (bm_data bm) 0 ([], [], None);
          (starts, ends) = (case open_run of Some start \<Rightarrow> (starts @ [start], ends @ [word_of_nat span])
                                           | None \<Rightarrow> (starts, ends))
      in case hole_runs_try_new (word_of_nat span) starts ends of Inr h \<Rightarrow> Inr h | Inl _ \<Rightarrow> Inl Panic)"

definition hr_num_runs :: "hole_runs \<Rightarrow> usize" where
  "hr_num_runs h = length (hr_starts h)"

definition hr_present_len :: "hole_runs \<Rightarrow> u32 res" where
  "hr_present_len h = index_slice (hr_present_before h) (length (hr_starts h))"

definition hr_start_or_span :: "hole_runs \<Rightarrow> usize \<Rightarrow> u32" where
  "hr_start_or_span h k = (if k < length (hr_starts h) then hr_starts h ! k else hr_span h)"

definition hr_missing_before :: "hole_runs \<Rightarrow> usize \<Rightarrow> u32 res" where
  "hr_missing_before h k = bindr (index_slice (hr_present_before h) k) (\<lambda>p. Inr (hr_start_or_span h k - p))"

definition hr_end :: "hole_runs \<Rightarrow> usize \<Rightarrow> u32 res" where
  "hr_end h k =
     bindr (index_slice (hr_starts h) k)
       (\<lambda>s. bindr (hr_missing_before h (k + 1))
         (\<lambda>m1. bindr (hr_missing_before h k) (\<lambda>m0. Inr (s + (m1 - m0)))))"

definition hr_position :: "hole_runs \<Rightarrow> u32 \<Rightarrow> u32 option res" where
  "hr_position h offset =
     (if offset \<ge> hr_span h then Inr None
      else
        let k = partition_point (\<lambda>start. start \<le> offset) (hr_starts h)
        in bindr (if k > 0 then bindr (hr_end h (k - 1)) (\<lambda>e. Inr (offset < e)) else Inr False)
             (\<lambda>inside. if inside then Inr None
                       else bindr (hr_missing_before h k) (\<lambda>m. Inr (Some (offset - m)))))"

definition hr_runs_before_position :: "hole_runs \<Rightarrow> u32 \<Rightarrow> usize res" where
  "hr_runs_before_position h position =
     (if length (hr_starts h) \<le> length (hr_present_before h)
      then Inr (partition_point (\<lambda>present. present \<le> position)
                  (take (length (hr_starts h)) (hr_present_before h)))
      else Inl Panic)"

definition hr_offset_at :: "hole_runs \<Rightarrow> u32 \<Rightarrow> u32 option res" where
  "hr_offset_at h position =
     bindr (hr_present_len h)
       (\<lambda>len. if position \<ge> len then Inr None
              else bindr (hr_runs_before_position h position)
                (\<lambda>k. bindr (hr_missing_before h k) (\<lambda>m. Inr (Some (position + m)))))"

definition hr_gap :: "hole_runs \<Rightarrow> usize \<Rightarrow> u32 range res" where
  "hr_gap h k =
     bindr (if k = 0 then Inr 0 else hr_end h (k - 1)) (\<lambda>start. Inr (start, hr_start_or_span h k))"

definition hr_present_ranges :: "hole_runs \<Rightarrow> u32 range list res" where
  "hr_present_ranges h =
     bindr (mapr (hr_gap h) [0..<length (hr_starts h) + 1])
       (\<lambda>gaps. Inr (filter (\<lambda>r. \<not> range_is_empty r) gaps))"

function hr_extend_loop :: "hole_runs \<Rightarrow> u64 \<Rightarrow> u32 \<Rightarrow> u32 \<Rightarrow> usize \<Rightarrow> u64 list \<Rightarrow> u64 list res" where
  "hr_extend_loop h base end position k values =
     (if position < end \<and> k \<le> length (hr_starts h) then
        bindr (hr_gap h k)
          (\<lambda>(gap_start, gap_end). bindr (hr_missing_before h k)
            (\<lambda>m. let first_position = gap_start - m;
                     gap_positions_end = first_position + (gap_end - gap_start);
                     take_start = max position first_position;
                     take_end = min end gap_positions_end
                 in if take_start < take_end then
                      let offset = gap_start + (take_start - first_position);
                          a = base + ucast offset
                      in hr_extend_loop h base end take_end (k + 1)
                           (values @ range_vals (a, a + ucast (take_end - take_start)))
                    else hr_extend_loop h base end position (k + 1) values))
      else Inr values)"
  by pat_completeness auto
termination
  by (relation "measure (\<lambda>(h, base, end, position, k, values). Suc (length (hr_starts h)) - k)") auto

declare hr_extend_loop.simps [simp del]

definition hr_extend_values :: "hole_runs \<Rightarrow> u64 \<Rightarrow> u32 range \<Rightarrow> u64 list \<Rightarrow> u64 list res" where
  "hr_extend_values h base positions values =
     bindr (hr_present_len h)
       (\<lambda>len. let end = min (snd positions) len; position = fst positions
              in bindr (hr_runs_before_position h position)
                   (\<lambda>k. hr_extend_loop h base end position k values))"

subsection \<open>Runs of missing offsets, abstractly\<close>

type_synonym runs = "(nat \<times> nat) list"

fun runs_ok :: "nat \<Rightarrow> nat \<Rightarrow> runs \<Rightarrow> bool" where
  "runs_ok lo span [] \<longleftrightarrow> True"
| "runs_ok lo span ((s, e) # rs) \<longleftrightarrow> lo \<le> s \<and> s < e \<and> e \<le> span \<and> runs_ok (Suc e) span rs"

fun present_from :: "nat \<Rightarrow> nat \<Rightarrow> runs \<Rightarrow> nat list" where
  "present_from a span [] = [a..<span]"
| "present_from a span ((s, e) # rs) = [a..<s] @ present_from e span rs"

definition gap_start :: "nat \<Rightarrow> runs \<Rightarrow> nat \<Rightarrow> nat" where
  "gap_start a rs k = (if k = 0 then a else snd (rs ! (k - 1)))"

definition gap_end :: "nat \<Rightarrow> runs \<Rightarrow> nat \<Rightarrow> nat" where
  "gap_end span rs k = (if k < length rs then fst (rs ! k) else span)"

definition run_missing :: "runs \<Rightarrow> nat \<Rightarrow> nat" where
  "run_missing rs k = sum_list (map (\<lambda>(s, e). e - s) (take k rs))"

lemma runs_ok_mono: "runs_ok lo span rs \<Longrightarrow> lo' \<le> lo \<Longrightarrow> runs_ok lo' span rs"
  by (cases rs) auto

lemma gap_simps [simp]:
  "gap_start a rs 0 = a" "gap_start a ((s, e) # rs) (Suc k) = gap_start e rs k"
  "gap_end span [] k = span" "gap_end span ((s, e) # rs) 0 = s" "gap_end span ((s, e) # rs) (Suc k) = gap_end span rs k"
  "run_missing rs 0 = 0" "run_missing [] k = 0" "run_missing ((s, e) # rs) (Suc k) = (e - s) + run_missing rs k"
  by (auto simp: gap_start_def gap_end_def run_missing_def nth_Cons' split: if_splits)

lemma gap_le:
  "runs_ok a span rs \<Longrightarrow> a \<le> span \<Longrightarrow> k \<le> length rs \<Longrightarrow>
   a + run_missing rs k \<le> gap_start a rs k \<and> gap_start a rs k \<le> gap_end span rs k \<and> gap_end span rs k \<le> span"
proof (induction rs arbitrary: a k)
  case (Cons r rs)
  obtain s e where r: "r = (s, e)" by fastforce
  show ?case
  proof (cases k)
    case (Suc j)
    have "e + run_missing rs j \<le> gap_start e rs j \<and> gap_start e rs j \<le> gap_end span rs j \<and> gap_end span rs j \<le> span"
      using Cons r Suc by (intro Cons.IH) (auto intro: runs_ok_mono)
    with Cons.prems r Suc show ?thesis by auto
  qed (use Cons.prems r in auto)
qed simp

lemma gap_end_less:
  "runs_ok a span rs \<Longrightarrow> j < k \<Longrightarrow> k \<le> length rs \<Longrightarrow> a \<le> span \<Longrightarrow> gap_end span rs j < gap_start a rs k"
proof (induction rs arbitrary: a j k)
  case (Cons r rs)
  obtain s e where r: "r = (s, e)" by fastforce
  obtain k' where k: "k = Suc k'" using Cons.prems(2) by (cases k) auto
  have ok: "runs_ok e span rs" "e \<le> span" "s < e" using Cons.prems r by (auto intro: runs_ok_mono)
  show ?case
  proof (cases j)
    case 0
    have "e \<le> gap_start e rs k'" using gap_le[OF ok(1,2), of k'] Cons.prems k by simp
    with 0 k r ok show ?thesis by simp
  next
    case (Suc j')
    with Cons.IH[OF ok(1), of j' k'] Cons.prems k ok r show ?thesis by simp
  qed
qed simp

lemma gap_start_Suc: "k < length rs \<Longrightarrow> runs_ok a span rs \<Longrightarrow>
   gap_start a rs (Suc k) + run_missing rs k = gap_end span rs k + run_missing rs (Suc k)"
proof (induction rs arbitrary: a k)
  case (Cons r rs)
  obtain s e where r: "r = (s, e)" by fastforce
  show ?case
  proof (cases k)
    case (Suc j)
    have "runs_ok e span rs" "s < e" using Cons.prems r by (auto intro: runs_ok_mono)
    with Cons.IH[of j e] Cons.prems r Suc show ?thesis by simp
  qed (use Cons.prems r in auto)
qed simp

lemma present_from_nth:
  assumes "runs_ok a span rs" "a \<le> span" "k \<le> length rs" "gap_start a rs k \<le> off" "off < gap_end span rs k"
  shows "off - a - run_missing rs k < length (present_from a span rs) \<and>
    present_from a span rs ! (off - a - run_missing rs k) = off"
  using assms
proof (induction rs arbitrary: a k)
  case (Cons r rs)
  obtain s e where r: "r = (s, e)" by fastforce
  show ?case
  proof (cases k)
    case (Suc j)
    have ok: "runs_ok e span rs" "e \<le> span" "j \<le> length rs" using Cons.prems r Suc by (auto intro: runs_ok_mono)
    have le: "e + run_missing rs j \<le> off" using gap_le[OF ok] Cons.prems r Suc by simp
    have idx: "off - a - run_missing ((s, e) # rs) (Suc j) = (s - a) + (off - e - run_missing rs j)"
      using le Cons.prems r by simp
    show ?thesis unfolding r Suc idx using Cons.IH[OF ok] Cons.prems r Suc
      by (auto simp: nth_append)
  qed (use Cons.prems r in \<open>auto simp: nth_append\<close>)
qed simp

lemma present_from_bounds: "runs_ok a span rs \<Longrightarrow> x \<in> set (present_from a span rs) \<Longrightarrow> a \<le> x \<and> x < span"
proof (induction rs arbitrary: a)
  case (Cons r rs)
  obtain s e where r: "r = (s, e)" by fastforce
  then have "runs_ok e span rs" using Cons.prems by (auto intro: runs_ok_mono)
  with Cons r show ?case by fastforce
qed simp

lemma present_from_sorted: "runs_ok a span rs \<Longrightarrow> sorted_wrt (<) (present_from a span rs)"
proof (induction rs arbitrary: a)
  case (Cons r rs)
  obtain s e where r: "r = (s, e)" by fastforce
  then have ok: "runs_ok e span rs" "s < e" using Cons.prems by (auto intro: runs_ok_mono)
  with Cons.IH[OF ok(1)] present_from_bounds[OF ok(1)] r show ?case
    by (fastforce simp: sorted_wrt_append)
qed simp

lemma set_present_from:
  "runs_ok a span rs \<Longrightarrow> a \<le> span \<Longrightarrow>
   set (present_from a span rs) = {x. a \<le> x \<and> x < span \<and> (\<forall>(s, e) \<in> set rs. \<not> (s \<le> x \<and> x < e))}"
proof (induction rs arbitrary: a)
  case (Cons r rs)
  obtain s e where r: "r = (s, e)" by fastforce
  then have ok: "runs_ok e span rs" "e \<le> span" "a \<le> s" "s < e" using Cons.prems by (auto intro: runs_ok_mono)
  have later: "Suc e \<le> s'" if "(s', e') \<in> set rs" for s' e'
  proof -
    have "runs_ok lo span rs \<Longrightarrow> (s', e') \<in> set rs \<Longrightarrow> lo \<le> s'" for lo
      by (induction rs arbitrary: lo) (auto split: prod.splits, fastforce)
    then show ?thesis using Cons.prems(1) that r by simp
  qed
  show ?case unfolding r present_from.simps set_append Cons.IH[OF ok(1,2)]
    using ok later by fastforce
qed auto

lemma length_present_from:
  "runs_ok a span rs \<Longrightarrow> a \<le> span \<Longrightarrow> length (present_from a span rs) + a + run_missing rs (length rs) = span"
proof (induction rs arbitrary: a)
  case (Cons r rs)
  obtain s e where r: "r = (s, e)" by fastforce
  then have ok: "runs_ok e span rs" "e \<le> span" "a \<le> s" "s < e" using Cons.prems by (auto intro: runs_ok_mono)
  with Cons.IH[OF ok(1,2)] r show ?case by simp
qed simp

lemma present_from_gaps:
  "present_from a span rs = concat (map (\<lambda>k. [gap_start a rs k..<gap_end span rs k]) [0..<Suc (length rs)])"
proof (induction rs arbitrary: a)
  case (Cons r rs)
  obtain s e where r: "r = (s, e)" by fastforce
  have "map (\<lambda>k. [gap_start a (r # rs) k..<gap_end span (r # rs) k]) [0..<Suc (Suc (length rs))] =
    [a..<s] # map (\<lambda>k. [gap_start e rs k..<gap_end span rs k]) [0..<Suc (length rs)]"
    unfolding r upt_conv_Cons[OF zero_less_Suc] map_Suc_upt[symmetric] list.map(2) map_map by simp
  then show ?case unfolding Cons.IH[of e] r present_from.simps list.size by (simp del: upt_Suc)
qed simp

subsection \<open>Invariant\<close>

definition hr_repr :: "hole_runs \<Rightarrow> runs \<Rightarrow> bool" where
  "hr_repr h rs \<longleftrightarrow>
     map unat (hr_starts h) = map fst rs \<and> runs_ok 0 (unat (hr_span h)) rs \<and>
     map unat (hr_present_before h) =
       map (\<lambda>k. gap_end (unat (hr_span h)) rs k - run_missing rs k) [0..<Suc (length rs)]"

definition hr_runs :: "hole_runs \<Rightarrow> runs" where
  "hr_runs h =
     (let missing = (\<lambda>k. unat (hr_start_or_span h k) - unat (hr_present_before h ! k))
      in map (\<lambda>k. (unat (hr_starts h ! k), unat (hr_starts h ! k) + (missing (Suc k) - missing k)))
           [0..<length (hr_starts h)])"

definition hr_wf :: "hole_runs \<Rightarrow> bool" where
  "hr_wf h \<longleftrightarrow> hr_repr h (hr_runs h)"

definition hr_present :: "hole_runs \<Rightarrow> nat list" where
  "hr_present h = present_from 0 (unat (hr_span h)) (hr_runs h)"

lemma hr_repr_length:
  assumes "hr_repr h rs"
  shows "length (hr_starts h) = length rs" "length (hr_present_before h) = Suc (length rs)"
  using assms[unfolded hr_repr_def] by (metis length_map) (metis (no_types, lifting) assms hr_repr_def length_map length_upt minus_nat.diff_0)

lemma hr_repr_start_or_span:
  assumes "hr_repr h rs"
  shows "unat (hr_start_or_span h k) = gap_end (unat (hr_span h)) rs k"
  using assms hr_repr_length(1)[OF assms] nth_map[of k "hr_starts h" unat] nth_map[of k rs fst]
  by (auto simp: hr_repr_def hr_start_or_span_def gap_end_def)

lemma hr_repr_present_before:
  assumes "hr_repr h rs" "k \<le> length rs"
  shows "unat (hr_present_before h ! k) = gap_end (unat (hr_span h)) rs k - run_missing rs k"
proof -
  have "unat (hr_present_before h ! k) = map unat (hr_present_before h) ! k"
    using hr_repr_length(2)[OF assms(1)] assms(2) by simp
  also have "\<dots> = gap_end (unat (hr_span h)) rs k - run_missing rs k"
    using assms by (simp add: hr_repr_def nth_append del: upt_Suc)
  finally show ?thesis .
qed

lemma hr_repr_ok: "hr_repr h rs \<Longrightarrow> runs_ok 0 (unat (hr_span h)) rs"
  by (simp add: hr_repr_def)

lemma hr_repr_bounds:
  assumes "hr_repr h rs" "k \<le> length rs"
  shows "run_missing rs k \<le> gap_start 0 rs k" "gap_start 0 rs k \<le> gap_end (unat (hr_span h)) rs k"
    "gap_end (unat (hr_span h)) rs k \<le> unat (hr_span h)" "gap_end (unat (hr_span h)) rs k < 2 ^ 32"
proof -
  show "run_missing rs k \<le> gap_start 0 rs k" "gap_start 0 rs k \<le> gap_end (unat (hr_span h)) rs k"
    and le: "gap_end (unat (hr_span h)) rs k \<le> unat (hr_span h)"
    using gap_le[OF hr_repr_ok[OF assms(1)] _ assms(2)] by simp_all
  show "gap_end (unat (hr_span h)) rs k < 2 ^ 32"
    using le unsigned_less[of "hr_span h", where ?'a = nat] by simp
qed

lemma hr_repr_missing:
  assumes "hr_repr h rs" "k \<le> length rs"
  shows "unat (hr_start_or_span h k) - unat (hr_present_before h ! k) = run_missing rs k"
  using hr_repr_bounds(1,2)[OF assms] hr_repr_start_or_span[OF assms(1), of k] hr_repr_present_before[OF assms] by simp

lemma hr_repr_runs: assumes "hr_repr h rs" shows "hr_runs h = rs"
proof (rule nth_equalityI)
  show "length (hr_runs h) = length rs" using hr_repr_length[OF assms] by (simp add: hr_runs_def)
next
  fix k assume "k < length (hr_runs h)"
  then have k: "k < length (hr_starts h)" "k < length rs"
    using hr_repr_length[OF assms] by (simp_all add: hr_runs_def)
  have "unat (hr_starts h ! k) = fst (rs ! k)"
    using hr_repr_start_or_span[OF assms, of k] k by (simp add: hr_start_or_span_def gap_end_def)
  moreover have "snd (rs ! k) = fst (rs ! k) + (run_missing rs (Suc k) - run_missing rs k)"
    using gap_start_Suc[OF k(2) hr_repr_ok[OF assms]] hr_repr_bounds(1,2)[OF assms, of "Suc k"] k
      gap_end_less[OF hr_repr_ok[OF assms], of k "Suc k"]
    by (simp add: gap_start_def gap_end_def)
  ultimately show "hr_runs h ! k = rs ! k"
    using k hr_repr_missing[OF assms, of k] hr_repr_missing[OF assms, of "Suc k"]
    by (simp add: hr_runs_def Let_def prod_eq_iff)
qed

lemma hr_repr_wf: "hr_repr h rs \<Longrightarrow> hr_wf h"
  by (simp add: hr_wf_def hr_repr_runs)

lemma hr_repr_present: "hr_repr h rs \<Longrightarrow> hr_present h = present_from 0 (unat (hr_span h)) rs"
  by (simp add: hr_present_def hr_repr_runs)

lemma hr_wf_repr: "hr_wf h \<Longrightarrow> hr_repr h (hr_runs h)"
  by (simp add: hr_wf_def)

subsection \<open>Accessors\<close>

lemma hr_missing_before_eq:
  assumes "hr_repr h rs" "k \<le> length rs"
  shows "hr_missing_before h k = Inr (word_of_nat (run_missing rs k))"
proof -
  have "hr_start_or_span h k - hr_present_before h ! k = word_of_nat (run_missing rs k)"
    using hr_repr_missing[OF assms] hr_repr_bounds[OF assms] hr_repr_start_or_span[OF assms(1), of k]
      hr_repr_present_before[OF assms]
    by (simp add: word_unat_eq_iff unat_sub word_le_nat_alt unat_of_nat)
  then show ?thesis using hr_repr_length[OF assms(1)] assms(2) by (simp add: hr_missing_before_def)
qed

lemma hr_end_eq:
  assumes "hr_repr h rs" "k < length rs"
  shows "hr_end h k = Inr (word_of_nat (gap_start 0 rs (Suc k)))"
proof -
  have k: "k < length (hr_starts h)" using assms hr_repr_length by simp
  have b: "run_missing rs (Suc k) < 2 ^ 32" "run_missing rs k < 2 ^ 32" "gap_start 0 rs (Suc k) < 2 ^ 32"
    using hr_repr_bounds[OF assms(1), of k] hr_repr_bounds[OF assms(1), of "Suc k"] assms(2) by simp_all
  have "hr_starts h ! k = word_of_nat (gap_end (unat (hr_span h)) rs k)"
    using hr_repr_start_or_span[OF assms(1), of k, symmetric] k by (simp add: hr_start_or_span_def)
  moreover have "gap_start 0 rs (Suc k) = gap_end (unat (hr_span h)) rs k + (run_missing rs (Suc k) - run_missing rs k)"
    using gap_start_Suc[OF assms(2) hr_repr_ok[OF assms(1)]] gap_end_less[OF hr_repr_ok[OF assms(1)], of k "Suc k"] assms(2)
    by simp
  moreover have "run_missing rs k \<le> run_missing rs (Suc k)"
    using gap_start_Suc[OF assms(2) hr_repr_ok[OF assms(1)]] gap_end_less[OF hr_repr_ok[OF assms(1)], of k "Suc k"] assms(2)
    by simp
  ultimately show ?thesis using assms k
    by (simp add: hr_end_def hr_missing_before_eq of_nat_diff)
qed

lemma hr_gap_eq:
  assumes "hr_repr h rs" "k \<le> length rs"
  shows "hr_gap h k = Inr (word_of_nat (gap_start 0 rs k), word_of_nat (gap_end (unat (hr_span h)) rs k))"
proof -
  have "hr_start_or_span h k = word_of_nat (gap_end (unat (hr_span h)) rs k)"
    using hr_repr_start_or_span[OF assms(1), of k, symmetric] by simp
  then show ?thesis using assms hr_end_eq[OF assms(1), of "k - 1"] by (cases k) (simp_all add: hr_gap_def)
qed

lemma hr_present_len_eq:
  assumes "hr_wf h"
  shows "hr_present_len h = Inr (word_of_nat (length (hr_present h)))" "length (hr_present h) \<le> unat (hr_span h)"
proof -
  let ?rs = "hr_runs h"
  note repr = hr_wf_repr[OF assms]
  have len: "length (hr_present h) + run_missing ?rs (length ?rs) = unat (hr_span h)"
    using length_present_from[OF hr_repr_ok[OF repr]] by (simp add: hr_present_def)
  then have "unat (hr_present_before h ! length ?rs) = length (hr_present h)"
    using hr_repr_present_before[OF repr order.refl] by (simp add: gap_end_def)
  then have "hr_present_before h ! length ?rs = word_of_nat (length (hr_present h))"
    by (metis of_nat_unat ucast_id)
  then show "hr_present_len h = Inr (word_of_nat (length (hr_present h)))"
    using hr_repr_length[OF repr] by (simp add: hr_present_len_def)
  show "length (hr_present h) \<le> unat (hr_span h)" using len by simp
qed

lemma hr_present_sorted: "hr_wf h \<Longrightarrow> sorted_wrt (<) (hr_present h)"
  unfolding hr_present_def by (intro present_from_sorted hr_repr_ok hr_wf_repr)

lemma hr_present_less_span: "hr_wf h \<Longrightarrow> x \<in> set (hr_present h) \<Longrightarrow> x < unat (hr_span h)"
  unfolding hr_present_def using present_from_bounds[OF hr_repr_ok[OF hr_wf_repr]] by blast

subsection \<open>Translating between offsets and positions\<close>

lemma hr_gap_nth:
  assumes "hr_repr h rs" "k \<le> length rs" "gap_start 0 rs k \<le> off" "off < gap_end (unat (hr_span h)) rs k"
  shows "off - run_missing rs k < length (hr_present h)" "hr_present h ! (off - run_missing rs k) = off"
  using present_from_nth[OF hr_repr_ok[OF assms(1)] _ assms(2-4)] hr_repr_present[OF assms(1)] by simp_all

lemma hr_position_gap:
  assumes "hr_wf h" "off < hr_span h"
  defines "k \<equiv> partition_point (\<lambda>start. start \<le> off) (hr_starts h)" and "rs \<equiv> hr_runs h"
  shows "k \<le> length rs" "unat off < gap_end (unat (hr_span h)) rs k"
    "0 < k \<Longrightarrow> gap_end (unat (hr_span h)) rs (k - 1) \<le> unat off"
proof -
  note repr = hr_wf_repr[OF assms(1), folded rs_def]
  note len = hr_repr_length[OF repr]
  show k: "k \<le> length rs" using partition_point_le_length len unfolding k_def by metis
  have nth: "unat (hr_starts h ! j) = gap_end (unat (hr_span h)) rs j" if "j < length rs" for j
    using hr_repr_start_or_span[OF repr, of j] that len by (simp add: hr_start_or_span_def)
  show "unat off < gap_end (unat (hr_span h)) rs k"
  proof (cases "k < length rs")
    case True
    then have "\<not> hr_starts h ! k \<le> off"
      using partition_point_not[of "\<lambda>start. start \<le> off" "hr_starts h"] len unfolding k_def by simp
    then show ?thesis using nth[OF True] by (simp add: word_le_nat_alt)
  next
    case False
    then show ?thesis using assms(2) by (simp add: gap_end_def word_less_nat_alt)
  qed
  assume "0 < k"
  then have "hr_starts h ! (k - 1) \<le> off"
    using partition_point_nth[of "k - 1" "\<lambda>start. start \<le> off" "hr_starts h"] unfolding k_def by simp
  then show "gap_end (unat (hr_span h)) rs (k - 1) \<le> unat off"
    using nth[of "k - 1"] k \<open>0 < k\<close> by (simp add: word_le_nat_alt)
qed

lemma hr_position_eq:
  assumes "hr_wf h"
  shows "hr_position h off =
    Inr (if unat off \<in> set (hr_present h)
         then Some (word_of_nat (length (filter (\<lambda>x. x < unat off) (hr_present h)))) else None)"
proof (cases "off < hr_span h")
  case False
  then show ?thesis using hr_present_less_span[OF assms, of "unat off"]
    by (auto simp: hr_position_def word_less_nat_alt word_le_nat_alt)
next
  case True
  define k where "k = partition_point (\<lambda>start. start \<le> off) (hr_starts h)"
  define rs where "rs = hr_runs h"
  note repr = hr_wf_repr[OF assms, folded rs_def]
  note k = hr_position_gap[OF assms True, folded k_def rs_def]
  let ?S = "unat (hr_span h)"
  have gs: "gap_start 0 rs k < 2 ^ 32" using hr_repr_bounds[OF repr k(1)] by simp
  have pos: "hr_position h off = (if 0 < k \<and> unat off < gap_start 0 rs k then Inr None
      else Inr (Some (off - word_of_nat (run_missing rs k))))"
  proof -
    have "\<not> hr_span h \<le> off" using True by simp
    moreover have "off < word_of_nat (gap_start 0 rs k) \<longleftrightarrow> unat off < gap_start 0 rs k"
      using gs by (simp add: word_less_nat_alt unat_of_nat)
    moreover have "hr_end h (k - 1) = Inr (word_of_nat (gap_start 0 rs k))" if "0 < k"
      using hr_end_eq[OF repr, of "k - 1"] k(1) that by simp
    ultimately show ?thesis using hr_missing_before_eq[OF repr k(1)]
      by (cases "0 < k") (simp_all add: hr_position_def Let_def flip: k_def)
  qed
  show ?thesis
  proof (cases "0 < k \<and> unat off < gap_start 0 rs k")
    case True
    then have k1: "k - 1 < length rs" using k(1) by auto
    then have "(fst (rs ! (k - 1)), snd (rs ! (k - 1))) \<in> set rs" by simp
    moreover have "fst (rs ! (k - 1)) \<le> unat off" "unat off < snd (rs ! (k - 1))"
      using True k k1 by (auto simp: gap_end_def gap_start_def)
    ultimately have "unat off \<notin> set (hr_present h)"
      using set_present_from[OF hr_repr_ok[OF repr]] hr_repr_present[OF repr] by fastforce
    with True pos show ?thesis by simp
  next
    case False
    then have le: "gap_start 0 rs k \<le> unat off" by (cases k) auto
    note nth = hr_gap_nth[OF repr k(1) le k(2)]
    have m: "run_missing rs k \<le> unat off" using hr_repr_bounds(1)[OF repr k(1)] le by simp
    have "length (filter (\<lambda>x. x < unat off) (hr_present h)) = unat off - run_missing rs k"
      using strict_sorted_nth_filter[OF hr_present_sorted[OF assms] nth(1)] nth(2) by simp
    moreover have "unat off \<in> set (hr_present h)" using nth nth_mem by metis
    ultimately show ?thesis using False pos m by (auto simp: of_nat_diff)
  qed
qed

lemma hr_position_nth:
  assumes "hr_wf h" "i < length (hr_present h)"
  shows "hr_position h (word_of_nat (hr_present h ! i)) = Inr (Some (word_of_nat i))"
proof -
  have "hr_present h ! i < 2 ^ 32"
    using hr_present_less_span[OF assms(1) nth_mem[OF assms(2)]] unsigned_less[of "hr_span h", where ?'a = nat]
    by simp
  then show ?thesis
    using strict_sorted_nth_filter[OF hr_present_sorted[OF assms(1)] assms(2)] assms
    by (simp add: hr_position_eq unat_of_nat)
qed

lemma hr_before_position:
  fixes position :: u32
  assumes "hr_wf h"
  defines "rs \<equiv> hr_runs h"
  defines "k \<equiv> partition_point (\<lambda>present. present \<le> position) (take (length (hr_starts h)) (hr_present_before h))"
  shows "hr_runs_before_position h position = Inr k" "k \<le> length rs" "gap_start 0 rs k \<le> unat position + run_missing rs k"
    "unat position < length (hr_present h) \<Longrightarrow> unat position + run_missing rs k < gap_end (unat (hr_span h)) rs k"
proof -
  note repr = hr_wf_repr[OF assms(1), folded rs_def]
  note len = hr_repr_length[OF repr]
  let ?S = "unat (hr_span h)"
  let ?pb = "take (length (hr_starts h)) (hr_present_before h)"
  show "hr_runs_before_position h position = Inr k" using len by (simp add: hr_runs_before_position_def k_def)
  have "k \<le> length ?pb" unfolding k_def by (rule partition_point_le_length)
  then show k: "k \<le> length rs" using len by simp
  have pb: "unat (?pb ! j) = gap_end ?S rs j - run_missing rs j" if "j < length rs" for j
    using hr_repr_present_before[OF repr, of j] that len by simp
  show "gap_start 0 rs k \<le> unat position + run_missing rs k"
  proof (cases k)
    case (Suc j)
    then have "?pb ! j \<le> position"
      using partition_point_nth[of j "\<lambda>present. present \<le> position" ?pb] unfolding k_def by simp
    then have "gap_end ?S rs j - run_missing rs j \<le> unat position" using pb[of j] k Suc by (simp add: word_le_nat_alt)
    then show ?thesis using gap_start_Suc[OF _ hr_repr_ok[OF repr], of j] k Suc by simp
  qed simp
  assume p: "unat position < length (hr_present h)"
  show "unat position + run_missing rs k < gap_end ?S rs k"
  proof (cases "k < length rs")
    case True
    then have "\<not> ?pb ! k \<le> position"
      using partition_point_not[of "\<lambda>present. present \<le> position" ?pb] len unfolding k_def by simp
    then show ?thesis using pb[OF True] by (simp add: word_le_nat_alt)
  next
    case False
    then have "k = length rs" using k by simp
    then show ?thesis using p length_present_from[OF hr_repr_ok[OF repr]] hr_repr_present[OF repr]
      by (simp add: gap_end_def)
  qed
qed

lemma hr_offset_at_eq:
  assumes "hr_wf h"
  shows "hr_offset_at h position =
    Inr (if unat position < length (hr_present h) then Some (word_of_nat (hr_present h ! unat position)) else None)"
proof -
  note repr = hr_wf_repr[OF assms]
  have "unat (word_of_nat (length (hr_present h)) :: u32) = length (hr_present h)"
    using hr_present_len_eq(2)[OF assms] unsigned_less[of "hr_span h", where ?'a = nat] by (simp add: unat_of_nat)
  then have le: "word_of_nat (length (hr_present h)) \<le> position \<longleftrightarrow> \<not> unat position < length (hr_present h)"
    by (simp add: word_le_nat_alt not_less)
  define k where "k = partition_point (\<lambda>present. present \<le> position) (take (length (hr_starts h)) (hr_present_before h))"
  note k = hr_before_position[OF assms, of position, folded k_def]
  have "hr_present h ! unat position = unat position + run_missing (hr_runs h) k" if "unat position < length (hr_present h)"
    using hr_gap_nth(2)[OF repr k(2) k(3) k(4)[OF that]] by simp
  then show ?thesis
    using hr_missing_before_eq[OF repr k(2)] by (simp add: hr_offset_at_def hr_present_len_eq[OF assms] k(1) le)
qed

subsection \<open>Enumerating the present offsets\<close>

lemma hr_present_ranges_eq:
  assumes "hr_wf h"
  shows "\<exists>ranges. hr_present_ranges h = Inr ranges \<and> (\<forall>r \<in> set ranges. fst r < snd r) \<and>
    concat (map (map unat \<circ> range_vals) ranges) = hr_present h"
proof -
  let ?rs = "hr_runs h" and ?S = "unat (hr_span h)"
  note repr = hr_wf_repr[OF assms]
  let ?g = "\<lambda>k. (word_of_nat (gap_start 0 ?rs k), word_of_nat (gap_end ?S ?rs k)) :: u32 range"
  have "mapr (hr_gap h) [0..<length (hr_starts h) + 1] = Inr (map ?g [0..<Suc (length ?rs)])"
    using hr_repr_length[OF repr] hr_gap_eq[OF repr] by (intro mapr_Inr[THEN trans]) (auto simp del: upt_Suc)
  then have eq: "hr_present_ranges h = Inr (filter (\<lambda>r. \<not> range_is_empty r) (map ?g [0..<Suc (length ?rs)]))"
    by (simp add: hr_present_ranges_def del: upt_Suc)
  have skip: "concat (map (map unat \<circ> range_vals) (filter (\<lambda>r. \<not> range_is_empty r) rs)) = concat (map (map unat \<circ> range_vals) rs)"
    for rs :: "u32 range list"
    by (induction rs) (auto simp: range_is_empty_def range_vals_empty)
  have g: "((map unat \<circ> range_vals) \<circ> ?g) k = [gap_start 0 ?rs k..<gap_end ?S ?rs k]" if "k \<in> set [0..<Suc (length ?rs)]" for k
  proof -
    have "k \<le> length ?rs" using that by (simp del: upt_Suc)
    from hr_repr_bounds[OF repr this] show ?thesis by (simp add: map_unat_range_vals unat_of_nat)
  qed
  have "concat (map (map unat \<circ> range_vals) (map ?g [0..<Suc (length ?rs)])) = hr_present h"
    unfolding hr_present_def present_from_gaps map_map
    by (rule arg_cong[where f = concat]) (rule map_cong[OF refl g])
  then show ?thesis
    by (intro exI[of _ "filter (\<lambda>r. \<not> range_is_empty r) (map ?g [0..<Suc (length ?rs)])"] conjI ballI eq)
      (simp_all only: skip, simp only: set_filter mem_Collect_eq range_is_empty_def not_not)
qed

lemma hr_extend_loop_stop: "\<not> position < end \<Longrightarrow> hr_extend_loop h base end position k vals = Inr vals"
  by (simp add: hr_extend_loop.simps)

lemma hr_extend_loop_step:
  assumes "hr_repr h rs" "k \<le> length rs" "position < end" "gap_start 0 rs k \<le> unat position + run_missing rs k"
  defines "last_position \<equiv> min (unat end) (gap_end (unat (hr_span h)) rs k - run_missing rs k)"
  shows "hr_extend_loop h base end position k vals =
    (if unat position < last_position
     then hr_extend_loop h base end (word_of_nat last_position) (k + 1)
       (vals @ range_vals (base + word_of_nat (unat position + run_missing rs k),
           base + word_of_nat (unat position + run_missing rs k) + word_of_nat (last_position - unat position)))
     else hr_extend_loop h base end position (k + 1) vals)"
proof -
  let ?m = "run_missing rs k" and ?gs = "gap_start 0 rs k" and ?ge = "gap_end (unat (hr_span h)) rs k"
  have b: "?m \<le> ?gs" "?gs \<le> ?ge" "?ge < 2 ^ 32" using hr_repr_bounds[OF assms(1,2)] by simp_all
  define f g where fg: "f = ?gs - ?m" "g = ?ge - ?m"
  have lp: "last_position = min (unat end) g" by (simp add: last_position_def fg)
  have bounds: "f < 2 ^ 32" "g < 2 ^ 32" "f \<le> unat position" "last_position < 2 ^ 32" "unat position + ?m < 2 ^ 32 \<or> last_position \<le> unat position"
    using b assms(4) unsigned_less[of "end", where ?'a = nat] by (auto simp: fg lp)
  have first: "(word_of_nat ?gs - word_of_nat ?m :: u32) = word_of_nat f" using b by (simp add: fg of_nat_diff)
  have gpe: "(word_of_nat f + (word_of_nat ?ge - word_of_nat ?gs) :: u32) = word_of_nat g"
    using b by (simp add: fg of_nat_diff)
  have ts: "max position (word_of_nat f) = position"
    using bounds by (intro max_absorb1) (simp add: word_le_nat_alt unat_of_nat)
  have te: "min end (word_of_nat g) = word_of_nat last_position"
    using bounds(2) by (simp add: lp min_def word_le_nat_alt unat_of_nat)
  have lt: "position < word_of_nat last_position \<longleftrightarrow> unat position < last_position"
    using bounds by (simp add: word_less_nat_alt unat_of_nat)
  have len: "(ucast (word_of_nat last_position - position) :: u64) = word_of_nat (last_position - unat position)"
    if "unat position < last_position"
  proof -
    have "unat (word_of_nat last_position - position) = last_position - unat position"
      using that bounds(4) lt by (simp add: unat_sub less_imp_le unat_of_nat)
    then show ?thesis by (metis of_nat_unat)
  qed
  have off: "(ucast (word_of_nat ?gs + (position - word_of_nat f)) :: u64) = word_of_nat (unat position + ?m)"
    if "unat position < last_position"
  proof -
    have "unat (position - word_of_nat f) = unat position - f"
      using bounds by (simp add: unat_sub word_le_nat_alt unat_of_nat)
    moreover have "?gs + (unat position - f) = unat position + ?m" using b assms(4) by (simp add: fg)
    ultimately have "unat (word_of_nat ?gs + (position - word_of_nat f)) = unat position + ?m"
      using that bounds(5) b by (simp add: unat_word_ariths unat_of_nat mod_add_left_eq)
    then show ?thesis by (metis of_nat_unat)
  qed
  have "k \<le> length (hr_starts h)" using assms(1,2) hr_repr_length by simp
  then show ?thesis
    unfolding hr_extend_loop.simps[of h base "end" position k vals] hr_gap_eq[OF assms(1,2)] hr_missing_before_eq[OF assms(1,2)]
      bindr_simps prod.case Let_def first gpe ts te lt
    by (cases "unat position < last_position") (simp_all only: assms(3) if_True if_False simp_thms off len)
qed

lemma hr_present_slice:
  assumes "hr_repr h rs" "k \<le> length rs" "gap_start 0 rs k \<le> p + run_missing rs k" "p \<le> q"
    "q + run_missing rs k \<le> gap_end (unat (hr_span h)) rs k" "q \<le> length (hr_present h)"
  shows "drop p (take q (hr_present h)) = [p + run_missing rs k..<q + run_missing rs k]"
proof (rule nth_equalityI)
  fix i assume "i < length (drop p (take q (hr_present h)))"
  then have i: "i < q - p" using assms(6) by simp
  then show "drop p (take q (hr_present h)) ! i = [p + run_missing rs k..<q + run_missing rs k] ! i"
    using assms hr_gap_nth(2)[OF assms(1,2), of "p + run_missing rs k + i"] by simp
qed (use assms in simp)

lemma hr_extend_loop_eq:
  assumes "hr_repr h rs" "unat base + unat (hr_span h) < 2 ^ 64" "unat end \<le> length (hr_present h)"
  shows "(position < end \<Longrightarrow> k \<le> length rs \<and> gap_start 0 rs k \<le> unat position + run_missing rs k) \<Longrightarrow>
    hr_extend_loop h base end position k vals =
    Inr (vals @ map (\<lambda>off. base + word_of_nat off) (drop (unat position) (take (unat end) (hr_present h))))"
proof (induction "Suc (length rs) - k" arbitrary: k position vals)
  case (0 k)
  then have "\<not> position < end" by auto
  then show ?case using assms(3) by (simp add: hr_extend_loop_stop word_less_nat_alt)
next
  case (Suc d)
  show ?case
  proof (cases "position < end")
    case False
    then show ?thesis using assms(3) by (simp add: hr_extend_loop_stop word_less_nat_alt)
  next
    case True
    with Suc.prems have k: "k \<le> length rs" and lo: "gap_start 0 rs k \<le> unat position + run_missing rs k" by auto
    let ?S = "unat (hr_span h)" and ?m = "run_missing rs k"
    define q where "q = min (unat end) (gap_end ?S rs k - ?m)"
    note b = hr_repr_bounds[OF assms(1) k]
    have d: "d = Suc (length rs) - (k + 1)" using Suc.hyps(2) k by simp
    have next_ok: "k + 1 \<le> length rs \<and> gap_start 0 rs (k + 1) \<le> p + run_missing rs (k + 1)"
      if "gap_end ?S rs k - ?m \<le> p" "p < length (hr_present h)" for p
    proof -
      have "k \<noteq> length rs"
        using that length_present_from[OF hr_repr_ok[OF assms(1)]] hr_repr_present[OF assms(1)] by (auto simp: gap_end_def)
      then have "k < length rs" using k by simp
      with gap_start_Suc[OF this hr_repr_ok[OF assms(1)]] that(1) b show ?thesis by simp
    qed
    show ?thesis
    proof (cases "unat position < q")
      case False
      then have "gap_end ?S rs k - ?m \<le> unat position" using True by (simp add: q_def word_less_nat_alt min_def split: if_splits)
      with Suc.hyps(1)[OF d] next_ok[of "unat position"] assms(3) True False show ?thesis
        using hr_extend_loop_step[OF assms(1) k True lo, of base vals, folded q_def] by (simp add: word_less_nat_alt)
    next
      case lt: True
      have q: "q \<le> unat end" "unat (word_of_nat q :: u32) = q" "q + ?m \<le> gap_end ?S rs k" "q \<le> length (hr_present h)"
        using b assms(3) unsigned_less[of "end", where ?'a = nat] lt by (auto simp: q_def unat_of_nat)
      have "hr_extend_loop h base end (word_of_nat q) (k + 1) vs =
          Inr (vs @ map (\<lambda>off. base + word_of_nat off) (drop q (take (unat end) (hr_present h))))" for vs
        using Suc.hyps(1)[OF d, of "word_of_nat q" vs] next_ok[of q] q assms(3)
        by (simp add: word_less_nat_alt q_def min_def split: if_splits)
      moreover have "range_vals (base + word_of_nat (unat position + ?m), base + word_of_nat (unat position + ?m) + word_of_nat (q - unat position)) =
          map (\<lambda>off. base + word_of_nat off) (drop (unat position) (take q (hr_present h)))"
      proof -
        have e: "unat position + ?m + (q - unat position) = q + ?m" using lt by simp
        have "unat base + (unat position + ?m) + (q - unat position) < 2 ^ LENGTH(64)"
          using q(3) b assms(2) e by simp
        from range_vals_offset[OF this] show ?thesis
          unfolding hr_present_slice[OF assms(1) k lo less_imp_le[OF lt] q(3,4)] e .
      qed
      moreover have "drop (unat position) (take q (hr_present h)) @ drop q (take (unat end) (hr_present h)) =
          drop (unat position) (take (unat end) (hr_present h))"
        using drop_take_append[of "unat position" q "unat end" "hr_present h"] lt q by simp
      ultimately show ?thesis
        using hr_extend_loop_step[OF assms(1) k True lo, of base vals, folded q_def] lt
        by (simp flip: map_append)
    qed
  qed
qed

lemma hr_extend_values_eq:
  assumes "hr_wf h" "unat base + unat (hr_span h) < 2 ^ 64"
  shows "hr_extend_values h base (p, q) vals =
    Inr (vals @ map (\<lambda>off. base + word_of_nat off) (drop (unat p) (take (unat q) (hr_present h))))"
proof -
  let ?n = "length (hr_present h)"
  have len: "unat (word_of_nat ?n :: u32) = ?n"
    using hr_present_len_eq(2)[OF assms(1)] unsigned_less[of "hr_span h", where ?'a = nat] by (simp add: unat_of_nat)
  then have "unat (min q (word_of_nat ?n)) = min (unat q) ?n" by (simp add: min_def word_le_nat_alt)
  then show ?thesis
    using hr_extend_loop_eq[OF hr_wf_repr[OF assms(1)] assms(2), of "min q (word_of_nat ?n)" p]
      hr_before_position(1-3)[OF assms(1), of p]
    by (simp add: hr_extend_values_def hr_present_len_eq(1)[OF assms(1)] Let_def min_def split: if_splits)
qed

subsection \<open>Construction from run bounds\<close>

definition nat_run :: "u32 \<times> u32 \<Rightarrow> nat \<times> nat" where
  "nat_run r = (unat (fst r), unat (snd r))"

lemma nat_run_pair [simp]: "nat_run (s, e) = (unat s, unat e)"
  by (simp add: nat_run_def)

definition after_run :: "u32 option \<Rightarrow> nat" where
  "after_run pe = (case pe of None \<Rightarrow> 0 | Some e \<Rightarrow> Suc (unat e))"

lemma try_new_loop_ok:
  "runs_ok (after_run pe) (unat span) (map nat_run rs) \<Longrightarrow> unat missing \<le> after_run pe \<Longrightarrow>
   \<exists>pb'. try_new_loop span rs pb missing pe =
      Inr (pb @ pb', word_of_nat (unat missing + run_missing (map nat_run rs) (length rs))) \<and>
    map unat pb' = map (\<lambda>k. gap_end (unat span) (map nat_run rs) k - (unat missing + run_missing (map nat_run rs) k)) [0..<length rs]"
proof (induction rs arbitrary: pb missing pe)
  case (Cons r rs)
  obtain s e where r: "r = (s, e)" by fastforce
  have ok: "after_run pe \<le> unat s" "unat s < unat e" "unat e \<le> unat span" "runs_ok (Suc (unat e)) (unat span) (map nat_run rs)"
    using Cons.prems(1) r by simp_all
  have guards: "\<not> e \<le> s" "\<not> span < e" "(case pe of Some pe \<Rightarrow> s \<le> pe | None \<Rightarrow> False) = False"
    using ok by (auto simp: word_le_nat_alt word_less_nat_alt after_run_def split: option.splits)
  have m': "unat (missing + (e - s)) = unat missing + (unat e - unat s)"
    using ok Cons.prems(2) unsigned_less[of e, where ?'a = nat]
    by (simp add: unat_word_ariths(1) unat_sub word_le_nat_alt)
  have s': "unat (s - missing) = unat s - unat missing"
    using ok Cons.prems(2) by (simp add: unat_sub word_le_nat_alt)
  have "runs_ok (after_run (Some e)) (unat span) (map nat_run rs)" "unat (missing + (e - s)) \<le> after_run (Some e)"
    using ok m' Cons.prems(2) by (simp_all add: after_run_def)
  from Cons.IH[OF this, of "pb @ [s - missing]"] obtain pb' where pb':
    "try_new_loop span rs (pb @ [s - missing]) (missing + (e - s)) (Some e) =
      Inr (pb @ [s - missing] @ pb', word_of_nat (unat missing + (unat e - unat s) + run_missing (map nat_run rs) (length rs)))"
    "map unat pb' = map (\<lambda>k. gap_end (unat span) (map nat_run rs) k - (unat missing + (unat e - unat s) + run_missing (map nat_run rs) k)) [0..<length rs]"
    unfolding m' append_assoc by blast
  have "map unat ((s - missing) # pb') =
     map (\<lambda>k. gap_end (unat span) (map nat_run (r # rs)) k - (unat missing + run_missing (map nat_run (r # rs)) k)) [0..<length (r # rs)]"
    using r s' pb'(2) by (simp add: map_upt_Suc add.assoc del: upt_Suc)
  then show ?case using pb'(1) guards r
    by (intro exI[of _ "(s - missing) # pb'"]) (simp add: add.assoc)
qed simp

lemma try_new_loop_bad:
  "\<not> runs_ok (after_run pe) (unat span) (map nat_run rs) \<Longrightarrow> try_new_loop span rs pb missing pe = Inl CorruptRowIds"
proof (induction rs arbitrary: pb missing pe)
  case (Cons r rs)
  obtain s e where r: "r = (s, e)" by fastforce
  have "after_run pe \<le> unat s \<longleftrightarrow> \<not> (case pe of Some pe \<Rightarrow> s \<le> pe | None \<Rightarrow> False)"
    by (auto simp: word_le_nat_alt after_run_def split: option.splits)
  with Cons.prems r Cons.IH[of "Some e"] show ?case
    by (auto simp: word_le_nat_alt word_less_nat_alt after_run_def)
qed simp

lemma hole_runs_try_new_ok:
  assumes "length starts = length ends" "runs_ok 0 (unat span) (map nat_run (zip starts ends))"
  shows "\<exists>h. hole_runs_try_new span starts ends = Inr h \<and> hr_span h = span \<and> hr_repr h (map nat_run (zip starts ends))"
proof -
  let ?rs = "map nat_run (zip starts ends)" and ?n = "length starts"
  obtain pb where pb: "try_new_loop span (zip starts ends) [] 0 None = Inr (pb, word_of_nat (run_missing ?rs ?n))"
    "map unat pb = map (\<lambda>k. gap_end (unat span) ?rs k - run_missing ?rs k) [0..<?n]"
    using try_new_loop_ok[of None span "zip starts ends" 0 "[]"] assms by (auto simp: after_run_def)
  have m: "run_missing ?rs ?n \<le> unat span"
    using gap_le[OF assms(2), of ?n] assms(1) by simp
  then have "unat (span - word_of_nat (run_missing ?rs ?n)) = unat span - run_missing ?rs ?n"
    using unsigned_less[of span, where ?'a = nat] by (simp add: unat_sub word_le_nat_alt unat_of_nat)
  moreover have "map unat starts = map fst ?rs"
    using assms(1) by (intro nth_equalityI) simp_all
  ultimately show ?thesis using assms pb
    by (simp add: hole_runs_try_new_def hr_repr_def gap_end_def)
qed

lemma hole_runs_try_new_bad:
  "length starts \<noteq> length ends \<or> \<not> runs_ok 0 (unat span) (map nat_run (zip starts ends)) \<Longrightarrow>
   hole_runs_try_new span starts ends = Inl CorruptRowIds"
  using try_new_loop_bad[of None span "zip starts ends"] by (auto simp: hole_runs_try_new_def after_run_def)

subsection \<open>Construction from a bitmap\<close>

lemma shifted_bit: "drop_bit i (b :: 'a::len word) AND 1 \<noteq> 0 \<longleftrightarrow> bit b i"
  by (simp add: and_one_eq bit_iff_odd_drop_bit mod_2_eq_odd)

lemma fold_run_True:
  "0 < n \<Longrightarrow> fold (\<lambda>i. run_bit_step (w i) True) [0..<n] (starts, ends, op) =
     (case op of Some start \<Rightarrow> (starts @ [start], ends @ [w 0], None) | None \<Rightarrow> (starts, ends, None))"
proof (induction n)
  case (Suc n)
  then show ?case by (cases "n = 0") (auto simp: run_bit_step_def split: option.splits)
qed simp

lemma fold_run_False:
  "0 < n \<Longrightarrow> fold (\<lambda>i. run_bit_step (w i) False) [0..<n] (starts, ends, op) =
     (case op of Some start \<Rightarrow> (starts, ends, Some start) | None \<Rightarrow> (starts, ends, Some (w 0)))"
proof (induction n)
  case (Suc n)
  then show ?case by (cases "n = 0") (auto simp: run_bit_step_def split: option.splits)
qed simp

lemma bit_or_high:
  "i < n \<Longrightarrow> bit (b OR (if n < 8 then push_bit n (- 1) else 0) :: u8) i \<longleftrightarrow> bit b i"
  by (auto simp: bit_or_iff bit_push_bit_iff bit_not_iff bit_mask_iff)

text \<open>The byte-wise shortcuts take the same steps as the bit loop.\<close>

lemma run_byte_step_bits:
  assumes "offset < span"
  shows "run_byte_step span byte offset st =
    fold (\<lambda>i. run_bit_step (word_of_nat (offset + i)) (bit byte i)) [0..<min (span - offset) 8] st"
proof -
  let ?v = "min (span - offset) 8"
  define present :: u8 where "present = byte OR (if ?v < 8 then push_bit ?v (- 1) else 0)"
  have v: "0 < ?v" using assms by simp
  have p: "bit present i \<longleftrightarrow> bit byte i" if "i < ?v" for i
    unfolding present_def using that by (rule bit_or_high)
  obtain starts ends op where st: "st = (starts, ends, op)" by (cases st)
  have "fold (\<lambda>i. run_bit_step (word_of_nat (offset + i)) (bit byte i)) [0..<?v] st =
        fold (\<lambda>i. run_bit_step (word_of_nat (offset + i)) (bit present i)) [0..<?v] st"
    by (intro fold_cong) (simp_all add: p)
  moreover have "fold (\<lambda>i. run_bit_step (word_of_nat (offset + i)) (bit present i)) [0..<?v] st =
     (if present = - 1 then (case op of Some start \<Rightarrow> (starts @ [start], ends @ [word_of_nat offset], None) | None \<Rightarrow> st)
      else if present = 0 then (case op of Some start \<Rightarrow> st | None \<Rightarrow> (starts, ends, Some (word_of_nat offset)))
      else fold (\<lambda>i. run_bit_step (word_of_nat (offset + i)) (bit present i)) [0..<?v] st)"
  proof -
    have "fold (\<lambda>i. run_bit_step (word_of_nat (offset + i)) (bit (- 1 :: u8) i)) [0..<?v] st =
        fold (\<lambda>i. run_bit_step (word_of_nat (offset + i)) True) [0..<?v] st"
      by (intro fold_cong) simp_all
    then show ?thesis
      using fold_run_True[OF v, of "\<lambda>i. word_of_nat (offset + i)"] fold_run_False[OF v, of "\<lambda>i. word_of_nat (offset + i)"]
      by (auto simp: st split: option.splits)
  qed
  moreover have "run_byte_step span byte offset st =
     (if present = - 1 then (case op of Some start \<Rightarrow> (starts @ [start], ends @ [word_of_nat offset], None) | None \<Rightarrow> st)
      else if present = 0 then (case op of Some start \<Rightarrow> st | None \<Rightarrow> (starts, ends, Some (word_of_nat offset)))
      else fold (\<lambda>i. run_bit_step (word_of_nat (offset + i)) (bit present i)) [0..<?v] st)"
    unfolding run_byte_step_def usize_sub_le[OF less_imp_le[OF assms]] Let_def present_def[symmetric] shifted_bit st
    by (simp split: option.splits)
  ultimately show ?thesis by simp
qed

lemma fold_upt_shift: "fold (\<lambda>i. f (a + i)) [0..<n] st = fold f [a..<a + n] st"
  by (induction n) simp_all

lemma from_bitmap_loop_bits:
  "offset < span \<Longrightarrow> span \<le> offset + 8 * length data \<Longrightarrow>
   from_bitmap_loop span data offset st =
     fold (\<lambda>j. run_bit_step (word_of_nat j) (bytes_bits data ! (j - offset))) [offset..<span] st"
proof (induction data arbitrary: offset st)
  case (Cons b data)
  let ?f = "\<lambda>j. run_bit_step (word_of_nat j) (bytes_bits (b # data) ! (j - offset))"
  have byte: "run_byte_step span b offset st = fold ?f [offset..<offset + min (span - offset) 8] st"
    unfolding run_byte_step_bits[OF Cons.prems(1)] fold_upt_shift[symmetric]
    by (intro fold_cong) (simp_all add: bytes_bits_Cons nth_append)
  show ?case
  proof (cases "span \<le> offset + 8")
    case True
    then have "offset + min (span - offset) 8 = span" using Cons.prems by simp
    with True byte show ?thesis by simp
  next
    case False
    then have m: "min (span - offset) 8 = 8" and "offset + 8 < span" by simp_all
    then have "from_bitmap_loop span data (offset + 8) st' = fold ?f [offset + 8..<span] st'" for st'
      using Cons by (subst Cons.IH) (auto intro!: fold_cong simp: bytes_bits_Cons nth_append)
    moreover have "[offset..<span] = [offset..<offset + 8] @ [offset + 8..<span]"
      using False upt_add_eq_append[of offset "offset + 8" "span - (offset + 8)"] by simp
    ultimately show ?thesis using False byte m by (simp add: Let_def)
  qed
qed simp

lemma runs_ok_snoc:
  "runs_ok lo span rs \<Longrightarrow> \<forall>r \<in> set rs. snd r < s \<Longrightarrow> lo \<le> s \<Longrightarrow> s < e \<Longrightarrow> e \<le> span \<Longrightarrow> runs_ok lo span (rs @ [(s, e)])"
  by (induction lo span rs rule: runs_ok.induct) auto

lemma runs_ok_span_mono: "runs_ok lo span rs \<Longrightarrow> span \<le> span' \<Longrightarrow> runs_ok lo span' rs"
  by (induction lo span rs rule: runs_ok.induct) auto

lemma present_from_snoc: "present_from a span (rs @ [(s, e)]) = present_from a s rs @ [e..<span]"
  by (induction a span rs rule: present_from.induct) auto

lemma present_from_Suc: "\<forall>r \<in> set rs. snd r \<le> j \<Longrightarrow> a \<le> j \<Longrightarrow> present_from a (Suc j) rs = present_from a j rs @ [j]"
  by (induction a j rs rule: present_from.induct) auto

text \<open>What the scan has established after the first \<open>j\<close> bits.\<close>

definition scan_inv :: "bool list \<Rightarrow> nat \<Rightarrow> run_state \<Rightarrow> bool" where
  "scan_inv bits j st \<longleftrightarrow>
     (case st of (starts, ends, op) \<Rightarrow>
        let rs = map nat_run (zip starts ends); m = (case op of None \<Rightarrow> j | Some s \<Rightarrow> unat s)
        in length starts = length ends \<and> m \<le> j \<and> (op \<noteq> None \<longrightarrow> m < j) \<and> runs_ok 0 m rs \<and> (\<forall>r \<in> set rs. snd r < m) \<and>
           present_from 0 m rs = filter (\<lambda>i. bits ! i) [0..<j])"

lemma scan_inv_step:
  assumes "scan_inv bits j st" "Suc j < 2 ^ 32"
  shows "scan_inv bits (Suc j) (run_bit_step (word_of_nat j) (bits ! j) st)"
proof -
  obtain starts ends op where st: "st = (starts, ends, op)" by (cases st)
  let ?rs = "map nat_run (zip starts ends)"
  have j: "unat (word_of_nat j :: u32) = j" using assms(2) by (simp add: unat_of_nat)
  show ?thesis
  proof (cases op)
    case None
    then have inv: "length starts = length ends" "runs_ok 0 j ?rs" "\<forall>r \<in> set ?rs. snd r < j"
      "present_from 0 j ?rs = filter (\<lambda>i. bits ! i) [0..<j]"
      using assms(1) by (simp_all add: scan_inv_def st Let_def)
    have "present_from 0 (Suc j) ?rs = present_from 0 j ?rs @ [j]"
      using inv(3) by (intro present_from_Suc) auto
    then show ?thesis using None inv runs_ok_span_mono[OF inv(2), of "Suc j"]
      by (cases "bits ! j") (auto simp: scan_inv_def st run_bit_step_def j)
  next
    case (Some s)
    then have inv: "length starts = length ends" "unat s < j" "runs_ok 0 (unat s) ?rs" "\<forall>r \<in> set ?rs. snd r < unat s"
      "present_from 0 (unat s) ?rs = filter (\<lambda>i. bits ! i) [0..<j]"
      using assms(1) by (simp_all add: scan_inv_def st Let_def)
    have "runs_ok 0 (Suc j) (?rs @ [(unat s, j)])"
      using inv by (intro runs_ok_snoc) (auto intro: runs_ok_span_mono)
    then show ?thesis using Some inv
      by (cases "bits ! j") (auto simp: scan_inv_def st run_bit_step_def j present_from_snoc)
  qed
qed

lemma scan_inv_fold:
  "j < 2 ^ 32 \<Longrightarrow> scan_inv bits j (fold (\<lambda>j. run_bit_step (word_of_nat j) (bits ! j)) [0..<j] ([], [], None))"
proof (induction j)
  case 0
  then show ?case by (simp add: scan_inv_def)
next
  case (Suc j)
  then show ?case using scan_inv_step by simp
qed

lemma scan_inv_finish:
  assumes "scan_inv bits span (starts, ends, op)" "span < 2 ^ 32"
    "(starts', ends') = (case op of Some s \<Rightarrow> (starts @ [s], ends @ [word_of_nat span]) | None \<Rightarrow> (starts, ends))"
  shows "length starts' = length ends'" "runs_ok 0 span (map nat_run (zip starts' ends'))"
    "present_from 0 span (map nat_run (zip starts' ends')) = filter (\<lambda>i. bits ! i) [0..<span]"
proof -
  have u: "unat (word_of_nat span :: u32) = span" using assms(2) by (simp add: unat_of_nat)
  show "length starts' = length ends'" "runs_ok 0 span (map nat_run (zip starts' ends'))"
    "present_from 0 span (map nat_run (zip starts' ends')) = filter (\<lambda>i. bits ! i) [0..<span]"
    using assms(1,3) by (auto simp: scan_inv_def Let_def u present_from_snoc split: option.splits
        intro!: runs_ok_snoc intro: runs_ok_span_mono) fastforce+
qed

lemma hole_runs_from_bitmap_eq:
  assumes "bitmap_wf bm" "bm_len bm < 2 ^ 32"
  shows "\<exists>h. hole_runs_from_bitmap bm = Inr h \<and> hr_wf h \<and> unat (hr_span h) = bm_len bm \<and>
    hr_present h = filter (\<lambda>i. bitmap_bits bm ! i) [0..<bm_len bm]"
proof -
  let ?n = "bm_len bm" and ?bits = "bitmap_bits bm"
  have "from_bitmap_loop ?n (bm_data bm) 0 ([], [], None) = fold (\<lambda>j. run_bit_step (word_of_nat j) (?bits ! j)) [0..<?n] ([], [], None)"
  proof (cases "?n = 0")
    case True
    with assms(1) show ?thesis by (simp add: bitmap_wf_def div_ceil_8)
  next
    case False
    with bitmap_wf_le[OF assms(1)] show ?thesis
      by (subst from_bitmap_loop_bits) (auto simp: bitmap_bits_def intro!: fold_cong)
  qed
  with scan_inv_fold[OF assms(2), of ?bits] have scan: "scan_inv ?bits ?n (from_bitmap_loop ?n (bm_data bm) 0 ([], [], None))"
    by simp
  obtain starts ends op where loop: "from_bitmap_loop ?n (bm_data bm) 0 ([], [], None) = (starts, ends, op)"
    using prod_cases3 by blast
  note inv = scan[unfolded loop]
  obtain starts' ends' where fin: "(starts', ends') = (case op of Some s \<Rightarrow> (starts @ [s], ends @ [word_of_nat ?n]) | None \<Rightarrow> (starts, ends))"
    by (cases "case op of Some s \<Rightarrow> (starts @ [s], ends @ [word_of_nat ?n :: u32]) | None \<Rightarrow> (starts, ends)") metis
  have u: "unat (word_of_nat ?n :: u32) = ?n" using assms(2) by (simp add: unat_of_nat)
  note ok = scan_inv_finish[OF inv assms(2) fin]
  then obtain h where h: "hole_runs_try_new (word_of_nat ?n) starts' ends' = Inr h" "hr_span h = word_of_nat ?n"
    "hr_repr h (map nat_run (zip starts' ends'))"
    using hole_runs_try_new_ok[of starts' ends' "word_of_nat ?n"] u by auto
  have "hole_runs_from_bitmap bm = Inr h"
    unfolding hole_runs_from_bitmap_def Let_def loop prod.case fin[symmetric] h(1) by simp
  with h ok u hr_repr_wf[OF h(3)] hr_repr_present[OF h(3)] show ?thesis by auto
qed

subsection \<open>Present offsets as a positional structure\<close>

definition hr_offsets :: "hole_runs \<Rightarrow> u32 list" where
  "hr_offsets h = map word_of_nat (hr_present h)"

lemma unat_hr_offsets: "hr_wf h \<Longrightarrow> map unat (hr_offsets h) = hr_present h"
proof -
  assume wf: "hr_wf h"
  have "unat (word_of_nat off :: u32) = off" if "off \<in> set (hr_present h)" for off
    using hr_present_less_span[OF wf] that unat_u32_bound[of "hr_span h"] by (fastforce simp: unat_of_nat)
  then show ?thesis by (simp add: hr_offsets_def map_idI)
qed

lemma hr_offsets_bound: "hr_wf h \<Longrightarrow> length (hr_offsets h) < 2 ^ 32"
  using hr_present_len_eq(2)[of h] unat_u32_bound[of "hr_span h"] by (simp add: hr_offsets_def)

interpretation hr: positional hr_offsets hr_wf "\<lambda>h. bindr (hr_present_len h) (\<lambda>n. Inr (unat n))"
  "\<lambda>h i. hr_offset_at h (word_of_nat i)" "\<lambda>h off. bindr (hr_position h off) (\<lambda>p. Inr (map_option unat p))" "2 ^ 32"
proof
  fix h assume wf: "hr_wf h"
  show "distinct (hr_offsets h)"
    using hr_present_sorted[OF wf] unat_hr_offsets[OF wf] by (metis distinct_map strict_sorted_distinct)
  show "length (hr_offsets h) \<le> 2 ^ 32" using hr_offsets_bound[OF wf] by simp
  show "bindr (hr_present_len h) (\<lambda>n. Inr (unat n)) = Inr (length (hr_offsets h))"
    using hr_present_len_eq[OF wf] hr_offsets_bound[OF wf] by (simp add: hr_offsets_def unat_of_nat)
  show "hr_offset_at h (word_of_nat i) = Inr (if i < length (hr_offsets h) then Some (hr_offsets h ! i) else None)"
    if "i < 2 ^ 32" for i
    using hr_offset_at_eq[OF wf, of "word_of_nat i"] that by (simp add: hr_offsets_def unat_of_nat)
  show "bindr (hr_position h (hr_offsets h ! i)) (\<lambda>p. Inr (map_option unat p)) = Inr (Some i)"
    if "i < length (hr_offsets h)" for i
    using hr_position_nth[OF wf, of i] hr_offsets_bound[OF wf] that by (simp add: hr_offsets_def unat_of_nat)
  show "bindr (hr_position h v) (\<lambda>p. Inr (map_option unat p)) = Inr None" if "v \<notin> set (hr_offsets h)" for v
  proof -
    have "unat v \<notin> set (hr_present h)"
    proof
      assume "unat v \<in> set (hr_present h)"
      then have "word_of_nat (unat v) \<in> set (hr_offsets h)" unfolding hr_offsets_def set_map by (rule imageI)
      with that show False by simp
    qed
    then show ?thesis using hr_position_eq[OF wf, of v] by simp
  qed
qed

subsection \<open>Properties\<close>

text \<open>
  C3. On run-encoded ranges, translating an offset to a position and a position to an offset are
  inverse to each other, both answering \<open>None\<close> exactly for offsets inside a hole run or past the
  span, and for positions past the number of present offsets.
\<close>

theorem hole_runs_translation_inverse:
  assumes "hr_wf h" "i < 2 ^ 32"
  shows "(hr_position h off = Inr (Some (word_of_nat i)) \<longleftrightarrow> hr_offset_at h (word_of_nat i) = Inr (Some off)) \<and>
    (hr_position h off = Inr None \<longleftrightarrow> off \<notin> set (hr_offsets h))"
proof -
  obtain p where p: "hr_position h off = Inr p" using hr_position_eq[OF assms(1)] by blast
  have "p = Some (word_of_nat i) \<longleftrightarrow> map_option unat p = Some i"
    using assms(2) by (cases p) (auto simp: unat_of_nat)
  then show ?thesis
    using hr.position_Some_iff[OF assms, of off] hr.position_None_iff[OF assms(1), of off] p by simp
qed

theorem hole_runs_translation_inverse_witness:
  "\<exists>h. hole_runs_try_new 20 [3, 10] [5, 12] = Inr h \<and>
     (hr_position h 7 = Inr (Some (word_of_nat 5)) \<longleftrightarrow> hr_offset_at h (word_of_nat 5) = Inr (Some 7)) \<and>
     (hr_position h 7 = Inr None \<longleftrightarrow> 7 \<notin> set (hr_offsets h))"
proof -
  obtain h where "hole_runs_try_new 20 [3, 10] [5, 12] = Inr h" "hr_wf h"
    using hole_runs_try_new_ok[of "[3, 10]" "[5, 12]" 20] hr_repr_wf by (auto simp: nat_run_def)
  then show ?thesis using hole_runs_translation_inverse[of h 5 7] by simp
qed

text \<open>
  C4. Validation of decoded hole runs: \<open>HoleRuns::try_new\<close> accepts exactly the run lists that are
  non-empty, ordered, separated and inside the span, and what it accepts is well-formed with the
  complement of the runs as its present offsets; everything else is reported as corrupt.
\<close>

theorem try_new_validates:
  "(if length starts = length ends \<and> runs_ok 0 (unat span) (map nat_run (zip starts ends))
    then \<exists>h. hole_runs_try_new span starts ends = Inr h \<and> hr_wf h \<and>
      hr_present h = present_from 0 (unat span) (map nat_run (zip starts ends))
    else hole_runs_try_new span starts ends = Inl CorruptRowIds)"
  using hole_runs_try_new_ok[of starts ends span] hole_runs_try_new_bad[of starts ends span] hr_repr_wf hr_repr_present
  by auto

text \<open>
  C5. Building hole runs from a bitmap, byte by byte with carries across byte boundaries, yields a
  well-formed structure over the same span whose present offsets are the set bits.
\<close>

theorem from_bitmap_correct:
  assumes "bitmap_wf bm" "bm_len bm < 2 ^ 32"
  shows "\<exists>h. hole_runs_from_bitmap bm = Inr h \<and> hr_wf h \<and> unat (hr_span h) = bm_len bm \<and>
    hr_present h = filter (\<lambda>i. bitmap_bits bm ! i) [0..<bm_len bm]"
  by (rule hole_runs_from_bitmap_eq[OF assms])

theorem from_bitmap_correct_witness:
  "\<exists>h. hole_runs_from_bitmap (bitmap_new_full 13) = Inr h \<and> hr_wf h \<and> unat (hr_span h) = 13 \<and>
     hr_present h = filter (\<lambda>i. bitmap_bits (bitmap_new_full 13) ! i) [0..<13]"
  using from_bitmap_correct[of "bitmap_new_full 13"] bitmap_new_full_eq[of 13] by simp

end
