(* ===== verification/Word_Select.thy ===== *)
theory Word_Select
  imports Lance_Prelude
begin

text \<open>
  Select on machine words: the scanning loops of the bitmap code clear the lowest set bit with
  \<open>b & (b - 1)\<close> and read its position with \<open>trailing_zeros\<close>. The positions of the set
  bits of a word are its ascending list \<open>word_ones\<close>; clearing the lowest set bit takes the
  tail of that list and \<open>trailing_zeros\<close> its head, and a run of ones is a block of it.
\<close>

definition clear_lowest :: "'a::len word \<Rightarrow> 'a word" where
  "clear_lowest b = b AND (b - 1)"

definition word_ones :: "'a::len word \<Rightarrow> nat list" where
  "word_ones w = filter (bit w) [0..<LENGTH('a)]"

lemma bit_int_minus_1: "bit (k - 1 :: int) i \<longleftrightarrow> (bit k i \<longleftrightarrow> (\<exists>j<i. bit k j))"
proof (induction i arbitrary: k)
  case 0
  then show ?case by (simp add: bit_0)
next
  case (Suc i)
  have ex: "(\<exists>j<Suc i. bit k j) \<longleftrightarrow> odd k \<or> (\<exists>j<i. bit (k div 2) j)"
    by (auto simp: bit_Suc[symmetric] less_Suc_eq_0_disj bit_0)
  show ?case
  proof (cases "odd k")
    case True
    then have "(k - 1) div 2 = k div 2" by (auto elim!: oddE)
    with True ex show ?thesis by (simp add: bit_Suc)
  next
    case False
    then have "(k - 1) div 2 = k div 2 - 1" by (auto elim!: evenE)
    with False ex Suc[of "k div 2"] show ?thesis by (simp add: bit_Suc)
  qed
qed

lemma bit_word_minus_1:
  fixes w :: "'a::len word"
  shows "i < LENGTH('a) \<Longrightarrow> bit (w - 1) i \<longleftrightarrow> (bit w i \<longleftrightarrow> (\<exists>j<i. bit w j))"
proof -
  assume i: "i < LENGTH('a)"
  have "w - 1 = word_of_int (uint w - 1)" by simp
  then have "bit (w - 1) i \<longleftrightarrow> bit (uint w - 1) i" using i by (simp only: bit_word_of_int_iff) simp
  also have "\<dots> \<longleftrightarrow> (bit (uint w) i \<longleftrightarrow> (\<exists>j<i. bit (uint w) j))" by (rule bit_int_minus_1)
  also have "\<dots> \<longleftrightarrow> (bit w i \<longleftrightarrow> (\<exists>j<i. bit w j))" using i by (auto simp: bit_uint_iff)
  finally show ?thesis .
qed

lemma bit_clear_lowest: "bit (clear_lowest w) i \<longleftrightarrow> bit w i \<and> (\<exists>j<i. bit w j)"
proof (cases "bit w i")
  case True
  then have "i < LENGTH('a)" by (rule bit_imp_le_length)
  with True show ?thesis unfolding clear_lowest_def bit_and_iff by (simp add: bit_word_minus_1)
qed (simp add: clear_lowest_def bit_and_iff)

lemma popcount_ones: "popcount w = length (word_ones w)"
  by (simp add: popcount_def word_ones_def)

lemma sorted_word_ones: "sorted_wrt (<) (word_ones w)"
  unfolding word_ones_def by (rule sorted_wrt_filter) simp

lemma set_word_ones: "set (word_ones w) = {i. bit w i}"
  by (auto simp: word_ones_def dest: bit_imp_le_length)

lemma word_ones_eq_Nil: "word_ones w = [] \<longleftrightarrow> w = 0"
  using set_word_ones[of w] by (auto simp: bit_eq_iff dest: bit_imp_le_length simp flip: set_empty)

lemma strict_sorted_list_unique:
  fixes xs :: "'a::linorder list"
  assumes "sorted_wrt (<) xs" "sorted_wrt (<) ys" "set xs = set ys"
  shows "xs = ys"
  using assms by (intro sorted_distinct_set_unique) (simp_all add: strict_sorted_iff)

lemma word_ones_clear_lowest: "word_ones (clear_lowest w) = tl (word_ones w)"
proof (cases "word_ones w")
  case Nil
  then have "w = 0" by (simp add: word_ones_eq_Nil)
  with Nil show ?thesis by (simp add: clear_lowest_def word_ones_def)
next
  case (Cons i js)
  have srt: "sorted_wrt (<) (i # js)" using sorted_word_ones[of w] Cons by simp
  have bits: "bit w j \<longleftrightarrow> j = i \<or> j \<in> set js" for j using set_word_ones[of w] Cons by auto
  have "set (word_ones (clear_lowest w)) = set js"
    using srt by (auto simp: set_word_ones bit_clear_lowest bits)
  with srt have "word_ones (clear_lowest w) = js"
    by (intro strict_sorted_list_unique sorted_word_ones) auto
  with Cons show ?thesis by simp
qed

lemma word_ones_clear_lowest_pow: "word_ones ((clear_lowest ^^ n) w) = drop n (word_ones w)"
  by (induction n) (simp_all add: word_ones_clear_lowest drop_Suc tl_drop)

lemma trailing_zeros_ones: "w \<noteq> 0 \<Longrightarrow> trailing_zeros w = hd (word_ones w)"
proof -
  assume "w \<noteq> 0"
  then obtain i js where ones: "word_ones w = i # js" by (metis list.exhaust word_ones_eq_Nil)
  then have i: "bit w i" using set_word_ones[of w] by auto
  have first: "\<not> bit w j" if "j < i" for j
  proof
    assume "bit w j"
    then have "j \<in> set (i # js)" using set_word_ones[of w] ones by auto
    with that sorted_word_ones[of w] ones show False by auto
  qed
  have "takeWhile (\<lambda>i. \<not> bit w i) [0..<LENGTH('a)] = [0..<i]"
    using first i bit_imp_le_length[OF i] takeWhile_eq_take_P_nth[of i "[0..<LENGTH('a)]" "\<lambda>i. \<not> bit w i"]
    by (simp add: less_imp_le)
  with ones show ?thesis by (simp add: trailing_zeros_def)
qed

lemma popcount_clear_lowest: "w \<noteq> 0 \<Longrightarrow> popcount (clear_lowest w) < popcount w"
  by (simp add: popcount_ones word_ones_clear_lowest word_ones_eq_Nil)

lemma trailing_zeros_select:
  "n < popcount w \<Longrightarrow> trailing_zeros ((clear_lowest ^^ n) w) = word_ones w ! n"
proof -
  assume n: "n < popcount w"
  then have "word_ones ((clear_lowest ^^ n) w) \<noteq> []" by (simp add: popcount_ones word_ones_clear_lowest_pow)
  then have "(clear_lowest ^^ n) w \<noteq> 0" by (simp add: word_ones_eq_Nil)
  then show ?thesis using n
    by (simp add: trailing_zeros_ones word_ones_clear_lowest_pow popcount_ones hd_drop_conv_nth)
qed

subsection \<open>Runs of ones\<close>

lemma trailing_zeros_le: "trailing_zeros (w :: 'a::len word) \<le> LENGTH('a)"
  using length_takeWhile_le[of "\<lambda>i. \<not> bit w i" "[0..<LENGTH('a)]"] by (simp add: trailing_zeros_def)

lemma trailing_ones_not: "trailing_ones (w :: 'a::len word) = trailing_zeros (NOT w)"
proof -
  have "takeWhile (bit w) [0..<LENGTH('a)] = takeWhile (\<lambda>i. \<not> bit (NOT w) i) [0..<LENGTH('a)]"
    by (intro takeWhile_cong) (auto simp: bit_not_iff)
  then show ?thesis by (simp add: trailing_ones_def trailing_zeros_def)
qed

lemma trailing_zeros_bit:
  fixes w :: "'a::len word"
  shows "i < trailing_zeros w \<Longrightarrow> \<not> bit w i" and "trailing_zeros w < LENGTH('a) \<Longrightarrow> bit w (trailing_zeros w)"
proof -
  let ?p = "\<lambda>i. \<not> bit w i" and ?xs = "[0..<LENGTH('a)]"
  have tz: "trailing_zeros w = partition_point ?p ?xs" by (simp add: trailing_zeros_def partition_point_def)
  show "i < trailing_zeros w \<Longrightarrow> \<not> bit w i"
    using partition_point_nth[of i ?p ?xs] trailing_zeros_le[of w] by (simp add: tz)
  show "trailing_zeros w < LENGTH('a) \<Longrightarrow> bit w (trailing_zeros w)"
    using partition_point_not[of ?p ?xs] by (simp add: tz)
qed

lemma trailing_zeros_full: "trailing_zeros (w :: 'a::len word) = LENGTH('a) \<longleftrightarrow> w = 0"
proof
  assume "trailing_zeros w = LENGTH('a)"
  then have "\<not> bit w i" for i using trailing_zeros_bit(1)[of i w] bit_imp_le_length[of w i] by auto
  then show "w = 0" by (simp add: bit_eq_iff)
next
  assume "w = 0"
  then show "trailing_zeros w = LENGTH('a)" by (simp add: trailing_zeros_def takeWhile_eq_all_conv[THEN iffD2])
qed

lemma unat_drop_bit_less:
  fixes w :: "'a::len word"
  shows "0 < n \<Longrightarrow> w \<noteq> 0 \<Longrightarrow> unat (drop_bit n w) < unat w"
proof -
  assume n: "0 < n" and w: "w \<noteq> 0"
  have "(1 :: nat) < 2 ^ n" using n one_less_power[of "2 :: nat" n] by simp
  moreover have "0 < unat w" using w by (simp add: unat_gt_0)
  ultimately show ?thesis unfolding unat_drop_bit_eq by (simp add: drop_bit_eq_div)
qed

lemma trailing_run_pos: "w \<noteq> 0 \<Longrightarrow> 0 < trailing_ones (drop_bit (trailing_zeros w) (w :: 'a::len word))"
proof -
  assume "w \<noteq> 0"
  then have "trailing_zeros w < LENGTH('a)"
    using trailing_zeros_full[of w] trailing_zeros_le[of w] by simp
  then have b: "bit (drop_bit (trailing_zeros w) w) 0"
    using trailing_zeros_bit(2)[of w] by (simp add: bit_drop_bit_eq)
  have "\<not> bit (NOT (drop_bit (trailing_zeros w) w)) 0" using b by (simp add: bit_not_iff)
  then have "trailing_zeros (NOT (drop_bit (trailing_zeros w) w)) \<noteq> 0"
    using trailing_zeros_bit(2)[of "NOT (drop_bit (trailing_zeros w) w)"] by (metis len_gt_0)
  then show ?thesis by (simp add: trailing_ones_not)
qed

lemma drop_run_less:
  "w \<noteq> 0 \<Longrightarrow> unat (drop_bit (trailing_ones (drop_bit (trailing_zeros w) w)) (drop_bit (trailing_zeros w) w))
     < unat (w :: 'a::len word)"
  using unat_drop_bit_less[of "trailing_ones (drop_bit (trailing_zeros w) w) + trailing_zeros w" w] trailing_run_pos[of w]
  by (simp add: drop_bit_drop_bit)

lemma trailing_ones_bit: "i < trailing_ones (w :: 'a::len word) \<Longrightarrow> bit w i"
proof -
  assume i: "i < trailing_ones w"
  then have "\<not> bit (NOT w) i" by (simp add: trailing_ones_not trailing_zeros_bit(1))
  moreover have "i < LENGTH('a)" using i trailing_zeros_le[of "NOT w"] by (simp add: trailing_ones_not)
  ultimately show ?thesis by (simp add: bit_not_iff)
qed

text \<open>One round of the run expansion: skip the zeros, take the run of ones, continue above it.\<close>

lemma word_ones_run:
  fixes w :: "'a::len word"
  defines "z \<equiv> trailing_zeros w"
  defines "r \<equiv> trailing_ones (drop_bit z w)"
  shows "word_ones w = map (\<lambda>i. z + i) [0..<r] @ map (\<lambda>i. z + r + i) (word_ones (drop_bit r (drop_bit z w)))"
proof (rule strict_sorted_list_unique[OF sorted_word_ones])
  let ?w2 = "drop_bit r (drop_bit z w)"
  show "sorted_wrt (<) (map (\<lambda>i. z + i) [0..<r] @ map (\<lambda>i. z + r + i) (word_ones ?w2))"
    using sorted_word_ones[of ?w2] by (auto simp: sorted_wrt_append sorted_wrt_map)
  have bits: "bit w i \<longleftrightarrow> z \<le> i \<and> i < z + r \<or> z + r \<le> i \<and> bit ?w2 (i - z - r)" for i
  proof -
    consider "i < z" | "z \<le> i" "i < z + r" | "z + r \<le> i" by linarith
    then show ?thesis
    proof cases
      case 1
      then show ?thesis using trailing_zeros_bit(1)[of i w] by (simp add: z_def)
    next
      case 2
      then have "bit (drop_bit z w) (i - z)" by (intro trailing_ones_bit) (simp add: r_def)
      with 2 show ?thesis by (simp add: bit_drop_bit_eq)
    next
      case 3
      then show ?thesis by (simp add: bit_drop_bit_eq)
    qed
  qed
  show "set (word_ones w) = set (map (\<lambda>i. z + i) [0..<r] @ map (\<lambda>i. z + r + i) (word_ones ?w2))"
  proof (rule set_eqI)
    fix i
    have "(\<exists>j<r. i = z + j) \<longleftrightarrow> z \<le> i \<and> i < z + r" by (auto intro!: exI[of _ "i - z"])
    moreover have "(\<exists>j. bit ?w2 j \<and> i = z + r + j) \<longleftrightarrow> z + r \<le> i \<and> bit ?w2 (i - z - r)"
      by (auto intro!: exI[of _ "i - z - r"])
    ultimately show "i \<in> set (word_ones w) \<longleftrightarrow> i \<in> set (map (\<lambda>i. z + i) [0..<r] @ map (\<lambda>i. z + r + i) (word_ones ?w2))"
      by (auto simp: set_word_ones bits image_iff simp del: bit_drop_bit_eq)
  qed
qed

end
