(* ===== verification/Segment.thy ===== *)
theory Segment
  imports Encoded_Array Hole_Runs Word_Select
begin

text \<open>
  \<open>U64Segment\<close> (\<open>rust/lance-table/src/rowids/segment.rs\<close>): a sequence of distinct row
  ids in one of six encodings, with the choice of encoding, the readers, the scanning cursor and
  the updates. This theory holds the definitions; what they mean and that they are correct is in
  the theories that follow.
\<close>

datatype u64_segment =
    SegRange "u64 range"
  | SegRangeWithHoles "u64 range" encoded_u64_array
  | SegRangeWithBitmap "u64 range" bitmap
  | SegRanges "u64 range" hole_runs
  | SegSortedArray encoded_u64_array
  | SegArray encoded_u64_array

subsection \<open>Choosing an encoding\<close>

record segment_stats =
  st_min :: u64
  st_max :: u64
  st_count :: u64
  st_sorted :: bool

definition u128_byte_cost_to_usize :: "u128 \<Rightarrow> usize" where
  "u128_byte_cost_to_usize v = (if unat v < 2 ^ 64 then unat v else 2 ^ 64 - 1)"

definition n_holes :: "segment_stats \<Rightarrow> u128" where
  "n_holes stats =
     (if st_count stats = 0 then 0
      else let total_slots = ucast (st_max stats) - ucast (st_min stats) + 1
           in total_slots - ucast (st_count stats))"

fun holes_in :: "u64 list \<Rightarrow> u64 list \<Rightarrow> u64 list" where
  "holes_in [] existing = []"
| "holes_in (val # vals) existing =
     (case existing of
        existing_val # rest \<Rightarrow>
          if existing_val = val then holes_in vals rest else val # holes_in vals existing
      | [] \<Rightarrow> val # holes_in vals [])"

definition range_inclusive_vals :: "u64 \<Rightarrow> u64 \<Rightarrow> u64 list" where
  "range_inclusive_vals lo hi = map word_of_nat [unat lo..<Suc (unat hi)]"

definition holes_in_slice :: "u64 \<Rightarrow> u64 \<Rightarrow> u64 list \<Rightarrow> u64 list" where
  "holes_in_slice lo hi existing = holes_in (range_inclusive_vals lo hi) existing"

definition stats_step :: "u64 \<Rightarrow> segment_stats \<Rightarrow> segment_stats" where
  "stats_step val st =
     (let count = st_count st + 1;
          mn = (if val < st_min st then val else st_min st);
          mx = (if val > st_max st then val else st_max st);
          srt = (if st_sorted st \<and> count > 1 \<and> val < mx then False else st_sorted st)
      in \<lparr>st_min = mn, st_max = mx, st_count = count, st_sorted = srt\<rparr>)"

definition compute_stats :: "u64 list \<Rightarrow> segment_stats" where
  "compute_stats vals =
     (let st = fold stats_step vals \<lparr>st_min = - 1, st_max = 0, st_count = 0, st_sorted = True\<rparr>
      in if st_count st = 0 then st\<lparr>st_min := 0, st_max := 0\<rparr> else st)"

definition sorted_sequence_sizes :: "segment_stats \<Rightarrow> usize \<times> usize \<times> usize" where
  "sorted_sequence_sizes stats =
     (let holes = n_holes stats;
          total_slots = ucast (st_max stats) - ucast (st_min stats) + 1 :: u128;
          range_with_holes = saturating_add 24 (saturating_mul 4 holes);
          range_with_bitmap = saturating_add 24 (word_of_nat (div_ceil (unat total_slots) 8));
          sorted_array = saturating_add 24 (saturating_mul 2 (ucast (st_count stats)))
      in (u128_byte_cost_to_usize range_with_holes,
          u128_byte_cost_to_usize range_with_bitmap,
          u128_byte_cost_to_usize sorted_array))"

definition from_stats_and_sequence :: "segment_stats \<Rightarrow> u64 list \<Rightarrow> u64_segment res" where
  "from_stats_and_sequence stats sequence =
     (if st_sorted stats then
        let holes = n_holes stats; exclusive_end = checked_add (st_max stats) 1
        in if st_count stats = 0 then Inr (SegRange (0, 0))
           else (case exclusive_end of
               Some end \<Rightarrow>
                 if holes = 0 then Inr (SegRange (st_min stats, end))
                 else
                   let (size_holes, size_bitmap, size_sorted) = sorted_sequence_sizes stats;
                       min_size = min size_holes (min size_bitmap size_sorted)
                   in if min_size = size_holes then
                        Inr (SegRangeWithHoles (st_min stats, end)
                              (enc_from_vec (sort (holes_in_slice (st_min stats) (st_max stats) sequence))))
                      else if min_size = size_bitmap then
                        bindr (foldr_res (\<lambda>hole bm. bitmap_clear bm (unat (hole - st_min stats)))
                                 (holes_in_slice (st_min stats) (st_max stats) sequence)
                                 (bitmap_new_full (unat (st_max stats - st_min stats) + 1)))
                          (\<lambda>bm. Inr (SegRangeWithBitmap (st_min stats, end) bm))
                      else Inr (SegSortedArray (enc_from_vec sequence))
             | None \<Rightarrow> Inr (SegSortedArray (enc_from_vec sequence)))
      else Inr (SegArray (enc_from_vec sequence)))"

definition segment_from_slice :: "u64 list \<Rightarrow> u64_segment res" where
  "segment_from_slice vals = from_stats_and_sequence (compute_stats vals) vals"

definition segment_from_sorted_ranges :: "u64 range list \<Rightarrow> u64_segment option" where
  "segment_from_sorted_ranges ranges =
     (if length ranges < 2 then None
      else
        let base = fst (hd ranges); last_end = snd (last ranges)
        in if unat (last_end - base) < 2 ^ 32 then
             (case hole_runs_try_new (ucast (last_end - base))
                     (map (\<lambda>r. ucast (snd r - base)) (butlast ranges))
                     (map (\<lambda>r. ucast (fst r - base)) (tl ranges)) of
                Inr runs \<Rightarrow> Some (SegRanges (base, last_end) runs)
              | Inl _ \<Rightarrow> None)
           else None)"

subsection \<open>Reading\<close>

fun segment_iter :: "u64_segment \<Rightarrow> u64 list res" where
  "segment_iter (SegRange r) = Inr (range_vals r)"
| "segment_iter (SegRangeWithHoles r holes) =
     Inr (filter (\<lambda>val. isl (enc_binary_search holes val)) (range_vals r))"
| "segment_iter (SegRangeWithBitmap r bm) =
     filterr (\<lambda>val. bitmap_get bm (unat (val - fst r))) (range_vals r)"
| "segment_iter (SegRanges r runs) =
     bindr (hr_present_ranges runs)
       (\<lambda>ranges. Inr (concat (map (\<lambda>offsets. range_vals (fst r + ucast (fst offsets), fst r + ucast (snd offsets)))
                                  ranges)))"
| "segment_iter (SegSortedArray array) = Inr (enc_iter array)"
| "segment_iter (SegArray array) = Inr (enc_iter array)"

fun segment_len :: "u64_segment \<Rightarrow> usize res" where
  "segment_len (SegRange r) = Inr (unat (snd r - fst r))"
| "segment_len (SegRangeWithHoles r holes) = Inr (usize_sub (unat (snd r - fst r)) (enc_len holes))"
| "segment_len (SegRangeWithBitmap r bm) =
     Inr (usize_sub (unat (snd r - fst r)) (bitmap_count_zeros bm))"
| "segment_len (SegRanges r runs) = bindr (hr_present_len runs) (\<lambda>n. Inr (unat n))"
| "segment_len (SegSortedArray array) = Inr (enc_len array)"
| "segment_len (SegArray array) = Inr (enc_len array)"

fun use_dense_range_expansion :: "u64_segment \<Rightarrow> usize \<Rightarrow> bool" where
  "use_dense_range_expansion (SegRangeWithBitmap r bm) seg_len \<longleftrightarrow>
     seg_len \<ge> bm_len bm - bm_len bm div 4"
| "use_dense_range_expansion _ seg_len \<longleftrightarrow> False"

definition segment_is_empty :: "u64_segment \<Rightarrow> bool res" where
  "segment_is_empty seg = bindr (segment_len seg) (\<lambda>n. Inr (n = 0))"

definition range_inclusive_of :: "u64 range \<Rightarrow> (u64 \<times> u64) option" where
  "range_inclusive_of r = (if range_is_empty r then None else Some (fst r, snd r - 1))"

definition option_pair :: "u64 option \<Rightarrow> u64 option \<Rightarrow> (u64 \<times> u64) option" where
  "option_pair a b = (case (a, b) of (Some x, Some y) \<Rightarrow> Some (x, y) | _ \<Rightarrow> None)"

fun segment_range :: "u64_segment \<Rightarrow> (u64 \<times> u64) option" where
  "segment_range (SegRange r) = range_inclusive_of r"
| "segment_range (SegRangeWithBitmap r bm) = range_inclusive_of r"
| "segment_range (SegRanges r runs) = range_inclusive_of r"
| "segment_range (SegRangeWithHoles r holes) = range_inclusive_of r"
| "segment_range (SegSortedArray array) = option_pair (enc_first array) (enc_last array)"
| "segment_range (SegArray array) = option_pair (enc_min array) (enc_max array)"

definition segment_slice :: "u64_segment \<Rightarrow> usize \<Rightarrow> usize \<Rightarrow> u64_segment res" where
  "segment_slice seg offset len =
     (if len = 0 then Inr (SegRange (0, 0))
      else
        let general = bindr (segment_iter seg) (\<lambda>vals. segment_from_slice (take len (drop offset vals)))
        in case seg of
             SegRange r \<Rightarrow>
               if offset + len < 2 ^ 64 \<and> word_of_nat (offset + len) \<le> snd r - fst r
               then let start = fst r + word_of_nat offset in Inr (SegRange (start, start + word_of_nat len))
               else general
           | _ \<Rightarrow> general)"

definition find_position :: "('a \<Rightarrow> bool) \<Rightarrow> 'a list \<Rightarrow> usize option" where
  "find_position p xs = (let k = length (takeWhile (\<lambda>x. \<not> p x) xs) in if k < length xs then Some k else None)"

fun segment_position :: "u64_segment \<Rightarrow> u64 \<Rightarrow> usize option res" where
  "segment_position (SegRange r) val =
     Inr (if range_contains r val then Some (unat (val - fst r)) else None)"
| "segment_position (SegRangeWithHoles r holes) val =
     (if \<not> range_contains r val then Inr None
      else case enc_binary_search holes val of
             Inr _ \<Rightarrow> Inr None
           | Inl num_holes_before \<Rightarrow> Inr (Some (usize_sub (unat (val - fst r)) num_holes_before)))"
| "segment_position (SegRanges r runs) val =
     (if \<not> range_contains r val then Inr None
      else bindr (hr_position runs (ucast (val - fst r))) (\<lambda>p. Inr (map_option unat p)))"
| "segment_position (SegRangeWithBitmap r bm) val =
     (if range_contains r val then
        bindr (bitmap_get bm (unat (val - fst r)))
          (\<lambda>b. if b then
                 let offset = unat (val - fst r)
                 in bindr (slice_count_zeros (bitmap_slice bm 0 offset))
                      (\<lambda>num_zeros. Inr (Some (usize_sub offset num_zeros)))
               else Inr None)
      else Inr None)"
| "segment_position (SegSortedArray array) val =
     Inr (case enc_binary_search array val of Inr i \<Rightarrow> Some i | Inl _ \<Rightarrow> None)"
| "segment_position (SegArray array) val = Inr (find_position (\<lambda>v. v = val) (enc_iter array))"

fun segment_contains :: "u64_segment \<Rightarrow> u64 \<Rightarrow> bool res" where
  "segment_contains (SegRange r) val = Inr (range_contains r val)"
| "segment_contains (SegRangeWithHoles r holes) val =
     Inr (if \<not> range_contains r val then False else \<not> list_ex (\<lambda>hole. hole = val) (enc_iter holes))"
| "segment_contains (SegRangeWithBitmap r bm) val =
     (if \<not> range_contains r val then Inr False else bitmap_get bm (unat (val - fst r)))"
| "segment_contains (SegRanges r runs) val =
     (if range_contains r val
      then bindr (hr_position runs (ucast (val - fst r))) (\<lambda>p. Inr (p \<noteq> None))
      else Inr False)"
| "segment_contains (SegSortedArray array) val = Inr (\<not> isl (enc_binary_search array val))"
| "segment_contains (SegArray array) val = Inr (list_ex (\<lambda>v. v = val) (enc_iter array))"

subsection \<open>The scanning cursor\<close>

record cursor_state =
  cs_byte_idx :: usize
  cs_ones_before :: usize

definition cursor_default :: cursor_state where
  "cursor_default = \<lparr>cs_byte_idx = 0, cs_ones_before = 0\<rparr>"

function bitmap_get_loop :: "u64 \<Rightarrow> u8 list \<Rightarrow> cursor_state \<Rightarrow> usize \<Rightarrow> u64 option \<times> cursor_state" where
  "bitmap_get_loop range_start bytes st remaining =
     (if cs_byte_idx st < length bytes then
        let byte = bytes ! cs_byte_idx st; ones = popcount byte
        in if remaining < ones then
             let b = (clear_lowest ^^ remaining) byte
             in (Some (range_start + word_of_nat (cs_byte_idx st * 8 + trailing_zeros b)), st)
           else bitmap_get_loop range_start bytes
                  \<lparr>cs_byte_idx = cs_byte_idx st + 1, cs_ones_before = cs_ones_before st + ones\<rparr>
                  (remaining - ones)
      else (None, st))"
  by pat_completeness auto
termination
  by (relation "measure (\<lambda>(range_start, bytes, st, remaining). length bytes - cs_byte_idx st)") auto

declare bitmap_get_loop.simps [simp del]

definition cursor_rewind :: "usize \<Rightarrow> cursor_state \<Rightarrow> cursor_state" where
  "cursor_rewind i st = (if i < cs_ones_before st then cursor_default else st)"

function holes_rank_loop :: "encoded_u64_array \<Rightarrow> u64 \<Rightarrow> usize \<Rightarrow> usize \<Rightarrow> usize res" where
  "holes_rank_loop holes target lo hi =
     (if lo < hi then
        let mid = (lo + hi) div 2
        in bindr (unwrap (enc_get holes mid))
             (\<lambda>h. if saturating_sub h (word_of_nat mid) > target
                  then holes_rank_loop holes target lo mid
                  else holes_rank_loop holes target (mid + 1) hi)
      else Inr lo)"
  by pat_completeness auto
termination
  by (relation "measure (\<lambda>(holes, target, lo, hi). hi - lo)") auto

declare holes_rank_loop.simps [simp del]

fun segment_get :: "u64_segment \<Rightarrow> usize \<Rightarrow> u64 option res" where
  "segment_get (SegRange r) i =
     Inr (case checked_add (fst r) (word_of_nat i) of
            Some val \<Rightarrow> if val < snd r then Some val else None
          | None \<Rightarrow> None)"
| "segment_get (SegRangeWithHoles r holes) i =
     (let len = usize_sub (unat (snd r - fst r)) (enc_len holes)
      in if i \<ge> len then Inr None
         else bindr (holes_rank_loop holes (fst r + word_of_nat i) 0 (enc_len holes))
                (\<lambda>lo. Inr (Some (fst r + word_of_nat i + word_of_nat lo))))"
| "segment_get (SegRangeWithBitmap r bm) i =
     Inr (fst (bitmap_get_loop (fst r) (bm_data bm) cursor_default i))"
| "segment_get (SegRanges r runs) i =
     (if i < 2 ^ 32
      then bindr (hr_offset_at runs (word_of_nat i)) (\<lambda>p. Inr (map_option (\<lambda>offset. fst r + ucast offset) p))
      else Inr None)"
| "segment_get (SegSortedArray array) i = Inr (enc_get array i)"
| "segment_get (SegArray array) i = Inr (enc_get array i)"

definition cursor_get :: "u64_segment \<Rightarrow> cursor_state \<Rightarrow> usize \<Rightarrow> (u64 option \<times> cursor_state) res" where
  "cursor_get seg st i =
     (case seg of
        SegRangeWithBitmap r bm \<Rightarrow>
          let st = cursor_rewind i st
          in Inr (bitmap_get_loop (fst r) (bm_data bm) st (i - cs_ones_before st))
      | _ \<Rightarrow> bindr (segment_get seg i) (\<lambda>v. Inr (v, st)))"

text \<open>The bit loop of one byte: the values whose rank is selected, and whether the scan stopped at
  the end of the selection.\<close>

function byte_loop :: "u64 \<Rightarrow> usize \<Rightarrow> usize range \<Rightarrow> u8 \<Rightarrow> usize \<Rightarrow> u64 list \<Rightarrow> bool \<times> u64 list" where
  "byte_loop range_start byte_idx selection remaining_bits rank vals =
     (if remaining_bits \<noteq> 0 then
        if rank \<ge> snd selection then (True, vals)
        else
          let b = trailing_zeros remaining_bits;
              vals' = (if rank \<ge> fst selection then vals @ [range_start + word_of_nat (byte_idx * 8 + b)] else vals)
          in byte_loop range_start byte_idx selection (clear_lowest remaining_bits) (rank + 1) vals'
      else (False, vals))"
  by pat_completeness auto

termination
  by (relation "measure (\<lambda>(range_start, byte_idx, selection, remaining_bits, rank, vals). popcount remaining_bits)")
    (simp_all add: popcount_clear_lowest)

declare byte_loop.simps [simp del]

function bitmap_extend_loop ::
  "u64 \<Rightarrow> u8 list \<Rightarrow> usize range \<Rightarrow> cursor_state \<Rightarrow> u64 list \<Rightarrow> cursor_state \<times> u64 list" where
  "bitmap_extend_loop range_start bytes selection st vals =
     (if cs_byte_idx st < length bytes then
        let byte = bytes ! cs_byte_idx st;
            ones_after_byte = cs_ones_before st + popcount byte;
            next_st = \<lparr>cs_byte_idx = cs_byte_idx st + 1, cs_ones_before = ones_after_byte\<rparr>
        in if fst selection \<ge> ones_after_byte then bitmap_extend_loop range_start bytes selection next_st vals
           else
             let (stopped, vals') = byte_loop range_start (cs_byte_idx st) selection byte (cs_ones_before st) vals
             in if stopped then (st, vals')
                else if ones_after_byte \<ge> snd selection then (next_st, vals')
                else bitmap_extend_loop range_start bytes selection next_st vals'
      else (st, vals))"
  by pat_completeness auto
termination
  by (relation "measure (\<lambda>(range_start, bytes, selection, st, vals). length bytes - cs_byte_idx st)") auto

declare bitmap_extend_loop.simps [simp del]

definition clamp_u32 :: "usize \<Rightarrow> u32" where
  "clamp_u32 position = word_of_nat (min position (unat (- 1 :: u32)))"

definition filter_map_res :: "('a \<Rightarrow> 'b option res) \<Rightarrow> 'a list \<Rightarrow> 'b list res" where
  "filter_map_res f xs = bindr (mapr f xs) (\<lambda>ys. Inr (List.map_filter (\<lambda>y. y) ys))"

definition cursor_extend_range ::
  "u64_segment \<Rightarrow> cursor_state \<Rightarrow> usize range \<Rightarrow> u64 list \<Rightarrow> (cursor_state \<times> u64 list) res" where
  "cursor_extend_range seg st selection vals =
     (case seg of
        SegRangeWithBitmap r bm \<Rightarrow>
          Inr (bitmap_extend_loop (fst r) (bm_data bm) selection (cursor_rewind (fst selection) st) vals)
      | SegRange r \<Rightarrow>
          let end = min (snd selection) (unat (snd r - fst r))
          in Inr (st, if fst selection < end
                      then vals @ range_vals (fst r + word_of_nat (fst selection), fst r + word_of_nat end)
                      else vals)
      | SegRanges r runs \<Rightarrow>
          bindr (hr_extend_values runs (fst r) (clamp_u32 (fst selection), clamp_u32 (snd selection)) vals)
            (\<lambda>vals'. Inr (st, vals'))
      | _ \<Rightarrow> bindr (filter_map_res (segment_get seg) [fst selection..<snd selection])
               (\<lambda>more. Inr (st, vals @ more)))"

text \<open>The bytes that are taken whole are expanded run by run.\<close>

function byte_runs_loop :: "u64 \<Rightarrow> u8 \<Rightarrow> u64 \<Rightarrow> u64 list \<Rightarrow> u64 list" where
  "byte_runs_loop byte_start remaining_bits bit_offset vals =
     (if remaining_bits \<noteq> 0 then
        let zeros = trailing_zeros remaining_bits;
            remaining1 = drop_bit zeros remaining_bits;
            offset1 = bit_offset + word_of_nat zeros;
            run = trailing_ones remaining1
        in byte_runs_loop byte_start (drop_bit run remaining1) (offset1 + word_of_nat run)
             (vals @ range_vals (byte_start + offset1, byte_start + offset1 + word_of_nat run))
      else vals)"
  by pat_completeness auto

termination
  by (relation "measure (\<lambda>(byte_start, remaining_bits, bit_offset, vals). unat remaining_bits)")
    (simp_all only: in_measure prod.case wf_measure drop_run_less not_False_eq_True)

declare byte_runs_loop.simps [simp del]

function dense_extend_loop ::
  "u64 \<Rightarrow> u8 list \<Rightarrow> usize range \<Rightarrow> cursor_state \<Rightarrow> u64 list \<Rightarrow> cursor_state \<times> u64 list" where
  "dense_extend_loop range_start bytes selection st vals =
     (if cs_byte_idx st < length bytes then
        let byte = bytes ! cs_byte_idx st; ones = popcount byte;
            ones_after_byte = cs_ones_before st + ones;
            next_st = \<lparr>cs_byte_idx = cs_byte_idx st + 1, cs_ones_before = ones_after_byte\<rparr>
        in if fst selection \<ge> ones_after_byte then dense_extend_loop range_start bytes selection next_st vals
           else if (fst selection \<le> cs_ones_before st \<and> snd selection \<ge> ones_after_byte) \<and> ones \<ge> 6 then
             let byte_start = range_start + word_of_nat (cs_byte_idx st * 8);
                 vals' = (if byte = - 1 then vals @ range_vals (byte_start, byte_start + 8)
                          else byte_runs_loop byte_start byte 0 vals)
             in if ones_after_byte \<ge> snd selection then (next_st, vals')
                else dense_extend_loop range_start bytes selection next_st vals'
           else
             let (stopped, vals') = byte_loop range_start (cs_byte_idx st) selection byte (cs_ones_before st) vals
             in if stopped then (st, vals')
                else if ones_after_byte \<ge> snd selection then (next_st, vals')
                else dense_extend_loop range_start bytes selection next_st vals'
      else (st, vals))"
  by pat_completeness auto
termination
  by (relation "measure (\<lambda>(range_start, bytes, selection, st, vals). length bytes - cs_byte_idx st)") auto

declare dense_extend_loop.simps [simp del]

definition cursor_extend_dense_range ::
  "u64_segment \<Rightarrow> cursor_state \<Rightarrow> usize range \<Rightarrow> u64 list \<Rightarrow> (cursor_state \<times> u64 list) res" where
  "cursor_extend_dense_range seg st selection vals =
     (case seg of
        SegRangeWithBitmap r bm \<Rightarrow>
          Inr (dense_extend_loop (fst r) (bm_data bm) selection (cursor_rewind (fst selection) st) vals)
      | _ \<Rightarrow> cursor_extend_range seg st selection vals)"

subsection \<open>Updates\<close>

fun enc_push_high :: "encoded_u64_array \<Rightarrow> u64 \<Rightarrow> encoded_u64_array" where
  "enc_push_high (EncU64 vec) val = EncU64 (vec @ [val])"
| "enc_push_high (EncU16 base offsets) val =
     (let rebuilt = enc_from_vec (map (\<lambda>off. base + ucast off) offsets @ [val])
      in case checked_sub val base of
           Some offset \<Rightarrow>
             if offset \<le> ucast (- 1 :: u16) then EncU16 base (offsets @ [ucast offset])
             else if offset \<le> ucast (- 1 :: u32) then EncU32 base (map ucast offsets @ [ucast offset])
             else rebuilt
         | None \<Rightarrow> rebuilt)"
| "enc_push_high (EncU32 base offsets) val =
     (let rebuilt = enc_from_vec (map (\<lambda>off. base + ucast off) offsets @ [val])
      in case checked_sub val base of
           Some offset \<Rightarrow>
             if offset \<le> ucast (- 1 :: u32) then EncU32 base (offsets @ [ucast offset]) else rebuilt
         | None \<Rightarrow> rebuilt)"

fun push_high :: "u64_segment \<Rightarrow> u64 \<Rightarrow> u64_segment res" where
  "push_high (SegRange r) val =
     Inr (if fst r = snd r then SegRange (val, val + 1)
          else if val = snd r then SegRange (fst r, val + 1)
          else SegRangeWithHoles (fst r, val + 1) (EncU64 (range_vals (snd r, val))))"
| "push_high (SegRangeWithHoles r holes) val =
     Inr (if val = snd r then SegRangeWithHoles (fst r, val + 1) holes
          else SegRangeWithHoles (fst r, val + 1) (EncU64 (enc_iter holes @ range_vals (snd r, val))))"
| "push_high (SegRangeWithBitmap r bm) val =
     bindr (bitmap_from_bools (bitmap_iter bm @ replicate (unat (val - snd r)) False @ [True]))
       (\<lambda>bm'. Inr (SegRangeWithBitmap (fst r, val + 1) bm'))"
| "push_high (SegRanges r runs) val =
     bindr (segment_iter (SegRanges r runs)) (\<lambda>vals. segment_from_slice (vals @ [val]))"
| "push_high (SegSortedArray array) val = Inr (SegSortedArray (enc_push_high array val))"
| "push_high (SegArray array) val = Inr (SegArray (enc_push_high array val))"

definition with_new_high :: "u64_segment \<Rightarrow> u64 \<Rightarrow> u64_segment res" where
  "with_new_high seg val =
     (if (case segment_range seg of Some (lo, hi) \<Rightarrow> val \<le> hi | None \<Rightarrow> False) then Inl InvalidInput
      else push_high seg val)"

fun drop_matching :: "u64 list \<Rightarrow> u64 list \<Rightarrow> u64 list" where
  "drop_matching [] vals = []"
| "drop_matching (val # seq) vals =
     (case vals of
        next_val # rest \<Rightarrow> if next_val = val then drop_matching seq rest else val # drop_matching seq vals
      | [] \<Rightarrow> val # drop_matching seq [])"

definition segment_delete :: "u64_segment \<Rightarrow> u64 list \<Rightarrow> u64_segment res" where
  "segment_delete seg vals =
     bindr (segment_iter seg)
       (\<lambda>seq. let kept = drop_matching seq vals in from_stats_and_sequence (compute_stats kept) kept)"

definition cycle_nth :: "'a list \<Rightarrow> nat \<Rightarrow> 'a" where
  "cycle_nth xs i = xs ! (i mod length xs)"

definition first_unmasked :: "usize \<Rightarrow> u32 list \<Rightarrow> usize option" where
  "first_unmasked len positions = find (\<lambda>i. cycle_nth positions i \<noteq> word_of_nat i) [0..<len]"

definition last_unmasked :: "usize \<Rightarrow> u32 list \<Rightarrow> usize option" where
  "last_unmasked len positions =
     map_option (\<lambda>j. len - 1 - j)
       (find (\<lambda>j. cycle_nth (rev positions) j \<noteq> word_of_nat (len - 1 - j)) [0..<len])"

fun drop_positions :: "usize \<Rightarrow> u64 list \<Rightarrow> u32 list \<Rightarrow> u64 list" where
  "drop_positions i [] positions = []"
| "drop_positions i (val # seq) positions =
     (case positions of
        next_pos # rest \<Rightarrow>
          if next_pos = word_of_nat i then drop_positions (i + 1) seq rest
          else val # drop_positions (i + 1) seq positions
      | [] \<Rightarrow> val # drop_positions (i + 1) seq [])"

fun segment_sorted_kind :: "u64_segment \<Rightarrow> bool" where
  "segment_sorted_kind (SegArray array) \<longleftrightarrow> False"
| "segment_sorted_kind _ \<longleftrightarrow> True"

definition segment_mask :: "u64_segment \<Rightarrow> u32 list \<Rightarrow> u64_segment res" where
  "segment_mask seg positions =
     (if positions = [] then Inr seg
      else bindr (segment_len seg)
        (\<lambda>len. if length positions = len then Inr (SegRange (0, 0))
           else bindr (unwrap (first_unmasked len positions))
             (\<lambda>fu. bindr (bindr (segment_get seg fu) unwrap)
               (\<lambda>mn. bindr (unwrap (last_unmasked len positions))
                 (\<lambda>lu. bindr (bindr (segment_get seg lu) unwrap)
                   (\<lambda>mx. bindr (segment_iter seg)
                     (\<lambda>vals. from_stats_and_sequence
                         \<lparr>st_min = mn, st_max = mx, st_count = word_of_nat (usize_sub len (length positions)),
                          st_sorted = segment_sorted_kind seg\<rparr>
                         (drop_positions 0 vals positions))))))))"

subsection \<open>Maximal runs\<close>

fun take_run :: "u64 \<Rightarrow> u64 list \<Rightarrow> u64 \<times> u64 list" where
  "take_run end [] = (end, [])"
| "take_run end (v # vs) = (if v = end then take_run (end + 1) vs else (end, v # vs))"

lemma take_run_length: "length (snd (take_run e vs)) \<le> length vs"
  by (induction e vs rule: take_run.induct) (auto intro: le_SucI)

function value_runs :: "u64 list \<Rightarrow> u64 range list" where
  "value_runs [] = []"
| "value_runs (start # vs) =
     (let (end, rest) = take_run (saturating_add start 1) vs in (start, end) # value_runs rest)"
  by pat_completeness auto
termination
  by (relation "measure length") (auto, metis le_imp_less_Suc snd_conv take_run_length)

definition sorted_runs :: "u64 \<Rightarrow> 'a::len word list \<Rightarrow> u64 range list" where
  "sorted_runs base offsets = value_runs (map (\<lambda>off. base + ucast off) offsets)"

fun hole_bounds_runs :: "u64 \<Rightarrow> u64 list \<Rightarrow> u64 range list" where
  "hole_bounds_runs start [] = []"
| "hole_bounds_runs start (bound # bounds) =
     (if range_is_empty (start, bound) then hole_bounds_runs (saturating_add bound 1) bounds
      else (start, bound) # hole_bounds_runs (saturating_add bound 1) bounds)"

definition bitmap_word :: "u8 list \<Rightarrow> usize \<Rightarrow> u64 res" where
  "bitmap_word bytes i =
     (let start = i * 8
      in if start \<le> length bytes then
           Inr (from_le_bytes (if start + 8 \<le> length bytes then take 8 (drop start bytes)
                               else drop start bytes @ replicate (8 - (length bytes - start)) 0))
         else Inl Panic)"

function next_edge :: "usize \<Rightarrow> u8 list \<Rightarrow> (u64 \<Rightarrow> u64) \<Rightarrow> usize \<Rightarrow> usize res" where
  "next_edge len bytes wanted b =
     (if b < len then
        bindr (bitmap_word bytes (b div 64))
          (\<lambda>w. let rest = drop_bit (b mod 64) (wanted w)
               in if rest = 0 then next_edge len bytes wanted ((b div 64 + 1) * 64)
                  else Inr (min (b + trailing_zeros rest) len))
      else Inr len)"
  by pat_completeness auto
termination
proof (relation "measure (\<lambda>(len, bytes, wanted, b). len - b)", goal_cases)
  case (2 len bytes wanted b)
  have "b < (b div 64 + 1) * 64" by (metis add.commute dividend_less_times_div mult.commute mult_Suc_right
        plus_1_eq_Suc zero_less_numeral)
  with 2 show ?case by simp
qed simp

declare next_edge.simps [simp del]

text \<open>Every run consumes at least one bit, so one step per bit is enough.\<close>

fun bitmap_runs_loop :: "nat \<Rightarrow> u64 \<Rightarrow> usize \<Rightarrow> u8 list \<Rightarrow> usize \<Rightarrow> u64 range list res" where
  "bitmap_runs_loop 0 base len bytes b = Inr []"
| "bitmap_runs_loop (Suc fuel) base len bytes b =
     bindr (next_edge len bytes (\<lambda>w. w) b)
       (\<lambda>start. if start \<ge> len then Inr []
          else bindr (next_edge len bytes (\<lambda>w. NOT w) start)
            (\<lambda>b'. bindr (bitmap_runs_loop fuel base len bytes b')
              (\<lambda>rs. Inr ((base + word_of_nat start, base + word_of_nat b') # rs))))"

definition bitmap_runs :: "u64 \<Rightarrow> bitmap \<Rightarrow> u64 range list res" where
  "bitmap_runs base bm = bitmap_runs_loop (Suc (bm_len bm)) base (bm_len bm) (bm_data bm) 0"

fun segment_runs :: "u64_segment \<Rightarrow> u64 range list res" where
  "segment_runs (SegRange r) = Inr [r]"
| "segment_runs (SegRanges r runs) =
     bindr (hr_present_ranges runs)
       (\<lambda>ranges. Inr (map (\<lambda>run. (fst r + ucast (fst run), fst r + ucast (snd run))) ranges))"
| "segment_runs (SegRangeWithHoles r holes) =
     Inr (hole_bounds_runs (fst r) (enc_iter holes @ [snd r]))"
| "segment_runs (SegRangeWithBitmap r bm) = bitmap_runs (fst r) bm"
| "segment_runs (SegSortedArray (EncU16 base offsets)) = Inr (sorted_runs base offsets)"
| "segment_runs (SegSortedArray (EncU32 base offsets)) = Inr (sorted_runs base offsets)"
| "segment_runs (SegSortedArray (EncU64 vals)) = Inr (sorted_runs 0 vals)"
| "segment_runs (SegArray array) = Inr (value_runs (enc_iter array))"

end
