(* ===== verification/Segment_Values.thy ===== *)
theory Segment_Values
  imports Segment
begin

text \<open>
  The meaning of a segment is the list of its row ids, \<open>segment_vals\<close>, and its invariant is
  \<open>segment_wf\<close>. The readers that need no scan state - iteration, length, membership, position
  and bounds - are shown to be the list operations on that meaning.
\<close>

definition bitmap_present :: "bitmap \<Rightarrow> nat list" where
  "bitmap_present bm = filter (\<lambda>i. bitmap_bits bm ! i) [0..<bm_len bm]"

definition offset_vals :: "u64 \<Rightarrow> nat list \<Rightarrow> u64 list" where
  "offset_vals base offs = map (\<lambda>off. base + word_of_nat off) offs"

fun segment_vals :: "u64_segment \<Rightarrow> u64 list" where
  "segment_vals (SegRange r) = range_vals r"
| "segment_vals (SegRangeWithHoles r holes) = filter (\<lambda>v. v \<notin> set (enc_iter holes)) (range_vals r)"
| "segment_vals (SegRangeWithBitmap r bm) = offset_vals (fst r) (bitmap_present bm)"
| "segment_vals (SegRanges r runs) = offset_vals (fst r) (hr_present runs)"
| "segment_vals (SegSortedArray array) = enc_iter array"
| "segment_vals (SegArray array) = enc_iter array"

definition range_span :: "u64 range \<Rightarrow> nat" where
  "range_span r = unat (snd r) - unat (fst r)"

fun segment_wf :: "u64_segment \<Rightarrow> bool" where
  "segment_wf (SegRange r) \<longleftrightarrow> fst r \<le> snd r"
| "segment_wf (SegRangeWithHoles r holes) \<longleftrightarrow>
     fst r \<le> snd r \<and> enc_wf holes \<and> sorted_wrt (<) (enc_iter holes) \<and>
     list_all (\<lambda>h. fst r \<le> h \<and> h < snd r) (enc_iter holes)"
| "segment_wf (SegRangeWithBitmap r bm) \<longleftrightarrow>
     fst r \<le> snd r \<and> bitmap_wf bm \<and> bm_len bm = range_span r"
| "segment_wf (SegRanges r runs) \<longleftrightarrow>
     fst r \<le> snd r \<and> hr_wf runs \<and> unat (hr_span runs) = range_span r"
| "segment_wf (SegSortedArray array) \<longleftrightarrow> enc_wf array \<and> sorted_wrt (<) (enc_iter array)"
| "segment_wf (SegArray array) \<longleftrightarrow> enc_wf array \<and> distinct (enc_iter array)"

lemma list_all_set: "list_all p xs \<longleftrightarrow> (\<forall>x \<in> set xs. p x)"
  by (simp add: list_all_iff)

subsection \<open>Offsets into a range\<close>

lemma unat_diff_word: "(a :: 'a::len word) \<le> v \<Longrightarrow> unat (v - a) = unat v - unat a"
  by (simp add: unat_sub word_le_nat_alt)

lemma range_span_bound: "fst r \<le> snd r \<Longrightarrow> unat (fst r) + range_span r = unat (snd r) \<and> unat (fst r) + range_span r < 2 ^ 64"
  using unsigned_less[of "snd r", where ?'a = nat] by (simp add: range_span_def word_le_nat_alt)

lemma unat_offset_val:
  "fst r \<le> snd r \<Longrightarrow> off \<le> range_span r \<Longrightarrow> unat (fst r + word_of_nat off :: u64) = unat (fst r) + off"
  using range_span_bound[of r] by (intro unat_add_of_nat) simp

lemma range_vals_offsets: "fst r \<le> snd r \<Longrightarrow> range_vals r = offset_vals (fst r) [0..<range_span r]"
  by (rule nth_equalityI) (simp_all add: offset_vals_def range_span_def nth_range_vals)

lemma set_offset_vals:
  assumes "fst r \<le> snd r" "\<And>x. x \<in> set offs \<Longrightarrow> x < range_span r"
  shows "v \<in> set (offset_vals (fst r) offs) \<longleftrightarrow> fst r \<le> v \<and> v < snd r \<and> unat v - unat (fst r) \<in> set offs"
proof
  assume "v \<in> set (offset_vals (fst r) offs)"
  then obtain x where x: "x \<in> set offs" "v = fst r + word_of_nat x" by (auto simp: offset_vals_def)
  then have "unat v = unat (fst r) + x" using unat_offset_val[of r x] assms by (simp add: less_imp_le)
  with x assms(2)[OF x(1)] range_span_bound[OF assms(1)]
  show "fst r \<le> v \<and> v < snd r \<and> unat v - unat (fst r) \<in> set offs"
    by (simp add: word_le_nat_alt word_less_nat_alt)
next
  assume v: "fst r \<le> v \<and> v < snd r \<and> unat v - unat (fst r) \<in> set offs"
  then have "v = fst r + word_of_nat (unat v - unat (fst r))"
    by (simp add: word_le_nat_alt of_nat_diff)
  with v show "v \<in> set (offset_vals (fst r) offs)" by (auto simp: offset_vals_def)
qed

lemma sorted_offset_vals:
  assumes "fst r \<le> snd r" "\<And>x. x \<in> set offs \<Longrightarrow> x < range_span r" "sorted_wrt (<) offs"
  shows "sorted_wrt (<) (offset_vals (fst r) offs)"
  using assms(3) unfolding offset_vals_def sorted_wrt_map
proof (rule sorted_wrt_mono_rel[rotated])
  fix x y assume "x \<in> set offs" "y \<in> set offs" "x < y"
  then show "fst r + word_of_nat x < fst r + word_of_nat y"
    using assms unat_offset_val[of r x] unat_offset_val[of r y] by (simp add: word_less_nat_alt less_imp_le)
qed

lemma bitmap_present_less: "x \<in> set (bitmap_present bm) \<Longrightarrow> x < bm_len bm"
  by (simp add: bitmap_present_def)

lemma sorted_bitmap_present: "sorted_wrt (<) (bitmap_present bm)"
  unfolding bitmap_present_def by (rule sorted_wrt_filter) simp

lemma segment_offs_bound:
  "segment_wf (SegRanges r runs) \<Longrightarrow> x \<in> set (hr_present runs) \<Longrightarrow> x < range_span r"
  "segment_wf (SegRangeWithBitmap r bm) \<Longrightarrow> x \<in> set (bitmap_present bm) \<Longrightarrow> x < range_span r"
  using hr_present_less_span[of runs x] bitmap_present_less[of x bm] by auto

subsection \<open>Shape of the values\<close>

lemma segment_vals_sorted:
  assumes "segment_wf seg" "segment_sorted_kind seg"
  shows "sorted_wrt (<) (segment_vals seg)"
proof (cases seg)
  case (SegRangeWithBitmap r bm)
  with assms show ?thesis
    using sorted_offset_vals[of r "bitmap_present bm"] segment_offs_bound(2)[of r bm] sorted_bitmap_present by simp
next
  case (SegRanges r runs)
  with assms show ?thesis
    using sorted_offset_vals[of r "hr_present runs"] segment_offs_bound(1)[of r runs] hr_present_sorted by simp
qed (use assms in \<open>simp_all add: sorted_wrt_filter\<close>)

lemma segment_vals_distinct: assumes "segment_wf seg" shows "distinct (segment_vals seg)"
proof (cases "segment_sorted_kind seg")
  case True
  then show ?thesis using segment_vals_sorted[OF assms] strict_sorted_distinct by blast
next
  case False
  then show ?thesis using assms by (cases seg) simp_all
qed

fun segment_bounds :: "u64_segment \<Rightarrow> u64 range option" where
  "segment_bounds (SegRange r) = Some r"
| "segment_bounds (SegRangeWithHoles r _) = Some r"
| "segment_bounds (SegRangeWithBitmap r _) = Some r"
| "segment_bounds (SegRanges r _) = Some r"
| "segment_bounds _ = None"

lemma segment_vals_in_bounds:
  assumes "segment_wf seg" "segment_bounds seg = Some r" "v \<in> set (segment_vals seg)"
  shows "fst r \<le> v \<and> v < snd r"
proof (cases seg)
  case (SegRangeWithBitmap r' bm)
  with assms show ?thesis using set_offset_vals[of r "bitmap_present bm" v] segment_offs_bound(2)[of r bm] by simp
next
  case (SegRanges r' runs)
  with assms show ?thesis using set_offset_vals[of r "hr_present runs" v] segment_offs_bound(1)[of r runs] by simp
qed (use assms in auto)

subsection \<open>Iteration and length\<close>

lemma filter_offset_vals: "filter p (offset_vals base offs) = offset_vals base (filter (\<lambda>off. p (base + word_of_nat off)) offs)"
  by (simp add: offset_vals_def filter_map o_def)

lemma bitmap_filter_vals:
  assumes "segment_wf (SegRangeWithBitmap r bm)"
  shows "filter (\<lambda>v. bitmap_bits bm ! unat (v - fst r)) (range_vals r) = offset_vals (fst r) (bitmap_present bm)"
proof -
  have "unat (fst r + word_of_nat off - fst r) = off" if "off < range_span r" for off
    using that assms range_span_bound[of r] by (simp add: unat_of_nat)
  then have "filter (\<lambda>off. bitmap_bits bm ! unat (fst r + word_of_nat off - fst r)) [0..<range_span r] = bitmap_present bm"
    using assms unfolding bitmap_present_def by (intro filter_cong) simp_all
  then show ?thesis using assms by (simp add: range_vals_offsets filter_offset_vals)
qed

lemma isl_binary_search:
  "enc_wf holes \<Longrightarrow> sorted_wrt (<) (enc_iter holes) \<Longrightarrow> isl (enc_binary_search holes v) \<longleftrightarrow> v \<notin> set (enc_iter holes)"
  by (simp add: enc_binary_search_eq binary_search_is_Inr strict_sorted_sorted)

lemma hr_present_range_vals:
  assumes "segment_wf (SegRanges r runs)" "hr_present_ranges runs = Inr ranges"
  shows "concat (map (\<lambda>offs. range_vals (fst r + ucast (fst offs), fst r + ucast (snd offs))) ranges) =
    offset_vals (fst r) (hr_present runs)"
proof -
  have wf: "hr_wf runs" "fst r \<le> snd r" "unat (hr_span runs) = range_span r" using assms(1) by auto
  have ok: "\<forall>q \<in> set ranges. fst q < snd q" "concat (map (map unat \<circ> range_vals) ranges) = hr_present runs"
    using hr_present_ranges_eq[OF wf(1)] assms(2) by auto
  have "range_vals (fst r + ucast (fst q), fst r + ucast (snd q)) = offset_vals (fst r) (map unat (range_vals q))"
    if q: "q \<in> set ranges" for q
  proof -
    have lt: "unat (fst q) < unat (snd q)" using ok(1) q by (simp add: word_less_nat_alt)
    have "unat (snd q) - 1 \<in> set (map unat (range_vals q))" using lt by (simp add: map_unat_range_vals del: set_map)
    then have "unat (snd q) - 1 \<in> set (hr_present runs)" using q unfolding ok(2)[symmetric] by auto
    then have "unat (snd q) \<le> range_span r" using hr_present_less_span[OF wf(1)] wf(3) lt by fastforce
    then have "unat (fst r) + unat (fst q) + (unat (snd q) - unat (fst q)) < 2 ^ LENGTH(64)"
      using range_span_bound[OF wf(2)] lt by simp
    from range_vals_offset[OF this] show ?thesis using lt
      by (simp add: offset_vals_def map_unat_range_vals add.assoc flip: of_nat_add)
  qed
  then have "map (\<lambda>offs. range_vals (fst r + ucast (fst offs), fst r + ucast (snd offs))) ranges =
      map (offset_vals (fst r) \<circ> (map unat \<circ> range_vals)) ranges" by (intro map_cong) simp_all
  then have "concat (map (\<lambda>offs. range_vals (fst r + ucast (fst offs), fst r + ucast (snd offs))) ranges) =
      concat (map (offset_vals (fst r) \<circ> (map unat \<circ> range_vals)) ranges)" by (rule arg_cong[where f = concat])
  also have "\<dots> = offset_vals (fst r) (hr_present runs)"
    unfolding ok(2)[symmetric] by (simp add: offset_vals_def map_concat o_def)
  finally show ?thesis .
qed

lemma segment_iter_eq: assumes "segment_wf seg" shows "segment_iter seg = Inr (segment_vals seg)"
proof (cases seg)
  case (SegRangeWithHoles r holes)
  with assms show ?thesis by (simp add: isl_binary_search)
next
  case (SegRangeWithBitmap r bm)
  have "bitmap_get bm (unat (v - fst r)) = Inr (bitmap_bits bm ! unat (v - fst r))" if "v \<in> set (range_vals r)" for v
  proof (rule bitmap_get_eq)
    have v: "fst r \<le> v" "v < snd r" using that by simp_all
    then show "unat (v - fst r) < bm_len bm"
      using assms SegRangeWithBitmap by (simp add: range_span_def unat_diff_word word_less_nat_alt word_le_nat_alt)
  qed (use assms SegRangeWithBitmap in simp)
  then have "filterr (\<lambda>v. bitmap_get bm (unat (v - fst r))) (range_vals r) =
      Inr (filter (\<lambda>v. bitmap_bits bm ! unat (v - fst r)) (range_vals r))" by (rule filterr_Inr)
  then show ?thesis using SegRangeWithBitmap assms bitmap_filter_vals[of r bm] by simp
next
  case (SegRanges r runs)
  with assms obtain ranges where "hr_present_ranges runs = Inr ranges" using hr_present_ranges_eq[of runs] by auto
  with SegRanges assms hr_present_range_vals[of r runs ranges] show ?thesis by simp
qed (use assms in simp_all)

lemma range_vals_prefix:
  "a \<le> v \<Longrightarrow> v \<le> b \<Longrightarrow> filter (\<lambda>x. x < v) (range_vals (a, b)) = range_vals (a, v)"
proof -
  assume "a \<le> v" "v \<le> b"
  then have "range_vals (a, b) = range_vals (a, v) @ range_vals (v, b)" by (simp add: range_vals_append)
  then show ?thesis by (auto simp: filter_id_conv filter_empty_conv)
qed

text \<open>Removing a sorted list of holes from a range.\<close>

lemma length_filter_holes:
  fixes a v :: u64
  assumes "sorted_wrt (<) hs" "a \<le> v" "\<And>h. h \<in> set hs \<Longrightarrow> a \<le> h"
  shows "length (filter (\<lambda>x. x \<notin> set hs) (range_vals (a, v))) + length (filter (\<lambda>h. h < v) hs) = unat v - unat a"
proof -
  have "set (filter (\<lambda>x. x \<in> set hs) (range_vals (a, v))) = set (filter (\<lambda>h. h < v) hs)"
    using assms by auto
  moreover have "distinct (filter (\<lambda>h. h < v) hs)" using strict_sorted_distinct[OF assms(1)] by simp
  ultimately have "length (filter (\<lambda>x. x \<in> set hs) (range_vals (a, v))) = length (filter (\<lambda>h. h < v) hs)"
    by (metis distinct_card distinct_filter distinct_range_vals)
  then show ?thesis using sum_length_filter_compl[of "\<lambda>x. x \<in> set hs" "range_vals (a, v)"] by simp
qed

lemma length_bitmap_present: "length (bitmap_present bm) = count_list (bitmap_bits bm) True" if "bitmap_wf bm"
proof -
  have "map (\<lambda>i. bitmap_bits bm ! i) [0..<bm_len bm] = bitmap_bits bm"
    using that by (intro nth_equalityI) simp_all
  then have "filter (\<lambda>b. b) (bitmap_bits bm) = map (\<lambda>i. bitmap_bits bm ! i) (bitmap_present bm)"
    unfolding bitmap_present_def by (metis (no_types, lifting) comp_apply filter_cong filter_map)
  then show ?thesis by (simp add: count_list_True)
qed

lemma segment_len_eq: assumes "segment_wf seg" shows "segment_len seg = Inr (length (segment_vals seg))"
proof (cases seg)
  case (SegRangeWithHoles r holes)
  have "filter (\<lambda>h. h < snd r) (enc_iter holes) = enc_iter holes"
    using assms SegRangeWithHoles by (auto simp: filter_id_conv list_all_set)
  then have "length (segment_vals seg) + length (enc_iter holes) = unat (snd r) - unat (fst r)"
    using length_filter_holes[of "enc_iter holes" "fst r" "snd r"] assms SegRangeWithHoles by (simp add: list_all_set)
  then show ?thesis using assms SegRangeWithHoles by (simp add: unat_diff_word)
next
  case (SegRangeWithBitmap r bm)
  have "bm_len bm = unat (snd r - fst r)" using assms SegRangeWithBitmap by (simp add: unat_diff_word range_span_def)
  moreover have "bitmap_count_zeros bm + length (bitmap_present bm) = bm_len bm"
    using assms SegRangeWithBitmap count_list_bool[of "bitmap_bits bm"]
    by (simp add: bitmap_count_zeros_eq length_bitmap_present)
  ultimately show ?thesis using SegRangeWithBitmap by (simp add: offset_vals_def)
next
  case (SegRanges r runs)
  have "length (hr_present runs) < 2 ^ 32"
    using assms SegRanges hr_present_len_eq(2)[of runs] unsigned_less[of "hr_span runs", where ?'a = nat] by simp
  then show ?thesis using assms SegRanges hr_present_len_eq(1)[of runs] by (simp add: offset_vals_def unat_of_nat)
qed (use assms in \<open>simp_all add: unat_diff_word\<close>)

subsection \<open>Membership and position\<close>

lemma find_position_sorted:
  fixes xs :: "'a::linorder list"
  assumes "sorted_wrt (<) xs"
  shows "find_position (\<lambda>x. x = v) xs = (if v \<in> set xs then Some (length (filter (\<lambda>x. x < v) xs)) else None)"
proof (cases "v \<in> set xs")
  case True
  then obtain i where i: "i < length xs" "xs ! i = v" by (auto simp: in_set_conv_nth)
  have "takeWhile (\<lambda>x. x \<noteq> v) xs = take i xs"
    using i assms by (intro takeWhile_eq_take_P_nth) (fastforce simp: sorted_wrt_iff_nth_less)+
  then show ?thesis using i True strict_sorted_nth_filter[OF assms i(1)] by (simp add: find_position_def)
next
  case False
  then have "takeWhile (\<lambda>x. x \<noteq> v) xs = xs" by (auto simp: takeWhile_eq_all_conv)
  then have "length (takeWhile (\<lambda>x. x \<noteq> v) xs) = length xs" by (rule arg_cong)
  with False show ?thesis by (simp add: find_position_def Let_def)
qed

lemma find_position_Some: "find_position p xs = Some i \<Longrightarrow> i < length xs \<and> p (xs ! i)"
  using partition_point_not[of "\<lambda>x. \<not> p x" xs]
  by (auto simp: find_position_def partition_point_def Let_def split: if_splits)

lemma find_position_None: "find_position p xs = None \<longleftrightarrow> (\<forall>x \<in> set xs. \<not> p x)"
proof -
  have "length (takeWhile (\<lambda>x. \<not> p x) xs) < length xs \<longleftrightarrow> takeWhile (\<lambda>x. \<not> p x) xs \<noteq> xs"
    by (metis length_takeWhile_le less_le takeWhile_eq_take take_all order.refl)
  then show ?thesis by (auto simp: find_position_def Let_def takeWhile_eq_all_conv)
qed

lemma find_position_nth:
  assumes "distinct xs" "i < length xs"
  shows "find_position (\<lambda>x. x = xs ! i) xs = Some i"
proof (cases "find_position (\<lambda>x. x = xs ! i) xs")
  case None
  then show ?thesis using assms(2) by (auto simp: find_position_None)
next
  case (Some j)
  with find_position_Some[OF Some] assms show ?thesis by (auto simp: nth_eq_iff_index_eq)
qed

lemma segment_contains_range:
  assumes "segment_wf seg" "segment_bounds seg = Some r" "\<not> range_contains r v"
  shows "v \<notin> set (segment_vals seg)"
  using segment_vals_in_bounds[OF assms(1,2), of v] assms(3) by (auto simp: range_contains_def)

lemma bitmap_member:
  assumes "segment_wf (SegRangeWithBitmap r bm)" "range_contains r v"
  shows "bitmap_get bm (unat (v - fst r)) = Inr (v \<in> set (segment_vals (SegRangeWithBitmap r bm)))"
    "unat (v - fst r) < bm_len bm" "unat (v - fst r) = unat v - unat (fst r)"
proof -
  have v: "fst r \<le> v" "v < snd r" using assms(2) by (simp_all add: range_contains_def)
  show eq: "unat (v - fst r) = unat v - unat (fst r)" using v by (simp add: unat_diff_word)
  show lt: "unat (v - fst r) < bm_len bm"
    using v assms(1) eq by (simp add: range_span_def word_less_nat_alt word_le_nat_alt)
  have "v \<in> set (segment_vals (SegRangeWithBitmap r bm)) \<longleftrightarrow> bitmap_bits bm ! unat (v - fst r)"
    using set_offset_vals[of r "bitmap_present bm" v] segment_offs_bound(2)[OF assms(1)] assms(1) v lt eq
    by (simp add: bitmap_present_def)
  then show "bitmap_get bm (unat (v - fst r)) = Inr (v \<in> set (segment_vals (SegRangeWithBitmap r bm)))"
    using assms(1) lt by simp
qed

lemma ranges_member:
  assumes "segment_wf (SegRanges r runs)" "range_contains r v"
  shows "unat (ucast (v - fst r) :: u32) = unat v - unat (fst r)"
    "v \<in> set (segment_vals (SegRanges r runs)) \<longleftrightarrow> unat (ucast (v - fst r) :: u32) \<in> set (hr_present runs)"
proof -
  have v: "fst r \<le> v" "v < snd r" using assms(2) by (simp_all add: range_contains_def)
  have "unat (v - fst r) < range_span r"
    using v by (simp add: range_span_def unat_diff_word word_less_nat_alt word_le_nat_alt)
  then have "unat (v - fst r) < 2 ^ LENGTH(32)"
    using assms(1) unsigned_less[of "hr_span runs", where ?'a = nat] by simp
  then show eq: "unat (ucast (v - fst r) :: u32) = unat v - unat (fst r)"
    using v by (simp only: unat_ucast_small unat_diff_word)
  show "v \<in> set (segment_vals (SegRanges r runs)) \<longleftrightarrow> unat (ucast (v - fst r) :: u32) \<in> set (hr_present runs)"
    using set_offset_vals[of r "hr_present runs" v] segment_offs_bound(1)[OF assms(1)] assms(1) v
    unfolding eq by simp
qed

lemma segment_contains_eq:
  assumes "segment_wf seg" shows "segment_contains seg v = Inr (v \<in> set (segment_vals seg))"
proof (cases seg)
  case (SegRangeWithBitmap r bm)
  then show ?thesis using assms bitmap_member(1)[of r bm v] segment_contains_range[of seg r v] by auto
next
  case (SegRanges r runs)
  then show ?thesis using assms ranges_member(2)[of r runs v] segment_contains_range[of seg r v]
    by (auto simp: hr_position_eq)
next
  case (SegSortedArray array)
  with assms isl_binary_search[of array v] show ?thesis by simp
qed (auto simp: range_contains_def list_ex_iff)

lemma position_prefix_count:
  assumes "fst r \<le> snd r" "\<And>x. x \<in> set offs \<Longrightarrow> x < range_span r" "fst r \<le> v"
  shows "length (filter (\<lambda>x. x < v) (offset_vals (fst r) offs)) = length (filter (\<lambda>x. x < unat v - unat (fst r)) offs)"
proof -
  have "filter (\<lambda>off. fst r + word_of_nat off < v) offs = filter (\<lambda>x. x < unat v - unat (fst r)) offs"
    using assms unat_offset_val[OF assms(1)] by (intro filter_cong) (auto simp: word_less_nat_alt word_le_nat_alt less_imp_le)
  then show ?thesis unfolding filter_offset_vals by (simp add: offset_vals_def)
qed

lemma count_present_prefix:
  assumes "bitmap_wf bm" "n \<le> bm_len bm"
  shows "slice_count_zeros (bitmap_slice bm 0 n) = Inr (n - length (filter (\<lambda>x. x < n) (bitmap_present bm)))"
    "length (filter (\<lambda>x. x < n) (bitmap_present bm)) \<le> n"
proof -
  let ?bits = "take n (bitmap_bits bm)"
  have "filter (\<lambda>x. x < n) (bitmap_present bm) = filter (\<lambda>i. bitmap_bits bm ! i) [0..<n]"
  proof -
    have "[0..<bm_len bm] = [0..<n] @ [n..<bm_len bm]"
      using assms(2) upt_add_eq_append[of 0 n "bm_len bm - n"] by simp
    then show ?thesis by (auto simp: bitmap_present_def filter_empty_conv conj_commute intro!: filter_cong)
  qed
  moreover have "filter (\<lambda>b. b) ?bits = map (\<lambda>i. bitmap_bits bm ! i) (filter (\<lambda>i. bitmap_bits bm ! i) [0..<n])"
  proof -
    have "?bits = map (\<lambda>i. bitmap_bits bm ! i) [0..<n]" using assms by (intro nth_equalityI) simp_all
    then show ?thesis by (simp add: filter_map o_def)
  qed
  ultimately have "length (filter (\<lambda>x. x < n) (bitmap_present bm)) = count_list ?bits True"
    by (simp add: count_list_True)
  moreover have "count_list ?bits True + count_list ?bits False = n" using count_list_bool[of ?bits] assms by simp
  ultimately show "slice_count_zeros (bitmap_slice bm 0 n) = Inr (n - length (filter (\<lambda>x. x < n) (bitmap_present bm)))"
    "length (filter (\<lambda>x. x < n) (bitmap_present bm)) \<le> n"
    using slice_count_zeros_eq[OF assms(1), of 0 n] assms(2) by auto
qed

lemma position_holes:
  assumes "segment_wf (SegRangeWithHoles r holes)"
  shows "segment_position (SegRangeWithHoles r holes) v =
    Inr (find_position (\<lambda>x. x = v) (segment_vals (SegRangeWithHoles r holes)))"
proof -
  let ?H = "enc_iter holes" and ?vals = "segment_vals (SegRangeWithHoles r holes)"
  note spec = find_position_sorted[OF segment_vals_sorted[OF assms], of v, simplified]
  show ?thesis
  proof (cases "range_contains r v \<and> v \<notin> set ?H")
    case True
    then have v: "fst r \<le> v" "v < snd r" "v \<notin> set ?H" by (simp_all add: range_contains_def)
    have "filter (\<lambda>x. x < v) ?vals = filter (\<lambda>x. x \<notin> set ?H) (filter (\<lambda>x. x < v) (range_vals r))"
      by (simp add: conj_commute)
    also have "\<dots> = filter (\<lambda>x. x \<notin> set ?H) (range_vals (fst r, v))"
      using range_vals_prefix[of "fst r" v "snd r"] v by (simp add: less_imp_le)
    finally have "length (filter (\<lambda>x. x < v) ?vals) + length (filter (\<lambda>h. h < v) ?H) = unat v - unat (fst r)"
      using length_filter_holes[of ?H "fst r" v] assms v by (simp add: list_all_set)
    moreover have "enc_binary_search holes v = Inl (length (filter (\<lambda>x. x < v) ?H))"
      using assms v by (simp add: enc_binary_search_eq binary_search_sorted_notin strict_sorted_sorted)
    ultimately show ?thesis using spec v True by (simp add: unat_diff_word)
  next
    case False
    then have "v \<notin> set ?vals" by (auto simp: range_contains_def)
    moreover have "\<exists>i. enc_binary_search holes v = Inr i" if "v \<in> set ?H"
      using isl_binary_search[of holes v] that assms by (cases "enc_binary_search holes v") auto
    ultimately show ?thesis using spec False by auto
  qed
qed

lemma position_bitmap:
  assumes "segment_wf (SegRangeWithBitmap r bm)"
  shows "segment_position (SegRangeWithBitmap r bm) v =
    Inr (find_position (\<lambda>x. x = v) (segment_vals (SegRangeWithBitmap r bm)))"
proof -
  let ?seg = "SegRangeWithBitmap r bm"
  note spec = find_position_sorted[OF segment_vals_sorted[OF assms], of v, simplified segment_sorted_kind.simps]
  show ?thesis
  proof (cases "range_contains r v")
    case True
    note m = bitmap_member[OF assms True]
    have v: "fst r \<le> v" using True by (simp add: range_contains_def)
    have "length (filter (\<lambda>x. x < v) (segment_vals ?seg)) = length (filter (\<lambda>x. x < unat (v - fst r)) (bitmap_present bm))"
      using position_prefix_count[of r "bitmap_present bm" v] v assms segment_offs_bound(2)[OF assms] m(3) by simp
    then show ?thesis using spec True m(1,2) assms count_present_prefix[of bm "unat (v - fst r)"]
      by (simp add: Let_def less_imp_le del: segment_vals.simps)
  next
    case False
    then show ?thesis using segment_contains_range[OF assms, of r v] spec by simp
  qed
qed

lemma position_ranges:
  assumes "segment_wf (SegRanges r runs)"
  shows "segment_position (SegRanges r runs) v =
    Inr (find_position (\<lambda>x. x = v) (segment_vals (SegRanges r runs)))"
proof -
  let ?seg = "SegRanges r runs"
  note spec = find_position_sorted[OF segment_vals_sorted[OF assms], of v, simplified segment_sorted_kind.simps]
  show ?thesis
  proof (cases "range_contains r v")
    case True
    let ?off = "ucast (v - fst r) :: u32"
    note m = ranges_member[OF assms True]
    have v: "fst r \<le> v" using True by (simp add: range_contains_def)
    have "length (filter (\<lambda>x. x < v) (segment_vals ?seg)) = length (filter (\<lambda>x. x < unat ?off) (hr_present runs))"
      using position_prefix_count[of r "hr_present runs" v] v assms segment_offs_bound(1)[OF assms] m(1) by simp
    moreover have "length (filter (\<lambda>x. x < unat ?off) (hr_present runs)) < 2 ^ 32"
      using assms hr_present_len_eq(2)[of runs] unsigned_less[of "hr_span runs", where ?'a = nat]
      by (intro le_less_trans[OF length_filter_le]) simp
    ultimately show ?thesis using spec True m(2) assms
      by (simp add: hr_position_eq unat_of_nat del: segment_vals.simps)
  next
    case False
    then show ?thesis using segment_contains_range[OF assms, of r v] spec by simp
  qed
qed

lemma segment_position_eq:
  assumes "segment_wf seg" shows "segment_position seg v = Inr (find_position (\<lambda>x. x = v) (segment_vals seg))"
proof (cases seg)
  case (SegRange r)
  with assms show ?thesis
    using range_vals_prefix[of "fst r" v "snd r"] find_position_sorted[OF sorted_range_vals, of v r]
    by (auto simp: range_contains_def unat_diff_word)
next
  case (SegSortedArray array)
  with assms show ?thesis using find_position_sorted[of "enc_iter array" v]
    by (auto simp: enc_binary_search_eq binary_search_sorted_notin strict_sorted_sorted in_set_conv_nth
        binary_search_strict_sorted strict_sorted_nth_filter)
qed (use assms position_holes position_bitmap position_ranges in auto)

lemma strict_sorted_hd_last:
  fixes xs :: "'a::linorder list"
  assumes "sorted_wrt (<) xs" "v \<in> set xs"
  shows "hd xs \<le> v" "v \<le> last xs"
proof -
  obtain i where i: "i < length xs" "v = xs ! i" using assms(2) by (auto simp: in_set_conv_nth)
  then have "xs \<noteq> []" by auto
  then show "hd xs \<le> v" "v \<le> last xs"
    using i strict_sorted_sorted[OF assms(1)] by (auto simp: hd_conv_nth last_conv_nth intro!: sorted_nth_mono)
qed

text \<open>The bounds a segment reports enclose its values; for the kinds without holes they are attained.\<close>

lemma segment_range_bounds:
  assumes "segment_wf seg" "segment_range seg = Some (lo, hi)" "v \<in> set (segment_vals seg)"
  shows "lo \<le> v \<and> v \<le> hi"
proof -
  have incl: "lo \<le> v \<and> v \<le> hi" if "range_inclusive_of r = Some (lo, hi)" "fst r \<le> v" "v < snd r" for r
  proof -
    have "fst r < snd r" "lo = fst r" "hi = snd r - 1"
      using that(1) by (auto simp: range_inclusive_of_def range_is_empty_def split: if_splits)
    moreover have "unat (snd r - 1) = unat (snd r) - 1"
      using that by (subst unat_diff_word) (auto simp: word_le_nat_alt word_less_nat_alt)
    ultimately show ?thesis using that by (simp add: word_le_nat_alt word_less_nat_alt)
  qed
  show ?thesis
  proof (cases seg)
    case (SegSortedArray array)
    have ne: "enc_iter array \<noteq> []" using assms(3) SegSortedArray by auto
    have "hd (enc_iter array) \<le> v" "v \<le> last (enc_iter array)"
      using assms SegSortedArray strict_sorted_hd_last[of "enc_iter array" v] by simp_all
    with assms(2) SegSortedArray ne show ?thesis by (simp add: option_pair_def enc_first_eq enc_last_eq)
  next
    case (SegArray array)
    have ne: "enc_iter array \<noteq> []" using assms(3) SegArray by auto
    from assms(2) SegArray have "enc_min array = Some lo" "enc_max array = Some hi"
      by (auto simp: option_pair_def split: option.splits)
    with assms SegArray ne enc_min_le[of array lo v] show ?thesis by (auto simp: enc_max_eq list_max_eq)
  qed (use segment_vals_in_bounds[OF assms(1) _ assms(3)] incl assms(2) in auto)
qed

lemma segment_range_None: "segment_wf seg \<Longrightarrow> segment_range seg = None \<Longrightarrow> segment_vals seg = []"
proof (cases seg)
  case (SegRangeWithBitmap r bm)
  assume *: "segment_wf seg" "segment_range seg = None"
  then have "range_span r = 0" using SegRangeWithBitmap
    by (auto simp: range_inclusive_of_def range_is_empty_def range_span_def word_less_nat_alt split: if_splits)
  then show ?thesis using * SegRangeWithBitmap by (simp add: bitmap_present_def offset_vals_def)
next
  case (SegRanges r runs)
  assume *: "segment_wf seg" "segment_range seg = None"
  then have "range_span r = 0" using SegRanges
    by (auto simp: range_inclusive_of_def range_is_empty_def range_span_def word_less_nat_alt split: if_splits)
  then show ?thesis using * SegRanges hr_present_len_eq(2)[of runs] by (simp add: offset_vals_def)
qed (auto simp: range_inclusive_of_def range_is_empty_def range_vals_empty option_pair_def enc_first_eq enc_last_eq
    enc_min_None enc_max_eq list_max_def split: if_splits option.splits list.splits)

end
