(* ===== verification/Segment_Cursor.thy ===== *)
theory Segment_Cursor
  imports Segment_Values
begin

text \<open>
  Random access and scanning. \<open>segment_get\<close> is shown to be the list lookup in the values of
  the segment: for a range with holes by the invariant of its binary search over the holes, for a
  bitmap by the select on its bytes. The resumable scan keeps the invariant \<open>cursor_inv\<close> (the
  counted ones are those of the bytes before the scan position), and both bulk readers append
  exactly the selected slice of the values.
\<close>

subsection \<open>Lookup among holes\<close>

lemma hole_shift_mono:
  fixes hs :: "u64 list"
  assumes "sorted_wrt (<) hs" "i \<le> j" "j < length hs"
  shows "unat (hs ! i) + (j - i) \<le> unat (hs ! j)"
  using assms(2,3)
proof (induction j)
  case (Suc j)
  show ?case
  proof (cases "i = Suc j")
    case False
    have "hs ! j < hs ! Suc j" using assms(1) Suc.prems by (simp add: sorted_wrt_iff_nth_less)
    then show ?thesis using Suc False by (simp add: word_less_nat_alt)
  qed simp
qed simp

lemma holes_rank_loop_eq:
  assumes "sorted_wrt (<) hs" "hs = enc_iter holes" "\<And>k. k < length hs \<Longrightarrow> k \<le> unat (hs ! k)"
    "lo \<le> hi" "hi \<le> length hs" "length hs < 2 ^ 64"
    "\<And>k. k < lo \<Longrightarrow> unat (hs ! k) - k \<le> unat target"
    "\<And>k. hi \<le> k \<Longrightarrow> k < length hs \<Longrightarrow> unat target < unat (hs ! k) - k"
  shows "\<exists>m \<le> length hs. holes_rank_loop holes target lo hi = Inr m \<and>
    (\<forall>k < m. unat (hs ! k) - k \<le> unat target) \<and>
    (\<forall>k. m \<le> k \<longrightarrow> k < length hs \<longrightarrow> unat target < unat (hs ! k) - k)"
  using assms(4-8)
proof (induction "hi - lo" arbitrary: lo hi rule: less_induct)
  case (less lo hi)
  show ?case
  proof (cases "lo < hi")
    case False
    with less.prems show ?thesis by (intro exI[of _ lo]) (auto simp: holes_rank_loop.simps)
  next
    case True
    define mid where "mid = (lo + hi) div 2"
    have mid: "lo \<le> mid" "mid < hi" "mid < length hs" using True less.prems by (auto simp: mid_def)
    have shift_mono: "unat (hs ! i) - i \<le> unat (hs ! j) - j" if "i \<le> j" "j < length hs" for i j
      using hole_shift_mono[OF assms(1) that] assms(3)[of i] that by simp
    have sat: "saturating_sub (hs ! mid) (word_of_nat mid) > target \<longleftrightarrow> unat target < unat (hs ! mid) - mid"
      using mid less.prems by (simp add: word_less_nat_alt unat_saturating_sub unat_of_nat)
    have step: "holes_rank_loop holes target lo hi =
       (if unat target < unat (hs ! mid) - mid then holes_rank_loop holes target lo mid
        else holes_rank_loop holes target (mid + 1) hi)"
      using True mid assms(2) sat by (subst holes_rank_loop.simps) (simp add: enc_get_eq mid_def[symmetric] Let_def)
    show ?thesis
    proof (cases "unat target < unat (hs ! mid) - mid")
      case T: True
      have hi': "unat target < unat (hs ! k) - k" if "mid \<le> k" "k < length hs" for k
        using less_le_trans[OF T shift_mono[OF that]] .
      have "mid - lo < hi - lo" "mid \<le> length hs" using mid by simp_all
      from less.hyps[OF this(1) mid(1) this(2) less.prems(3,4) hi'] step T show ?thesis by simp
    next
      case F: False
      have lo': "unat (hs ! k) - k \<le> unat target" if "k < mid + 1" for k
        using F shift_mono[of k mid] mid(3) that by simp
      have "hi - (mid + 1) < hi - lo" "mid + 1 \<le> hi" using mid by simp_all
      from less.hyps[OF this less.prems(2,3) lo' less.prems(5)] step F show ?thesis by simp
    qed
  qed
qed

lemma filter_less_prefix:
  fixes hs :: "u64 list"
  assumes "sorted_wrt (<) hs" "m \<le> length hs" "\<And>k. k < m \<Longrightarrow> hs ! k < v" "\<And>k. m \<le> k \<Longrightarrow> k < length hs \<Longrightarrow> v < hs ! k"
  shows "filter (\<lambda>h. h < v) hs = take m hs" "v \<notin> set hs"
proof -
  have "filter (\<lambda>h. h < v) (take m hs) = take m hs" "filter (\<lambda>h. h < v) (drop m hs) = []"
    using assms by (auto simp: filter_id_conv filter_empty_conv in_set_conv_nth) (metis le_add1 less_diff_conv add.commute less_asym')
  then show "filter (\<lambda>h. h < v) hs = take m hs" by (metis append_Nil2 append_take_drop_id filter_append)
  show "v \<notin> set hs" using assms(3,4) by (auto simp: in_set_conv_nth) (metis less_irrefl not_less)
qed

lemma get_holes:
  assumes "segment_wf (SegRangeWithHoles r holes)"
  shows "segment_get (SegRangeWithHoles r holes) i =
    Inr (let vals = segment_vals (SegRangeWithHoles r holes) in if i < length vals then Some (vals ! i) else None)"
proof -
  let ?seg = "SegRangeWithHoles r holes" and ?H = "enc_iter holes" and ?vals = "segment_vals (SegRangeWithHoles r holes)"
  let ?a = "unat (fst r)" and ?b = "unat (snd r)"
  have wf: "fst r \<le> snd r" "sorted_wrt (<) ?H" "\<And>h. h \<in> set ?H \<Longrightarrow> fst r \<le> h \<and> h < snd r"
    using assms by (simp_all add: list_all_set)
  have len: "length ?vals + length ?H = ?b - ?a"
  proof -
    have "filter (\<lambda>h. h < snd r) ?H = ?H" using wf by (auto simp: filter_id_conv)
    then show ?thesis using length_filter_holes[OF wf(2,1)] wf(3) by simp
  qed
  then have sub: "usize_sub (unat (snd r - fst r)) (enc_len holes) = length ?vals"
    using wf(1) by (simp add: unat_diff_word)
  show ?thesis
  proof (cases "i < length ?vals")
    case False
    then show ?thesis using sub by (simp add: Let_def del: enc_len_eq segment_vals.simps)
  next
    case True
    have b64: "?b < 2 ^ 64" by (rule unat_u64_bound)
    have ge: "?a + k \<le> unat (?H ! k)" if "k < length ?H" for k
    proof -
      have "?H ! 0 \<in> set ?H" using that by (intro nth_mem) linarith
      then show ?thesis using hole_shift_mono[OF wf(2), of 0 k] wf(3) that by (fastforce simp: word_le_nat_alt)
    qed
    have t: "unat (fst r + word_of_nat i) = ?a + i" using True len b64 by (intro unat_add_of_nat) simp
    have h64: "length ?H < 2 ^ 64" and kle: "\<And>k. k < length ?H \<Longrightarrow> k \<le> unat (?H ! k)"
      using len b64 ge by (simp, meson add_leD2)
    obtain m where m: "m \<le> length ?H" "holes_rank_loop holes (fst r + word_of_nat i) 0 (length ?H) = Inr m"
      "\<And>k. k < m \<Longrightarrow> unat (?H ! k) - k \<le> ?a + i" "\<And>k. m \<le> k \<Longrightarrow> k < length ?H \<Longrightarrow> ?a + i < unat (?H ! k) - k"
      using holes_rank_loop_eq[OF wf(2) refl kle le0 order.refl h64, of "fst r + word_of_nat i"] unfolding t by auto
    define v where "v = fst r + word_of_nat (i + m)"
    have uv: "unat v = ?a + i + m" using True len b64 m(1) unfolding v_def by (subst unat_add_of_nat) simp_all
    have below: "?H ! k < v" if "k < m" for k
      using m(3)[OF that] ge[of k] that m(1) by (simp add: word_less_nat_alt uv)
    have above: "v < ?H ! k" if "m \<le> k" "k < length ?H" for k
      using m(4)[OF that] that by (simp add: word_less_nat_alt uv)
    note cut = filter_less_prefix[OF wf(2) m(1) below above]
    have v: "fst r \<le> v" "v < snd r" using True len m(1) by (simp_all add: word_le_nat_alt word_less_nat_alt uv)
    have "find_position (\<lambda>x. x = v) ?vals = Some i"
    proof -
      have "segment_position ?seg v = Inr (Some i)"
        using v cut m(1) assms by (simp add: range_contains_def enc_binary_search_eq binary_search_sorted_notin
            strict_sorted_sorted unat_diff_word uv)
      then show ?thesis using segment_position_eq[OF assms, of v] by simp
    qed
    then have "?vals ! i = v" using find_position_Some by fastforce
    then show ?thesis using True sub m(2) by (simp add: Let_def v_def add.assoc del: segment_vals.simps)
  qed
qed

subsection \<open>Set bits by bytes\<close>

definition byte_ones :: "u8 list \<Rightarrow> nat \<Rightarrow> nat list" where
  "byte_ones data k = map (\<lambda>i. k * 8 + i) (word_ones (data ! k))"

definition ones_from :: "u8 list \<Rightarrow> nat \<Rightarrow> nat list" where
  "ones_from data k = concat (map (byte_ones data) [k..<length data])"

lemma ones_from_step: "k < length data \<Longrightarrow> ones_from data k = byte_ones data k @ ones_from data (Suc k)"
  by (simp add: ones_from_def upt_conv_Cons)

lemma ones_from_end: "length data \<le> k \<Longrightarrow> ones_from data k = []"
  by (simp add: ones_from_def)

lemma length_byte_ones: "length (byte_ones data k) = popcount (data ! k)"
  by (simp add: byte_ones_def popcount_ones)

lemma ones_from_filter: "ones_from data 0 = filter (\<lambda>i. bytes_bits data ! i) [0..<8 * length data]"
proof (induction data rule: rev_induct)
  case Nil
  then show ?case by (simp add: ones_from_def)
next
  case (snoc b data)
  have "map (byte_ones (data @ [b])) [0..<length data] = map (byte_ones data) [0..<length data]"
    by (intro map_cong) (simp_all add: byte_ones_def nth_append)
  from arg_cong[OF this, of concat]
  have "ones_from (data @ [b]) 0 = ones_from data 0 @ map (\<lambda>i. length data * 8 + i) (word_ones b)"
    by (simp add: ones_from_def) (simp add: byte_ones_def)
  moreover have "filter (\<lambda>i. bytes_bits (data @ [b]) ! i) [0..<8 * length data] = filter (\<lambda>i. bytes_bits data ! i) [0..<8 * length data]"
    by (intro filter_cong) (simp_all add: bytes_bits_append nth_append)
  moreover have "filter (\<lambda>i. bytes_bits (data @ [b]) ! i) [8 * length data..<8 * length data + 8] =
      map (\<lambda>i. length data * 8 + i) (word_ones b)"
  proof -
    have "[8 * length data..<8 * length data + 8] = map (\<lambda>i. length data * 8 + i) [0..<8]"
      by (simp add: map_add_upt[symmetric] mult.commute add.commute del: upt_rec_numeral)
    moreover have "filter (\<lambda>i. bytes_bits (data @ [b]) ! (length data * 8 + i)) [0..<8] = word_ones b"
      unfolding word_ones_def by (intro filter_cong) (auto simp: bytes_bits_append bytes_bits_Cons nth_append)
    ultimately show ?thesis by (simp add: filter_map o_def del: upt_rec_numeral)
  qed
  moreover have "[0..<8 * length (data @ [b])] = [0..<8 * length data] @ [8 * length data..<8 * length data + 8]"
    using upt_add_eq_append[of 0 "8 * length data" 8] by (simp add: algebra_simps del: upt_rec_numeral)
  ultimately show ?case using snoc by (simp only: filter_append)
qed

lemma bitmap_present_ones: "bitmap_wf bm \<Longrightarrow> bitmap_present bm = ones_from (bm_data bm) 0"
proof -
  assume wf: "bitmap_wf bm"
  let ?n = "bm_len bm" and ?N = "8 * length (bm_data bm)"
  have split: "[0..<?N] = [0..<?n] @ [?n..<?N]"
    using bitmap_wf_le[OF wf] upt_add_eq_append[of 0 ?n "?N - ?n"] by simp
  have "filter (\<lambda>i. bytes_bits (bm_data bm) ! i) [?n..<?N] = []"
  proof -
    have "\<not> bytes_bits (bm_data bm) ! i" if "?n \<le> i" "i < ?N" for i
      using wf that by (auto simp: bitmap_wf_def list_all_length dest!: spec[of _ "i - ?n"])
    then show ?thesis by (simp add: filter_empty_conv)
  qed
  moreover have "filter (\<lambda>i. bytes_bits (bm_data bm) ! i) [0..<?n] = bitmap_present bm"
    unfolding bitmap_present_def by (intro filter_cong) (simp_all add: bitmap_bits_def)
  ultimately show ?thesis unfolding ones_from_filter split by simp
qed

subsection \<open>The scan state\<close>

definition cursor_inv :: "u8 list \<Rightarrow> cursor_state \<Rightarrow> bool" where
  "cursor_inv data st \<longleftrightarrow>
     cs_byte_idx st \<le> length data \<and> cs_ones_before st \<le> length (ones_from data 0) \<and>
     ones_from data (cs_byte_idx st) = drop (cs_ones_before st) (ones_from data 0)"

lemma cursor_inv_default [simp]: "cursor_inv data cursor_default"
  by (simp add: cursor_inv_def cursor_default_def)

lemma cursor_inv_rewind [simp]: "cursor_inv data st \<Longrightarrow> cursor_inv data (cursor_rewind i st)"
  by (simp add: cursor_rewind_def)

lemma cursor_inv_drop: "cursor_inv data st \<Longrightarrow> ones_from data (cs_byte_idx st) = drop (cs_ones_before st) (ones_from data 0)"
  by (simp add: cursor_inv_def)

lemma cursor_inv_step:
  assumes "cursor_inv data st" "cs_byte_idx st < length data"
  shows "cursor_inv data \<lparr>cs_byte_idx = cs_byte_idx st + 1, cs_ones_before = cs_ones_before st + popcount (data ! cs_byte_idx st)\<rparr>"
proof -
  let ?k = "cs_byte_idx st" and ?n = "cs_ones_before st" and ?all = "ones_from data 0"
  have split: "drop ?n ?all = byte_ones data ?k @ ones_from data (Suc ?k)"
    using cursor_inv_drop[OF assms(1)] ones_from_step[OF assms(2)] by simp
  have "drop (popcount (data ! ?k)) (drop ?n ?all) = ones_from data (Suc ?k)"
    unfolding split by (simp add: length_byte_ones[symmetric])
  moreover have "popcount (data ! ?k) \<le> length (drop ?n ?all)" unfolding split by (simp add: length_byte_ones)
  ultimately show ?thesis using assms by (auto simp: cursor_inv_def add.commute)
qed

lemma cursor_rewind_le: "cs_ones_before (cursor_rewind i st) \<le> i"
  by (simp add: cursor_rewind_def cursor_default_def)

lemma bitmap_get_loop_eq:
  assumes "cursor_inv data st"
  shows "fst (bitmap_get_loop base data st n) =
      (let ones = ones_from data (cs_byte_idx st) in if n < length ones then Some (base + word_of_nat (ones ! n)) else None)
    \<and> cursor_inv data (snd (bitmap_get_loop base data st n))"
  using assms
proof (induction base data st n rule: bitmap_get_loop.induct)
  case (1 base data st n)
  let ?k = "cs_byte_idx st"
  show ?case
  proof (cases "?k < length data")
    case False
    with 1 show ?thesis by (simp add: bitmap_get_loop.simps[of base data st n] ones_from_end)
  next
    case True
    let ?ones = "popcount (data ! ?k)"
    note step = ones_from_step[OF True]
    show ?thesis
    proof (cases "n < ?ones")
      case lt: True
      then have "trailing_zeros ((clear_lowest ^^ n) (data ! ?k)) = word_ones (data ! ?k) ! n"
        by (rule trailing_zeros_select)
      with True lt 1(2) step show ?thesis
        by (simp add: bitmap_get_loop.simps[of base data st n] Let_def nth_append length_byte_ones
            byte_ones_def popcount_ones)
    next
      case False
      then have "n < length (ones_from data ?k) \<longleftrightarrow> n - ?ones < length (ones_from data (Suc ?k))"
        unfolding step by (auto simp: length_byte_ones)
      with False True 1(1)[OF True refl refl False] cursor_inv_step[OF 1(2) True] step show ?thesis
        by (simp add: bitmap_get_loop.simps[of base data st n] Let_def nth_append length_byte_ones)
    qed
  qed
qed

lemma segment_get_eq:
  assumes "segment_wf seg" "i < 2 ^ 64"
  shows "segment_get seg i = Inr (if i < length (segment_vals seg) then Some (segment_vals seg ! i) else None)"
proof (cases seg)
  case (SegRange r)
  have "checked_add (fst r) (word_of_nat i) = (if unat (fst r) + i < 2 ^ 64 then Some (fst r + word_of_nat i) else None)"
    using assms(2) by (simp add: checked_add_def unat_of_nat)
  then show ?thesis using SegRange assms unat_add_of_nat[of "fst r" i] unat_u64_bound[of "snd r"]
    by (auto simp: word_less_nat_alt nth_range_vals)
next
  case (SegRangeWithHoles r holes)
  with assms get_holes[of r holes i] show ?thesis by (simp only: Let_def)
next
  case (SegRangeWithBitmap r bm)
  have "cs_byte_idx cursor_default = 0" by (simp add: cursor_default_def)
  then show ?thesis using SegRangeWithBitmap assms bitmap_get_loop_eq[of "bm_data bm" cursor_default "fst r" i]
    by (simp add: bitmap_present_ones offset_vals_def Let_def)
next
  case (SegRanges r runs)
  have len: "length (hr_present runs) < 2 ^ 32"
    using assms SegRanges hr_present_len_eq(2)[of runs] unat_u32_bound[of "hr_span runs"] by simp
  have "hr_present runs ! i < 2 ^ 32" if "i < length (hr_present runs)"
    using hr_present_less_span[of runs "hr_present runs ! i"] assms SegRanges that unat_u32_bound[of "hr_span runs"] by simp
  then have "(ucast (word_of_nat (hr_present runs ! i) :: u32) :: u64) = word_of_nat (hr_present runs ! i)"
    if "i < length (hr_present runs)"
    using that by (simp add: word_unat_eq_iff unat_ucast_up unat_of_nat)
  then show ?thesis using SegRanges assms len
    by (auto simp: hr_offset_at_eq offset_vals_def unat_of_nat)
qed (use assms in \<open>simp_all add: enc_get_eq\<close>)

fun segment_cursor_inv :: "u64_segment \<Rightarrow> cursor_state \<Rightarrow> bool" where
  "segment_cursor_inv (SegRangeWithBitmap r bm) st = cursor_inv (bm_data bm) st"
| "segment_cursor_inv _ st = True"

lemma segment_cursor_inv_default [simp]: "segment_cursor_inv seg cursor_default"
  by (cases seg) simp_all

lemma cursor_get_eq:
  assumes "segment_wf seg" "segment_cursor_inv seg st" "i < 2 ^ 64"
  shows "\<exists>st'. cursor_get seg st i = Inr (if i < length (segment_vals seg) then Some (segment_vals seg ! i) else None, st') \<and>
    segment_cursor_inv seg st'"
proof (cases seg)
  case (SegRangeWithBitmap r bm)
  let ?st = "cursor_rewind i st" and ?d = "bm_data bm"
  have inv: "cursor_inv ?d ?st" using assms SegRangeWithBitmap by simp
  have le: "cs_ones_before ?st \<le> i" by (rule cursor_rewind_le)
  have "fst (bitmap_get_loop (fst r) ?d ?st (i - cs_ones_before ?st)) =
     (if i < length (segment_vals seg) then Some (segment_vals seg ! i) else None)"
    using bitmap_get_loop_eq[OF inv, of "fst r" "i - cs_ones_before ?st"] cursor_inv_drop[OF inv] le
      assms SegRangeWithBitmap inv[unfolded cursor_inv_def]
    by (auto simp: bitmap_present_ones offset_vals_def Let_def)
  then show ?thesis
    using SegRangeWithBitmap bitmap_get_loop_eq[OF inv, of "fst r" "i - cs_ones_before ?st"]
    by (simp add: cursor_get_def Let_def prod_eq_iff)
qed (use assms segment_get_eq[OF assms(1,3)] in \<open>simp_all add: cursor_get_def\<close>)

subsection \<open>Bulk reads\<close>

lemma drop_take_split:
  "drop m (take n (xs @ ys)) = drop m (take n xs) @ drop (m - length xs) (take (n - length xs) ys)"
  by (simp add: min_def)

lemma byte_loop_eq:
  "byte_loop base k sel w rank vals =
     (w \<noteq> 0 \<and> snd sel < rank + popcount w,
      vals @ map (\<lambda>i. base + word_of_nat (k * 8 + i)) (drop (fst sel - rank) (take (snd sel - rank) (word_ones w))))"
proof (induction base k sel w rank vals rule: byte_loop.induct)
  case (1 base k sel w rank vals)
  show ?case
  proof (cases "w = 0")
    case True
    then show ?thesis by (subst byte_loop.simps) (simp add: word_ones_eq_Nil[THEN iffD2])
  next
    case False
    then obtain j js where ones: "word_ones w = j # js" by (metis list.exhaust word_ones_eq_Nil)
    have cl: "word_ones (clear_lowest w) = js" by (simp add: word_ones_clear_lowest ones)
    have tz: "trailing_zeros w = j" using trailing_zeros_ones[OF False] ones by simp
    have pc: "popcount w = Suc (length js)" by (simp add: popcount_ones ones)
    show ?thesis
    proof (cases "snd sel \<le> rank")
      case True
      with False pc show ?thesis by (simp add: byte_loop.simps[of base k sel w])
    next
      case lt: False
      have z: "clear_lowest w \<noteq> 0 \<longleftrightarrow> js \<noteq> []" using cl word_ones_eq_Nil by metis
      have "snd sel - rank = Suc (snd sel - (rank + 1))" using lt by simp
      moreover have "fst sel - rank = (if fst sel \<le> rank then 0 else Suc (fst sel - (rank + 1)))" by auto
      ultimately show ?thesis using 1[OF False lt refl refl] False lt pc ones cl tz z
        by (auto simp: byte_loop.simps[of base k sel w] Let_def popcount_ones)
    qed
  qed
qed

lemma byte_loop_ones:
  assumes "k < length data"
  shows "byte_loop base k sel (data ! k) rank vals =
     (data ! k \<noteq> 0 \<and> snd sel < rank + popcount (data ! k),
      vals @ map (\<lambda>i. base + word_of_nat i) (drop (fst sel - rank) (take (snd sel - rank) (byte_ones data k))))"
  by (simp add: byte_loop_eq byte_ones_def drop_map take_map o_def)

lemma bitmap_extend_loop_eq:
  assumes "cursor_inv data st"
  shows "snd (bitmap_extend_loop base data sel st vals) =
      vals @ map (\<lambda>i. base + word_of_nat i)
        (drop (fst sel - cs_ones_before st) (take (snd sel - cs_ones_before st) (ones_from data (cs_byte_idx st))))
    \<and> cursor_inv data (fst (bitmap_extend_loop base data sel st vals))"
  using assms
proof (induction base data sel st vals rule: bitmap_extend_loop.induct)
  case (1 base data sel st vals)
  let ?k = "cs_byte_idx st" and ?n = "cs_ones_before st"
  show ?case
  proof (cases "?k < length data")
    case False
    with 1 show ?thesis by (simp add: bitmap_extend_loop.simps[of base data sel st] ones_from_end)
  next
    case True
    define after where "after = ?n + popcount (data ! ?k)"
    define nst where "nst = \<lparr>cs_byte_idx = ?k + 1, cs_ones_before = after\<rparr>"
    have inv: "cursor_inv data nst" unfolding nst_def after_def by (rule cursor_inv_step[OF 1(3) True])
    have split: "drop (fst sel - ?n) (take (snd sel - ?n) (ones_from data ?k)) =
        drop (fst sel - ?n) (take (snd sel - ?n) (byte_ones data ?k)) @
        drop (fst sel - after) (take (snd sel - after) (ones_from data (Suc ?k)))"
      unfolding ones_from_step[OF True] drop_take_split by (simp add: length_byte_ones after_def)
    note unf = bitmap_extend_loop.simps[of base data sel st vals] Let_def after_def[symmetric] nst_def[symmetric]
      byte_loop_ones[OF True] prod.case
    show ?thesis
    proof (cases "after \<le> fst sel")
      case skip: True
      have "drop (fst sel - ?n) (take (snd sel - ?n) (byte_ones data ?k)) = []"
        using skip by (simp add: length_byte_ones after_def)
      with 1(1)[OF True refl refl refl skip[unfolded after_def]] inv split skip True show ?thesis
        unfolding unf by (simp add: nst_def after_def)
    next
      case False
      show ?thesis
      proof (cases "snd sel \<le> after")
        case stop: True
        with False True inv 1(3) split show ?thesis unfolding unf by simp
      next
        case go: False
        then have "\<not> (data ! ?k \<noteq> 0 \<and> snd sel < ?n + popcount (data ! ?k))" by (simp add: after_def)
        with 1(2)[OF True refl refl refl False[unfolded after_def] byte_loop_ones[OF True, symmetric]]
          go False True inv split show ?thesis
          unfolding unf by (simp add: nst_def after_def)
      qed
    qed
  qed
qed

lemma map_filter_nth:
  "List.map_filter (\<lambda>i. if i < length xs then Some (xs ! i) else None) [s..<e] = drop s (take e xs)"
proof (induction e)
  case (Suc e)
  show ?case
  proof (cases "s \<le> e")
    case True
    then have "List.map_filter (\<lambda>i. if i < length xs then Some (xs ! i) else None) [s..<Suc e] =
        drop s (take e xs) @ (if e < length xs then [xs ! e] else [])"
      using Suc by (simp add: map_filter_def)
    moreover have "take (Suc e) xs = take e xs @ [xs ! e]" if "e < length xs"
      using that by (rule take_Suc_conv_app_nth)
    ultimately show ?thesis using True by (auto simp: min_def)
  qed (simp add: map_filter_def)
qed (simp add: map_filter_def)

lemma map_filter_id_map: "List.map_filter (\<lambda>y. y) (map f xs) = List.map_filter f xs"
  by (induction xs) (simp_all add: map_filter_simps split: option.splits)

lemma filter_map_get:
  assumes "segment_wf seg" "e \<le> 2 ^ 64"
  shows "filter_map_res (segment_get seg) [s..<e] = Inr (drop s (take e (segment_vals seg)))"
proof -
  let ?g = "\<lambda>i. if i < length (segment_vals seg) then Some (segment_vals seg ! i) else None"
  have "mapr (segment_get seg) [s..<e] = Inr (map ?g [s..<e])"
    using assms by (intro mapr_Inr) (simp add: segment_get_eq)
  then show ?thesis using map_filter_nth[of "segment_vals seg" s e]
    by (simp add: filter_map_res_def map_filter_id_map)
qed

lemma drop_take_offset_vals: "drop m (take n (offset_vals base offs)) = map (\<lambda>i. base + word_of_nat i) (drop m (take n offs))"
  by (simp add: offset_vals_def take_map drop_map)

lemma cursor_selection:
  assumes "cursor_inv data st" "cs_ones_before st \<le> s"
  shows "drop (s - cs_ones_before st) (take (e - cs_ones_before st) (ones_from data (cs_byte_idx st))) =
    drop s (take e (ones_from data 0))"
proof (cases "cs_ones_before st \<le> e")
  case True
  then show ?thesis using assms(2) unfolding cursor_inv_drop[OF assms(1)] by (simp add: take_drop add.commute)
qed (use assms(2) in simp)

lemma cursor_extend_range_eq:
  assumes "segment_wf seg" "segment_cursor_inv seg st" "e \<le> 2 ^ 64"
  shows "\<exists>st'. cursor_extend_range seg st (s, e) vals = Inr (st', vals @ drop s (take e (segment_vals seg))) \<and>
    segment_cursor_inv seg st'"
proof (cases seg)
  case (SegRange r)
  have "drop s (take e (range_vals r)) = offset_vals (fst r) [s..<min e (range_span r)]"
    using assms SegRange unfolding segment_wf.simps range_vals_offsets[OF assms(1)[unfolded SegRange segment_wf.simps]]
    by (simp add: offset_vals_def drop_map take_map min_def)
  moreover have "range_vals (fst r + word_of_nat s, fst r + word_of_nat (min e (range_span r))) = offset_vals (fst r) [s..<min e (range_span r)]"
    if "s < min e (range_span r)"
  proof -
    have "unat (fst r) + s + (min e (range_span r) - s) < 2 ^ LENGTH(64)"
      using that range_span_bound[of r] assms SegRange by auto
    from range_vals_offset[OF this] that show ?thesis by (simp add: offset_vals_def of_nat_diff add.assoc)
  qed
  ultimately show ?thesis using SegRange assms
    by (cases "s < min e (range_span r)")
      (simp_all add: cursor_extend_range_def Let_def unat_diff_word range_span_def[symmetric] offset_vals_def
        del: min_less_iff_conj)
next
  case (SegRangeWithBitmap r bm)
  have inv: "cursor_inv (bm_data bm) (cursor_rewind s st)" using assms SegRangeWithBitmap by simp
  show ?thesis
    using bitmap_extend_loop_eq[OF inv, of "fst r" "(s, e)" vals] cursor_selection[OF inv cursor_rewind_le, of e]
      assms SegRangeWithBitmap
    by (simp add: cursor_extend_range_def bitmap_present_ones drop_take_offset_vals prod_eq_iff)
next
  case (SegRanges r runs)
  have u: "unat (clamp_u32 n) = min n (2 ^ 32 - 1)" for n
    by (simp add: clamp_u32_def unat_minus_1 unat_of_nat min_def)
  have len: "length (hr_present runs) \<le> 2 ^ 32 - 1"
    using hr_present_len_eq(2)[of runs] assms SegRanges unat_u32_bound[of "hr_span runs"] by simp
  have "drop (min s (2 ^ 32 - 1)) (take (min e (2 ^ 32 - 1)) (hr_present runs)) = drop s (take e (hr_present runs))"
    using len by (auto simp: min_def)
  moreover have "unat (fst r) + unat (hr_span runs) < 2 ^ 64" using range_span_bound[of r] assms SegRanges by simp
  ultimately show ?thesis
    using SegRanges assms hr_extend_values_eq[of runs "fst r" "clamp_u32 s" "clamp_u32 e" vals]
    by (simp add: cursor_extend_range_def u drop_take_offset_vals)
qed (use assms filter_map_get[OF assms(1,3), of s] in \<open>simp_all add: cursor_extend_range_def\<close>)

lemma byte_runs_loop_eq:
  "(\<And>i. i \<in> set (word_ones w) \<Longrightarrow> unat bs + unat off + i + 1 < 2 ^ 64) \<Longrightarrow>
   byte_runs_loop bs w off vals = vals @ map (\<lambda>i. bs + off + word_of_nat i) (word_ones w)"
proof (induction bs w off vals rule: byte_runs_loop.induct)
  case (1 bs w off vals)
  show ?case
  proof (cases "w = 0")
    case True
    then show ?thesis by (subst byte_runs_loop.simps) (simp add: word_ones_eq_Nil[THEN iffD2])
  next
    case False
    define z r where zr: "z = trailing_zeros w" "r = trailing_ones (drop_bit z w)"
    define w2 where "w2 = drop_bit r (drop_bit z w)"
    have ones: "word_ones w = map (\<lambda>i. z + i) [0..<r] @ map (\<lambda>i. z + r + i) (word_ones w2)"
      using word_ones_run[of w] by (simp add: zr w2_def)
    have r: "0 < r" using trailing_run_pos[OF False] by (simp add: zr)
    have "z + (r - 1) \<in> set (word_ones w)" using r unfolding ones by auto
    then have b: "unat bs + unat off + z + r < 2 ^ 64" using 1(2) r by fastforce
    have o1: "unat (off + word_of_nat z) = unat off + z" "unat (off + word_of_nat z + word_of_nat r) = unat off + z + r"
      using b by (auto simp: unat_word_ariths unat_of_nat mod_simps)
    have bo: "unat (bs + (off + word_of_nat z)) = unat bs + unat off + z"
      using b o1 by (simp add: unat_word_ariths(1)[of bs])
    have "range_vals (bs + (off + word_of_nat z), bs + (off + word_of_nat z) + word_of_nat r) =
        map (\<lambda>i. bs + off + word_of_nat i) (map (\<lambda>i. z + i) [0..<r])"
      using range_vals_offset[of "bs + (off + word_of_nat z)" 0 r] bo b by (simp add: o_def add.assoc)
    moreover have "byte_runs_loop bs w2 (off + word_of_nat z + word_of_nat r) vs =
        vs @ map (\<lambda>i. bs + off + word_of_nat i) (map (\<lambda>i. z + r + i) (word_ones w2))"
      if "vs = vals @ range_vals (bs + (off + word_of_nat z), bs + (off + word_of_nat z) + word_of_nat r)" for vs
    proof -
      have "unat bs + unat (off + word_of_nat z + word_of_nat r) + i + 1 < 2 ^ 64" if "i \<in> set (word_ones w2)" for i
        using 1(2)[of "z + r + i"] that o1 by (simp add: ones)
      with 1(1)[OF False zr(1) refl refl zr(2), folded w2_def that] show ?thesis
        by (simp add: o_def add.assoc)
    qed
    ultimately show ?thesis
      unfolding ones using False byte_runs_loop.simps[of bs w off vals]
      by (simp only: Let_def zr[symmetric] w2_def[symmetric]) simp
  qed
qed

lemma byte_value_bound:
  assumes "segment_wf (SegRangeWithBitmap r bm)" "k < length (bm_data bm)" "i \<in> set (word_ones (bm_data bm ! k))"
  shows "unat (fst r) + (k * 8 + i) + 1 < 2 ^ 64" "unat (fst r + word_of_nat (k * 8)) = unat (fst r) + k * 8"
proof -
  have "k * 8 + i \<in> set (ones_from (bm_data bm) 0)"
    using assms(2,3) by (auto simp: ones_from_def byte_ones_def)
  then have "k * 8 + i < range_span r"
    using assms(1) segment_offs_bound(2)[OF assms(1)] by (simp add: bitmap_present_ones)
  then show "unat (fst r) + (k * 8 + i) + 1 < 2 ^ 64" "unat (fst r + word_of_nat (k * 8)) = unat (fst r) + k * 8"
    using range_span_bound[of r] assms(1) unat_offset_val[of r "k * 8"] unat_u64_bound[of "snd r"] by simp_all
qed

text \<open>A byte that is taken whole is expanded to the same values as the bit loop appends.\<close>

lemma whole_byte_eq:
  assumes "segment_wf (SegRangeWithBitmap r bm)" "k < length (bm_data bm)" "6 \<le> popcount (bm_data bm ! k)"
  shows "(if bm_data bm ! k = - 1 then vals @ range_vals (fst r + word_of_nat (k * 8), fst r + word_of_nat (k * 8) + 8)
      else byte_runs_loop (fst r + word_of_nat (k * 8)) (bm_data bm ! k) 0 vals) =
    vals @ map (\<lambda>i. fst r + word_of_nat i) (byte_ones (bm_data bm) k)"
proof -
  let ?b = "bm_data bm ! k"
  note bound = byte_value_bound[OF assms(1,2)]
  have "word_ones ?b \<noteq> []" using assms(3) by (auto simp: popcount_ones)
  then have u: "unat (fst r + word_of_nat (k * 8)) = unat (fst r) + k * 8"
    using bound(2) by (meson list.set_intros(1) neq_Nil_conv last_in_set)
  show ?thesis
  proof (cases "?b = - 1")
    case True
    have ones: "word_ones (- 1 :: u8) = [0..<8]" by (simp add: word_ones_def)
    have "7 \<in> set (word_ones ?b)" using True by (simp add: set_word_ones)
    from bound(1)[OF this] have "unat (fst r) + k * 8 + 8 < 2 ^ LENGTH(64)" by simp
    from range_vals_offset[OF this] have "range_vals (fst r + word_of_nat (k * 8), fst r + word_of_nat (k * 8) + 8) =
        map (\<lambda>i. fst r + word_of_nat i) [k * 8..<k * 8 + 8]" by simp
    moreover have "byte_ones (bm_data bm) k = [k * 8..<k * 8 + 8]"
      unfolding byte_ones_def True ones by (intro nth_equalityI) simp_all
    ultimately show ?thesis using True by simp
  next
    case False
    have "byte_runs_loop (fst r + word_of_nat (k * 8)) ?b 0 vals =
        vals @ map (\<lambda>i. fst r + word_of_nat (k * 8) + 0 + word_of_nat i) (word_ones ?b)"
      using bound(1) u by (intro byte_runs_loop_eq) (simp add: add.assoc)
    with False show ?thesis by (simp add: byte_ones_def o_def add.assoc)
  qed
qed

lemma dense_extend_loop_eq:
  assumes "cursor_inv (bm_data bm) st" "segment_wf (SegRangeWithBitmap r bm)"
  shows "snd (dense_extend_loop (fst r) (bm_data bm) sel st vals) =
      vals @ map (\<lambda>i. fst r + word_of_nat i)
        (drop (fst sel - cs_ones_before st) (take (snd sel - cs_ones_before st) (ones_from (bm_data bm) (cs_byte_idx st))))
    \<and> cursor_inv (bm_data bm) (fst (dense_extend_loop (fst r) (bm_data bm) sel st vals))"
  using assms(1)
proof (induction "fst r" "bm_data bm" sel st vals rule: dense_extend_loop.induct)
  case (1 sel st vals)
  let ?data = "bm_data bm" and ?k = "cs_byte_idx st" and ?n = "cs_ones_before st"
  show ?case
  proof (cases "?k < length ?data")
    case False
    with 1 show ?thesis by (simp add: dense_extend_loop.simps[of "fst r" ?data sel st] ones_from_end)
  next
    case True
    define after where "after = ?n + popcount (?data ! ?k)"
    define nst where "nst = \<lparr>cs_byte_idx = ?k + 1, cs_ones_before = after\<rparr>"
    let ?byte = "drop (fst sel - ?n) (take (snd sel - ?n) (byte_ones ?data ?k))"
    let ?rest = "drop (fst sel - after) (take (snd sel - after) (ones_from ?data (Suc ?k)))"
    have inv: "cursor_inv ?data nst" unfolding nst_def after_def by (rule cursor_inv_step[OF 1(4) True])
    have split: "drop (fst sel - ?n) (take (snd sel - ?n) (ones_from ?data ?k)) = ?byte @ ?rest"
      unfolding ones_from_step[OF True] drop_take_split by (simp add: length_byte_ones after_def)
    note unf = dense_extend_loop.simps[of "fst r" ?data sel st vals] Let_def after_def[symmetric] nst_def[symmetric]
      byte_loop_ones[OF True] prod.case
    let ?whole = "(fst sel \<le> ?n \<and> after \<le> snd sel) \<and> 6 \<le> popcount (?data ! ?k)"
    consider (skip) "after \<le> fst sel" | (whole) "\<not> after \<le> fst sel" ?whole | (bits) "\<not> after \<le> fst sel" "\<not> ?whole"
      by blast
    then show ?thesis
    proof cases
      case skip
      have "?byte = []" using skip by (simp add: length_byte_ones after_def)
      with 1(1)[OF True refl refl refl refl skip[unfolded after_def]] inv split skip True show ?thesis
        unfolding unf by (simp add: nst_def after_def)
    next
      case whole
      have byte: "?byte = byte_ones ?data ?k" using whole by (auto simp: length_byte_ones after_def)
      note vals = whole_byte_eq[OF assms(2) True conjunct2[OF whole(2)], of vals]
      show ?thesis
        using 1(2)[OF True refl refl refl refl whole(1)[unfolded after_def] whole(2)[unfolded after_def] refl refl]
          whole True inv split
        unfolding unf vals byte by (cases "snd sel \<le> after") (simp_all add: nst_def after_def)
    next
      case bits
      show ?thesis
        using 1(3)[OF True refl refl refl refl bits(1)[unfolded after_def] bits(2)[unfolded after_def]
            byte_loop_ones[OF True, symmetric]] bits True inv split 1(4)
        unfolding unf if_not_P[OF bits(2)]
        by (cases "snd sel \<le> after") (simp_all add: nst_def after_def)
    qed
  qed
qed

lemma cursor_extend_dense_range_eq:
  assumes "segment_wf seg" "segment_cursor_inv seg st" "e \<le> 2 ^ 64"
  shows "\<exists>st'. cursor_extend_dense_range seg st (s, e) vals = Inr (st', vals @ drop s (take e (segment_vals seg))) \<and>
    segment_cursor_inv seg st'"
proof (cases seg)
  case (SegRangeWithBitmap r bm)
  have inv: "cursor_inv (bm_data bm) (cursor_rewind s st)" using assms SegRangeWithBitmap by simp
  show ?thesis
    using dense_extend_loop_eq[OF inv assms(1)[unfolded SegRangeWithBitmap], of "(s, e)" vals]
      cursor_selection[OF inv cursor_rewind_le, of e] assms SegRangeWithBitmap
    by (simp add: cursor_extend_dense_range_def bitmap_present_ones drop_take_offset_vals prod_eq_iff)
qed (use cursor_extend_range_eq[OF assms, of s vals] in \<open>simp_all add: cursor_extend_dense_range_def\<close>)

subsection \<open>Segments as a positional structure\<close>

interpretation seg: positional segment_vals segment_wf segment_len segment_get segment_position "2 ^ 64"
proof
  fix seg assume wf: "segment_wf seg"
  show "length (segment_vals seg) \<le> 2 ^ 64"
    using length_distinct_words[OF segment_vals_distinct[OF wf]] by simp
  show "segment_position seg (segment_vals seg ! i) = Inr (Some i)" if "i < length (segment_vals seg)" for i
    using segment_vals_distinct[OF wf] that by (simp add: segment_position_eq[OF wf] find_position_nth)
  show "segment_position seg v = Inr None" if "v \<notin> set (segment_vals seg)" for v
    using that by (auto simp: segment_position_eq[OF wf] find_position_None)
qed (simp_all add: segment_vals_distinct segment_len_eq segment_get_eq)

subsection \<open>Properties\<close>



text \<open>
  C7. The resumable bulk readers: from any state the cursor can be in, the sparse bitmap decoder and
  the dense one append the same values, those at the requested positions, and leave the cursor in
  such a state again, so that any sequence of requests reads correctly.
\<close>

theorem bulk_readers_equivalent:
  assumes "segment_wf sg" "segment_cursor_inv sg st" "e \<le> 2 ^ 64"
  shows "\<exists>st1 st2.
    cursor_extend_range sg st (s, e) out = Inr (st1, out @ drop s (take e (segment_vals sg))) \<and>
    cursor_extend_dense_range sg st (s, e) out = Inr (st2, out @ drop s (take e (segment_vals sg))) \<and>
    segment_cursor_inv sg st1 \<and> segment_cursor_inv sg st2"
  using cursor_extend_range_eq[OF assms, of s out] cursor_extend_dense_range_eq[OF assms, of s out] by blast

theorem bulk_readers_equivalent_witness:
  "let sg = SegRangeWithBitmap (100, 120) (bitmap_new_full 20) in
   segment_wf sg \<and> (\<exists>st1 st2.
     cursor_extend_range sg cursor_default (4, 13) [] = Inr (st1, [] @ drop 4 (take 13 (segment_vals sg))) \<and>
     cursor_extend_dense_range sg cursor_default (4, 13) [] = Inr (st2, [] @ drop 4 (take 13 (segment_vals sg))) \<and>
     segment_cursor_inv sg st1 \<and> segment_cursor_inv sg st2)"
proof -
  let ?sg = "SegRangeWithBitmap (100, 120) (bitmap_new_full 20)"
  have "segment_wf ?sg" using bitmap_new_full_eq[of 20] by (simp add: range_span_def)
  moreover have "segment_cursor_inv ?sg cursor_default" by (simp add: cursor_inv_def cursor_default_def)
  ultimately show ?thesis unfolding Let_def
    using bulk_readers_equivalent[of ?sg cursor_default 13 4 "[]"] by simp
qed

end
