(* ===== verification/Segment_Updates.thy ===== *)
theory Segment_Updates
  imports Segment_Cursor
begin

text \<open>
  Building and updating segments. Whatever encoding the size estimate picks, a segment built from
  statistics that describe a sequence is well-formed and stands for exactly that sequence; slicing,
  deleting, masking and appending are then shown to be the corresponding list operations.
\<close>

subsection \<open>Statistics\<close>

definition stats_ok :: "segment_stats \<Rightarrow> u64 list \<Rightarrow> bool" where
  "stats_ok stats xs \<longleftrightarrow>
     (if st_sorted stats
      then sorted_wrt (<) xs \<and> length xs < 2 ^ 64 \<and> st_count stats = word_of_nat (length xs) \<and>
           (xs \<noteq> [] \<longrightarrow> st_min stats = hd xs \<and> st_max stats = last xs)
      else distinct xs)"

lemma min_less_if: "min x m = (if x < m then x else m)" and max_less_if: "max x m = (if m < x then x else m)"
  for x m :: "'a::linorder"
  by (auto simp: min_def max_def)

lemma stats_fold:
  assumes "xs \<noteq> []" "length xs < 2 ^ 64"
  shows "fold stats_step xs \<lparr>st_min = - 1, st_max = 0, st_count = 0, st_sorted = True\<rparr> =
    \<lparr>st_min = Min (set xs), st_max = Max (set xs), st_count = word_of_nat (length xs), st_sorted = sorted xs\<rparr>"
  using assms
proof (induction xs rule: rev_induct)
  case (snoc x xs)
  show ?case
  proof (cases "xs = []")
    case True
    have "x < - 1 \<or> x = - 1" "0 < x \<or> x = 0" using word_order.not_eq_extremum word_coorder.not_eq_extremum by metis+
    with True show ?thesis by (auto simp: stats_step_def)
  next
    case False
    have cnt: "1 < word_of_nat (length xs) + (1 :: u64)"
    proof -
      have "unat (word_of_nat (Suc (length xs)) :: u64) = Suc (length xs)"
        using snoc.prems by (subst unat_of_nat) simp
      then show ?thesis using False by (simp add: word_less_nat_alt add.commute)
    qed
    have "(\<forall>y \<in> set xs. y \<le> x) \<longleftrightarrow> Max (set xs) \<le> x" using False by simp
    then have srt: "sorted (xs @ [x]) \<longleftrightarrow> sorted xs \<and> Max (set xs) \<le> x" by (simp add: sorted_append)
    have mm: "Min (set (xs @ [x])) = (if x < Min (set xs) then x else Min (set xs))"
      "Max (set (xs @ [x])) = (if Max (set xs) < x then x else Max (set xs))"
      using False by (simp_all add: min_less_if max_less_if)
    have flag: "(if sorted xs \<and> True \<and> x < (if Max (set xs) < x then x else Max (set xs)) then False else sorted xs) = sorted (xs @ [x])"
      unfolding srt by (auto simp: not_less)
    have "length xs < 2 ^ 64" using snoc.prems by simp
    from snoc.IH[OF False this]
    have "fold stats_step (xs @ [x]) \<lparr>st_min = - 1, st_max = 0, st_count = 0, st_sorted = True\<rparr> =
      stats_step x \<lparr>st_min = Min (set xs), st_max = Max (set xs), st_count = word_of_nat (length xs), st_sorted = sorted xs\<rparr>"
      by simp
    also have "\<dots> = \<lparr>st_min = Min (set (xs @ [x])), st_max = Max (set (xs @ [x])),
        st_count = word_of_nat (length (xs @ [x])), st_sorted = sorted (xs @ [x])\<rparr>"
      unfolding stats_step_def Let_def segment_stats.simps mm flag[symmetric] using cnt by (simp add: add.commute)
    finally show ?thesis .
  qed
qed simp

lemma compute_stats_ok:
  assumes "distinct xs" "length xs < 2 ^ 64"
  shows "stats_ok (compute_stats xs) xs"
proof (cases "xs = []")
  case False
  have "st_count \<lparr>st_min = Min (set xs), st_max = Max (set xs), st_count = word_of_nat (length xs) :: u64, st_sorted = sorted xs\<rparr> \<noteq> 0"
    using False assms(2) by (simp add: word_unat_eq_iff unat_of_nat)
  then have eq: "compute_stats xs = \<lparr>st_min = Min (set xs), st_max = Max (set xs), st_count = word_of_nat (length xs), st_sorted = sorted xs\<rparr>"
    unfolding compute_stats_def stats_fold[OF False assms(2)] Let_def by simp
  have "Min (set xs) = hd xs" "Max (set xs) = last xs" if "sorted_wrt (<) xs"
    using strict_sorted_hd_last[OF that] False by (auto intro!: Min_eqI Max_eqI)
  with assms show ?thesis by (auto simp: stats_ok_def eq strict_sorted_iff)
qed (simp add: stats_ok_def compute_stats_def)

subsection \<open>Holes of a sorted sequence\<close>

lemma holes_in_filter:
  "sorted_wrt (<) R \<Longrightarrow> sorted_wrt (<) xs \<Longrightarrow> set xs \<subseteq> set R \<Longrightarrow> holes_in R xs = filter (\<lambda>v. v \<notin> set xs) R"
proof (induction R arbitrary: xs)
  case (Cons v R)
  show ?case
  proof (cases xs)
    case (Cons e es)
    show ?thesis
    proof (cases "e = v")
      case True
      have "v \<notin> set R" "set es \<subseteq> set R" using Cons Cons.prems True by auto
      then have "filter (\<lambda>v'. v' \<notin> set es) R = filter (\<lambda>v'. v' \<notin> set xs) R"
        using Cons True by (intro filter_cong) auto
      with Cons True Cons.IH[of es] Cons.prems \<open>set es \<subseteq> set R\<close> show ?thesis by simp
    next
      case False
      then have "v < e" using Cons Cons.prems by auto
      then have "\<forall>x \<in> set xs. v < x" using Cons Cons.prems(2) by (auto intro: less_trans)
      then have "v \<notin> set xs" by auto
      with Cons.IH[of xs] Cons.prems Cons False show ?thesis by auto
    qed
  qed (use Cons.IH[of "[]"] Cons.prems in simp)
qed simp

lemma range_inclusive_eq:
  assumes "lo \<le> hi" "hi \<noteq> - 1"
  shows "range_inclusive_vals lo hi = range_vals (lo, hi + 1)"
proof -
  have "hi < - 1" using assms(2) by (metis word_order.not_eq_extremum)
  then have "unat (hi + 1) = unat hi + 1" by (rule unat_add_1)
  then show ?thesis by (simp add: range_inclusive_vals_def range_vals_def)
qed

lemma holes_in_slice_eq:
  assumes "sorted_wrt (<) xs" "xs \<noteq> []" "last xs \<noteq> - 1"
  shows "holes_in_slice (hd xs) (last xs) xs = filter (\<lambda>v. v \<notin> set xs) (range_vals (hd xs, last xs + 1))"
    "set xs \<subseteq> set (range_vals (hd xs, last xs + 1))" "hd xs \<le> last xs + 1" "unat (last xs + 1) = unat (last xs) + 1"
    "hd xs \<le> last xs"
proof -
  have "last xs < - 1" using assms(3) by (metis word_order.not_eq_extremum)
  then show u: "unat (last xs + 1) = unat (last xs) + 1" by (rule unat_add_1)
  show le: "hd xs \<le> last xs" using strict_sorted_hd_last(1)[OF assms(1), of "last xs"] assms(2) by simp
  then show "hd xs \<le> last xs + 1" by (simp add: word_le_nat_alt u)
  show sub: "set xs \<subseteq> set (range_vals (hd xs, last xs + 1))"
    using strict_sorted_hd_last[OF assms(1)] by (auto simp: word_less_nat_alt word_le_nat_alt u less_Suc_eq_le)
  show "holes_in_slice (hd xs) (last xs) xs = filter (\<lambda>v. v \<notin> set xs) (range_vals (hd xs, last xs + 1))"
    unfolding holes_in_slice_def range_inclusive_eq[OF le assms(3)]
    using assms(1) sub by (intro holes_in_filter) simp_all
qed

lemma filter_range_vals:
  assumes "sorted_wrt (<) xs" "set xs \<subseteq> set (range_vals r)"
  shows "filter (\<lambda>v. v \<in> set xs) (range_vals r) = xs"
  using assms by (intro strict_sorted_list_unique sorted_wrt_filter) auto

lemma n_holes_eq:
  assumes "sorted_wrt (<) xs" "xs \<noteq> []" "length xs < 2 ^ 64"
    "st_min stats = hd xs" "st_max stats = last xs" "st_count stats = word_of_nat (length xs)"
  shows "unat (n_holes stats) + length xs = unat (last xs) - unat (hd xs) + 1"
proof -
  have le: "hd xs \<le> last xs" using strict_sorted_hd_last(1)[OF assms(1), of "last xs"] assms(2) by simp
  have c: "unat (st_count stats) = length xs" "st_count stats \<noteq> 0"
    using assms(2,3,6) by (simp_all add: unat_of_nat word_unat_eq_iff)
  have "length xs = card (set xs)" using strict_sorted_distinct[OF assms(1)] by (simp add: distinct_card)
  also have "\<dots> = card (unat ` set xs)" by (intro card_image[symmetric]) (simp add: inj_on_def word_unat_eq_iff)
  also have "unat ` set xs \<subseteq> {unat (hd xs)..unat (last xs)}"
    using strict_sorted_hd_last[OF assms(1)] by (auto simp: word_le_nat_alt)
  then have "card (unat ` set xs) \<le> unat (last xs) - unat (hd xs) + 1"
    using card_mono[of "{unat (hd xs)..unat (last xs)}" "unat ` set xs"] by simp
  finally have len: "length xs \<le> unat (last xs) - unat (hd xs) + 1" .
  have b: "unat (last xs) < 2 ^ 64" by (rule unat_u64_bound)
  have d: "unat (ucast (last xs) - ucast (hd xs) + 1 :: u128) = unat (last xs) - unat (hd xs) + 1"
  proof -
    have "unat (ucast (last xs) - ucast (hd xs) :: u128) = unat (last xs) - unat (hd xs)"
      using le by (simp add: unat_diff_word word_le_nat_alt unat_ucast_up)
    then show ?thesis using b by (simp add: unat_word_ariths)
  qed
  have "unat (n_holes stats) = unat (last xs) - unat (hd xs) + 1 - length xs"
    using c len d assms(4,5) unfolding n_holes_def Let_def
    by (simp add: unat_sub word_le_nat_alt unat_ucast_up)
  with len show ?thesis by simp
qed

lemma foldr_res_clear:
  "bitmap_wf bm \<Longrightarrow> (\<And>h. h \<in> set hs \<Longrightarrow> f h < bm_len bm) \<Longrightarrow>
   \<exists>bm'. foldr_res (\<lambda>h bm. bitmap_clear bm (f h)) hs bm = Inr bm' \<and> bitmap_wf bm' \<and> bm_len bm' = bm_len bm \<and>
     (\<forall>j < bm_len bm. bitmap_bits bm' ! j \<longleftrightarrow> bitmap_bits bm ! j \<and> j \<notin> f ` set hs)"
proof (induction hs arbitrary: bm)
  case (Cons h hs)
  obtain bm1 where bm1: "bitmap_clear bm (f h) = Inr bm1" "bitmap_wf bm1" "bm_len bm1 = bm_len bm"
    "bitmap_bits bm1 = (bitmap_bits bm)[f h := False]"
    using bitmap_clear_eq[of bm "f h"] Cons.prems by auto
  obtain bm' where bm': "foldr_res (\<lambda>h bm. bitmap_clear bm (f h)) hs bm1 = Inr bm'" "bitmap_wf bm'"
    "bm_len bm' = bm_len bm" "\<And>j. j < bm_len bm \<Longrightarrow> bitmap_bits bm' ! j \<longleftrightarrow> bitmap_bits bm1 ! j \<and> j \<notin> f ` set hs"
    using Cons.IH[of bm1] Cons.prems(2) bm1 by auto
  have "bitmap_bits bm' ! j \<longleftrightarrow> bitmap_bits bm ! j \<and> j \<notin> f ` set (h # hs)" if "j < bm_len bm" for j
    using bm'(4)[OF that] bm1(4) that Cons.prems(1) by (cases "j = f h") auto
  with bm1(1) bm'(1-3) show ?case by auto
qed simp

subsection \<open>Encoding a sequence\<close>

lemma bitmap_of_holes:
  assumes xs: "sorted_wrt (<) xs" "xs \<noteq> []" "last xs \<noteq> - 1"
  shows "\<exists>bm. foldr_res (\<lambda>hole bm. bitmap_clear bm (unat (hole - hd xs))) (holes_in_slice (hd xs) (last xs) xs)
      (bitmap_new_full (unat (last xs - hd xs) + 1)) = Inr bm \<and>
    segment_wf (SegRangeWithBitmap (hd xs, last xs + 1) bm) \<and>
    segment_vals (SegRangeWithBitmap (hd xs, last xs + 1) bm) = xs"
proof -
  let ?r = "(hd xs, last xs + 1)" and ?n = "unat (last xs - hd xs) + 1"
  note H = holes_in_slice_eq[OF xs]
  have n: "?n = range_span ?r" using H(4,5) by (simp add: range_span_def unat_diff_word word_le_nat_alt Suc_diff_le)
  have full: "bitmap_wf (bitmap_new_full ?n)" "bm_len (bitmap_new_full ?n) = ?n" "bitmap_bits (bitmap_new_full ?n) = replicate ?n True"
    using bitmap_new_full_eq[of ?n] by simp_all
  have off: "unat (h - hd xs) = unat h - unat (hd xs)" "unat (h - hd xs) < ?n" if "h \<in> set (range_vals ?r)" for h
    using that unfolding n by (auto simp: range_span_def unat_diff_word word_less_nat_alt word_le_nat_alt)
  obtain bm where bm: "foldr_res (\<lambda>hole bm. bitmap_clear bm (unat (hole - hd xs))) (holes_in_slice (hd xs) (last xs) xs)
      (bitmap_new_full ?n) = Inr bm" "bitmap_wf bm" "bm_len bm = ?n"
    "\<And>j. j < ?n \<Longrightarrow> bitmap_bits bm ! j \<longleftrightarrow> j \<notin> (\<lambda>h. unat (h - hd xs)) ` set (holes_in_slice (hd xs) (last xs) xs)"
  proof -
    have "\<And>h. h \<in> set (holes_in_slice (hd xs) (last xs) xs) \<Longrightarrow> unat (h - hd xs) < bm_len (bitmap_new_full ?n)"
      using off(2) unfolding H(1) full(2) by simp
    from foldr_res_clear[where f = "\<lambda>h. unat (h - hd xs)", OF full(1) this] obtain bm where bm: "foldr_res (\<lambda>hole bm. bitmap_clear bm (unat (hole - hd xs)))
        (holes_in_slice (hd xs) (last xs) xs) (bitmap_new_full ?n) = Inr bm" "bitmap_wf bm" "bm_len bm = ?n"
      "\<And>j. j < ?n \<Longrightarrow> bitmap_bits bm ! j \<longleftrightarrow> replicate ?n True ! j \<and>
        j \<notin> (\<lambda>h. unat (h - hd xs)) ` set (holes_in_slice (hd xs) (last xs) xs)"
      unfolding full(2,3) by blast
    show ?thesis by (rule that[OF bm(1-3)]) (use bm(4) in \<open>simp only: nth_replicate simp_thms\<close>)
  qed
  have wf: "segment_wf (SegRangeWithBitmap ?r bm)" using bm(2,3) n H(3) by simp
  have bit: "bitmap_bits bm ! unat (v - hd xs) \<longleftrightarrow> v \<in> set xs" if v: "v \<in> set (range_vals ?r)" for v
  proof -
    have "unat (v - hd xs) = unat (h - hd xs) \<longleftrightarrow> v = h" if "h \<in> set (range_vals ?r)" for h
      using v that by (auto simp: word_unat_eq_iff unat_diff_word word_le_nat_alt)
    then show ?thesis using bm(4)[OF off(2)[OF v]] v unfolding H(1) by (auto simp: image_iff)
  qed
  have "segment_vals (SegRangeWithBitmap ?r bm) = filter (\<lambda>v. bitmap_bits bm ! unat (v - hd xs)) (range_vals ?r)"
    using bitmap_filter_vals[OF wf] by simp
  also have "\<dots> = filter (\<lambda>v. v \<in> set xs) (range_vals ?r)" using bit by (intro filter_cong refl)
  finally show ?thesis using bm(1) wf filter_range_vals[OF xs(1) H(2)] by auto
qed

lemma holes_segment:
  assumes xs: "sorted_wrt (<) xs" "xs \<noteq> []" "last xs \<noteq> - 1"
  defines "seg \<equiv> SegRangeWithHoles (hd xs, last xs + 1) (enc_from_vec (sort (holes_in_slice (hd xs) (last xs) xs)))"
  shows "segment_wf seg" "segment_vals seg = xs"
proof -
  note H = holes_in_slice_eq[OF xs]
  have srt: "sorted_wrt (<) (holes_in_slice (hd xs) (last xs) xs)" unfolding H(1) by (rule sorted_wrt_filter) simp
  then have s: "sort (holes_in_slice (hd xs) (last xs) xs) = holes_in_slice (hd xs) (last xs) xs"
    by (intro sort_key_id_if_sorted) (simp add: strict_sorted_sorted)
  show "segment_wf seg" unfolding seg_def s using srt H(3) by (auto simp: H(1) list_all_set)
  have "segment_vals seg = filter (\<lambda>v. v \<in> set xs) (range_vals (hd xs, last xs + 1))"
    unfolding seg_def s by (auto simp: H(1) intro!: filter_cong)
  then show "segment_vals seg = xs" using filter_range_vals[OF xs(1) H(2)] by simp
qed

lemma range_segment:
  fixes xs :: "u64 list"
  assumes xs: "sorted_wrt (<) xs" "xs \<noteq> []" "last xs \<noteq> - 1" "length xs = unat (last xs) - unat (hd xs) + 1"
  shows "fst (hd xs, last xs + 1) \<le> snd (hd xs, last xs + 1)" "range_vals (hd xs, last xs + 1) = xs"
proof -
  note H = holes_in_slice_eq[OF xs(1-3)]
  show "fst (hd xs, last xs + 1) \<le> snd (hd xs, last xs + 1)" using H(3) by simp
  have "card (set xs) = card (set (range_vals (hd xs, last xs + 1)))"
    using xs(4) H(4,5) strict_sorted_distinct[OF xs(1)]
    by (simp only: distinct_card distinct_range_vals length_range_vals) (simp add: word_le_nat_alt)
  then have "set xs = set (range_vals (hd xs, last xs + 1))" using H(2) by (intro card_subset_eq) simp_all
  then show "range_vals (hd xs, last xs + 1) = xs" using xs(1) by (intro strict_sorted_list_unique) simp_all
qed

text \<open>Every encoding the size estimate may pick stands for the sequence.\<close>

lemma from_stats_and_sequence_eq:
  assumes "stats_ok stats xs"
  shows "\<exists>seg. from_stats_and_sequence stats xs = Inr seg \<and> segment_wf seg \<and> segment_vals seg = xs"
proof (cases "st_sorted stats \<and> xs \<noteq> []")
  case True
  then have xs: "sorted_wrt (<) xs" "xs \<noteq> []" "length xs < 2 ^ 64" "st_min stats = hd xs" "st_max stats = last xs"
    "st_count stats = word_of_nat (length xs)" using assms by (simp_all add: stats_ok_def)
  have c: "st_count stats \<noteq> 0" using xs(2,3,6) by (simp add: word_unat_eq_iff unat_of_nat)
  have arr: "segment_wf (SegSortedArray (enc_from_vec xs))" "segment_vals (SegSortedArray (enc_from_vec xs)) = xs"
    using xs(1) by simp_all
  show ?thesis
  proof (cases "last xs = - 1")
    case True
    then have "checked_add (last xs) 1 = None" by (simp add: checked_add_1)
    with xs c \<open>st_sorted stats \<and> xs \<noteq> []\<close> arr show ?thesis by (auto simp: from_stats_and_sequence_def Let_def)
  next
    case False
    then have ca: "checked_add (last xs) 1 = Some (last xs + 1)" by (simp add: checked_add_1)
    show ?thesis
    proof (cases "n_holes stats = 0")
      case True
      then have "length xs = unat (last xs) - unat (hd xs) + 1" using n_holes_eq[OF xs(1-6)] by simp
      from range_segment[OF xs(1,2) False this] show ?thesis
        using True ca xs(4,5) c \<open>st_sorted stats \<and> xs \<noteq> []\<close> by (simp add: from_stats_and_sequence_def Let_def)
    next
      case nh: False
      show ?thesis
        using nh ca xs(4,5) c \<open>st_sorted stats \<and> xs \<noteq> []\<close> holes_segment[OF xs(1,2) False] bitmap_of_holes[OF xs(1,2) False] arr
        by (cases "sorted_sequence_sizes stats")
          (auto simp: from_stats_and_sequence_def Let_def simp del: segment_wf.simps segment_vals.simps)
    qed
  qed
next
  case False
  then show ?thesis using assms
    by (auto simp: stats_ok_def from_stats_and_sequence_def Let_def range_vals_empty split: if_splits)
qed

lemma segment_from_slice_eq:
  assumes "distinct xs" "length xs < 2 ^ 64"
  shows "\<exists>seg. segment_from_slice xs = Inr seg \<and> segment_wf seg \<and> segment_vals seg = xs"
  unfolding segment_from_slice_def by (rule from_stats_and_sequence_eq[OF compute_stats_ok[OF assms]])

lemma segment_slice_eq:
  assumes "segment_wf seg" "length (segment_vals seg) < 2 ^ 64"
  shows "\<exists>seg'. segment_slice seg offset len = Inr seg' \<and> segment_wf seg' \<and>
    segment_vals seg' = take len (drop offset (segment_vals seg))"
proof (cases "len = 0")
  case True
  then show ?thesis by (simp add: segment_slice_def range_vals_empty)
next
  case False
  let ?xs = "take len (drop offset (segment_vals seg))"
  have gen: "\<exists>seg'. bindr (segment_iter seg) (\<lambda>vals. segment_from_slice (take len (drop offset vals))) = Inr seg' \<and>
      segment_wf seg' \<and> segment_vals seg' = ?xs"
    using segment_from_slice_eq[of ?xs] segment_vals_distinct[OF assms(1)] assms
    by (simp add: segment_iter_eq)
  show ?thesis
  proof (cases "\<exists>r. seg = SegRange r \<and> offset + len < 2 ^ 64 \<and> word_of_nat (offset + len) \<le> snd r - fst r")
    case True
    then obtain r where r: "seg = SegRange r" "offset + len < 2 ^ 64" "word_of_nat (offset + len) \<le> snd r - fst r" by blast
    have wf: "fst r \<le> snd r" using assms(1) r(1) by simp
    have le: "offset + len \<le> range_span r"
      using r(2,3) wf by (simp add: word_le_nat_alt unat_diff_word unat_of_nat range_span_def flip: of_nat_add)
    have u: "unat (fst r + word_of_nat offset) = unat (fst r) + offset"
      "unat (fst r + word_of_nat (offset + len)) = unat (fst r) + offset + len"
      using unat_offset_val[OF wf] le by (simp_all add: add.assoc del: of_nat_add)
    have "range_vals (fst r + word_of_nat offset, fst r + word_of_nat (offset + len)) = ?xs"
      using le u by (intro nth_equalityI) (auto simp: r(1) range_span_def nth_range_vals)
    moreover have "fst r + word_of_nat offset \<le> fst r + word_of_nat (offset + len)" using u by (simp add: word_le_nat_alt)
    ultimately show ?thesis using False r by (simp add: segment_slice_def Let_def add.assoc)
  next
    case no: False
    then show ?thesis using False gen by (cases seg) (auto simp: segment_slice_def Let_def)
  qed
qed

subsection \<open>Appending a new highest value\<close>

lemma unat_max_offset: "LENGTH('a::len) \<le> 64 \<Longrightarrow> base \<le> v \<Longrightarrow> v - base \<le> (ucast (- 1 :: 'a word) :: u64) \<Longrightarrow>
    base + ucast (ucast (v - base) :: 'a word) = v \<and> unat base + unat (ucast (v - base) :: 'a word) < 2 ^ 64"
  using offset_encode[where ?'a = 'a, of base v v] by simp

lemma enc_push_high_eq:
  assumes "enc_wf a"
  shows "enc_iter (enc_push_high a v) = enc_iter a @ [v]" "enc_wf (enc_push_high a v)"
proof -
  have "enc_iter (enc_push_high a v) = enc_iter a @ [v] \<and> enc_wf (enc_push_high a v)"
  proof (cases a)
    case (EncU16 base offs)
    have up: "(ucast (ucast (x :: u16) :: u32) :: u64) = ucast x" "unat (ucast (x :: u16) :: u32) = unat x" for x
      by (simp_all add: word_unat_eq_iff unat_ucast_up)
    show ?thesis
    proof (cases "base \<le> v")
      case True
      have "v - base \<le> ucast (- 1 :: u16) \<Longrightarrow> ?thesis"
        using EncU16 assms True unat_max_offset[where ?'a = 16, of base v] by (auto simp: offsets_fit_def)
      moreover have "\<not> v - base \<le> ucast (- 1 :: u16) \<Longrightarrow> v - base \<le> ucast (- 1 :: u32) \<Longrightarrow> ?thesis"
        using EncU16 assms True unat_max_offset[where ?'a = 32, of base v]
        by (auto simp: offsets_fit_def list_all_iff up)
      moreover have "\<not> v - base \<le> ucast (- 1 :: u16) \<Longrightarrow> \<not> v - base \<le> ucast (- 1 :: u32) \<Longrightarrow> ?thesis"
        using EncU16 True by (simp add: Let_def)
      ultimately show ?thesis by blast
    qed (use EncU16 in \<open>simp add: Let_def\<close>)
  next
    case (EncU32 base offs)
    show ?thesis
    proof (cases "base \<le> v \<and> v - base \<le> ucast (- 1 :: u32)")
      case True
      then show ?thesis using EncU32 assms unat_max_offset[where ?'a = 32, of base v] by (auto simp: offsets_fit_def)
    qed (use EncU32 in \<open>auto simp: Let_def checked_sub_def\<close>)
  qed simp
  then show "enc_iter (enc_push_high a v) = enc_iter a @ [v]" "enc_wf (enc_push_high a v)" by simp_all
qed

lemma segment_range_Some:
  "segment_bounds seg = Some r \<Longrightarrow> segment_range seg = range_inclusive_of r"
  by (cases seg) simp_all

lemma range_vals_snoc:
  assumes "a \<le> v" "v \<noteq> - 1"
  shows "range_vals (a, v + 1) = range_vals (a, v) @ [v]" "unat (v + 1) = unat v + 1"
proof -
  have "v < - 1" using assms(2) by (metis word_order.not_eq_extremum)
  then show u: "unat (v + 1) = unat v + 1" by (rule unat_add_1)
  show "range_vals (a, v + 1) = range_vals (a, v) @ [v]"
    using assms(1) by (simp add: range_vals_def u word_le_nat_alt)
qed

lemma push_high_holes:
  assumes "segment_wf (SegRangeWithHoles r holes)" "snd r \<le> v" "v \<noteq> - 1"
    "enc_wf holes'" "enc_iter holes' = enc_iter holes @ range_vals (snd r, v)"
  shows "segment_wf (SegRangeWithHoles (fst r, v + 1) holes')"
    "segment_vals (SegRangeWithHoles (fst r, v + 1) holes') = segment_vals (SegRangeWithHoles r holes) @ [v]"
proof -
  have wf: "fst r \<le> snd r" "sorted_wrt (<) (enc_iter holes)" "\<And>h. h \<in> set (enc_iter holes) \<Longrightarrow> fst r \<le> h \<and> h < snd r"
    using assms(1) by (simp_all add: list_all_set)
  have le: "fst r \<le> v" using wf(1) assms(2) by simp
  note snoc = range_vals_snoc[OF le assms(3)]
  have v1: "v < v + 1" using snoc(2) by (simp add: word_less_nat_alt)
  have srt: "sorted_wrt (<) (enc_iter holes @ range_vals (snd r, v))"
    using wf by (fastforce simp: sorted_wrt_append)
  show "segment_wf (SegRangeWithHoles (fst r, v + 1) holes')"
    using wf le assms(2,4,5) srt v1 by (fastforce simp: list_all_set)
  have "range_vals (fst r, v + 1) = range_vals r @ range_vals (snd r, v) @ [v]"
    using snoc(1) range_vals_append[OF wf(1) assms(2)] by simp
  moreover have "filter (\<lambda>x. x \<notin> set (enc_iter holes')) (range_vals r) = filter (\<lambda>x. x \<notin> set (enc_iter holes)) (range_vals r)"
    unfolding assms(5) by (intro filter_cong) auto
  moreover have "filter (\<lambda>x. x \<notin> set (enc_iter holes')) (range_vals (snd r, v)) = []"
    unfolding assms(5) by (auto simp: filter_empty_conv)
  moreover have "v \<notin> set (enc_iter holes')" using wf(3) assms(2) unfolding assms(5) by fastforce
  ultimately show "segment_vals (SegRangeWithHoles (fst r, v + 1) holes') = segment_vals (SegRangeWithHoles r holes) @ [v]"
    by simp
qed

lemma push_high_bitmap:
  assumes "segment_wf (SegRangeWithBitmap r bm)" "snd r \<le> v" "v \<noteq> - 1"
  shows "\<exists>bm'. push_high (SegRangeWithBitmap r bm) v = Inr (SegRangeWithBitmap (fst r, v + 1) bm') \<and>
    segment_wf (SegRangeWithBitmap (fst r, v + 1) bm') \<and>
    segment_vals (SegRangeWithBitmap (fst r, v + 1) bm') = segment_vals (SegRangeWithBitmap r bm) @ [v]"
proof -
  let ?gap = "unat (v - snd r)" and ?bits = "bitmap_bits bm"
  have wf: "fst r \<le> snd r" "bitmap_wf bm" "bm_len bm = range_span r" using assms(1) by simp_all
  have le: "fst r \<le> v" using wf(1) assms(2) by simp
  obtain bm' where bm': "bitmap_from_bools (bitmap_iter bm @ replicate ?gap False @ [True]) = Inr bm'" "bitmap_wf bm'"
    "bitmap_bits bm' = ?bits @ replicate ?gap False @ [True]"
    using bitmap_from_bools_eq[of "bitmap_iter bm @ replicate ?gap False @ [True]"] by (auto simp: bitmap_iter_eq)
  have u: "unat (v + 1) = unat v + 1" by (rule range_vals_snoc(2)[OF le assms(3)])
  have gap: "?gap = unat v - unat (snd r)" using assms(2) by (simp add: unat_diff_word)
  have len: "bm_len bm' = bm_len bm + ?gap + 1"
    using arg_cong[OF bm'(3), of length] length_bitmap_bits[OF bm'(2)] length_bitmap_bits[OF wf(2)] by simp
  have span: "range_span (fst r, v + 1) = bm_len bm'"
    using wf(1,3) assms(2) le len gap u by (simp add: range_span_def word_le_nat_alt)
  have "[0..<bm_len bm'] = [0..<bm_len bm] @ [bm_len bm..<bm_len bm + ?gap] @ [bm_len bm + ?gap]"
    unfolding len by (simp add: upt_add_eq_append[of 0 "bm_len bm" ?gap, simplified])
  moreover have "filter (\<lambda>i. bitmap_bits bm' ! i) [0..<bm_len bm] = bitmap_present bm"
    unfolding bitmap_present_def bm'(3) using wf(2) by (intro filter_cong) (simp_all add: nth_append)
  moreover have "filter (\<lambda>i. bitmap_bits bm' ! i) [bm_len bm..<bm_len bm + ?gap] = []"
    unfolding bm'(3) using wf(2) by (auto simp: filter_empty_conv nth_append)
  moreover have "bitmap_bits bm' ! (bm_len bm + ?gap)" unfolding bm'(3) using wf(2) by (simp add: nth_append)
  ultimately have "bitmap_present bm' = bitmap_present bm @ [bm_len bm + ?gap]"
    by (simp add: bitmap_present_def)
  moreover have "fst r + word_of_nat (bm_len bm + ?gap) = v"
    using wf assms(2) le gap by (simp add: range_span_def word_le_nat_alt word_unat_eq_iff unat_offset_val flip: of_nat_add)
  ultimately show ?thesis
    using bm'(1,2) span u le wf(1) by (simp add: offset_vals_def word_le_nat_alt)
qed

text \<open>An empty range with holes, a bitmap or runs is accepted by the decoder; appending to it
  needs a value at or above its start, so it is excluded here.\<close>

fun appendable :: "u64_segment \<Rightarrow> bool" where
  "appendable (SegRangeWithHoles r _) \<longleftrightarrow> fst r < snd r"
| "appendable (SegRangeWithBitmap r _) \<longleftrightarrow> fst r < snd r"
| "appendable _ \<longleftrightarrow> True"

lemma not_below_end:
  assumes "segment_bounds seg = Some r" "fst r < snd r" "\<not> (case segment_range seg of Some (lo, hi) \<Rightarrow> v \<le> hi | None \<Rightarrow> False)"
  shows "snd r \<le> v"
proof -
  have "snd r - 1 < v" using assms by (simp add: segment_range_Some range_inclusive_of_def range_is_empty_def not_le)
  moreover have "unat (snd r - 1) = unat (snd r) - 1"
    using assms(2) by (subst unat_diff_word) (auto simp: word_le_nat_alt word_less_nat_alt)
  ultimately show ?thesis by (simp add: word_le_nat_alt word_less_nat_alt)
qed

lemma new_high_above:
  assumes "segment_wf seg" "\<not> (case segment_range seg of Some (lo, hi) \<Rightarrow> v \<le> hi | None \<Rightarrow> False)" "x \<in> set (segment_vals seg)"
  shows "x < v"
proof (cases "segment_range seg")
  case None
  then show ?thesis using segment_range_None[OF assms(1)] assms(3) by simp
next
  case (Some p)
  then show ?thesis using assms segment_range_bounds[OF assms(1), of "fst p" "snd p" x] by (cases p) auto
qed

lemma push_high_eq:
  assumes "segment_wf seg" "appendable seg" "v \<noteq> - 1" "length (segment_vals seg) < 2 ^ 64 - 1"
    "\<not> (case segment_range seg of Some (lo, hi) \<Rightarrow> v \<le> hi | None \<Rightarrow> False)"
  shows "\<exists>seg'. push_high seg v = Inr seg' \<and> segment_wf seg' \<and> segment_vals seg' = segment_vals seg @ [v]"
proof -
  have above: "\<forall>x \<in> set (segment_vals seg). x < v" using new_high_above[OF assms(1,5)] by blast
  show ?thesis
  proof (cases seg)
    case (SegRange r)
    have wf: "fst r \<le> snd r" using assms(1) SegRange by simp
    show ?thesis
    proof (cases "fst r = snd r")
      case True
      then show ?thesis using SegRange range_vals_snoc[OF order.refl assms(3)]
        by (simp add: range_vals_empty word_le_nat_alt)
    next
      case ne: False
      then have le: "snd r \<le> v" using not_below_end[OF _ _ assms(5), of r] SegRange wf by simp
      then have le1: "fst r \<le> v" using wf by simp
      note snoc = range_vals_snoc[OF le1 assms(3)]
      show ?thesis
      proof (cases "v = snd r")
        case True
        then show ?thesis using SegRange ne snoc le1 by (cases r) (simp add: word_le_nat_alt)
      next
        case False
        have "segment_wf (SegRangeWithHoles r (EncU64 []))" using wf by simp
        from push_high_holes[OF this le assms(3), of "EncU64 (range_vals (snd r, v))"] False ne SegRange
        show ?thesis by simp
      qed
    qed
  next
    case (SegRangeWithHoles r holes)
    then have le: "snd r \<le> v" using not_below_end[OF _ _ assms(5), of r] assms(2) by simp
    show ?thesis
    proof (cases "v = snd r")
      case True
      with push_high_holes[OF assms(1)[unfolded SegRangeWithHoles] le assms(3), of holes] SegRangeWithHoles assms(1)
      show ?thesis by (simp add: range_vals_empty)
    next
      case False
      with push_high_holes[OF assms(1)[unfolded SegRangeWithHoles] le assms(3), of "EncU64 (enc_iter holes @ range_vals (snd r, v))"]
        SegRangeWithHoles show ?thesis by simp
    qed
  next
    case (SegRangeWithBitmap r bm)
    then have "snd r \<le> v" using not_below_end[OF _ _ assms(5), of r] assms(2) by simp
    from push_high_bitmap[OF assms(1)[unfolded SegRangeWithBitmap] this assms(3)] SegRangeWithBitmap show ?thesis by auto
  next
    case (SegRanges r runs)
    have "distinct (segment_vals seg @ [v])" using segment_vals_distinct[OF assms(1)] above by auto
    from segment_from_slice_eq[OF this] assms(4) SegRanges segment_iter_eq[OF assms(1)] show ?thesis by simp
  qed (use assms(1) above in \<open>auto simp: enc_push_high_eq sorted_wrt_append\<close>)
qed

lemma with_new_high_eq:
  assumes "segment_wf seg" "appendable seg" "v \<noteq> - 1" "length (segment_vals seg) < 2 ^ 64 - 1"
  shows "if (case segment_range seg of Some (lo, hi) \<Rightarrow> v \<le> hi | None \<Rightarrow> False)
    then with_new_high seg v = Inl InvalidInput
    else \<exists>seg'. with_new_high seg v = Inr seg' \<and> segment_wf seg' \<and> segment_vals seg' = segment_vals seg @ [v]"
  using push_high_eq[OF assms] by (simp add: with_new_high_def)

subsection \<open>Deleting values\<close>

lemma drop_matching_filter:
  "vals = filter (\<lambda>v. v \<in> S) xs \<Longrightarrow> drop_matching xs vals = filter (\<lambda>v. v \<notin> S) xs"
proof (induction xs arbitrary: vals)
  case (Cons x xs)
  show ?case
  proof (cases "x \<in> S")
    case False
    then have vals: "vals = filter (\<lambda>v. v \<in> S) xs" using Cons.prems by simp
    have "hd vals \<noteq> x" if "vals \<noteq> []"
      using that False hd_in_set[OF that] unfolding vals by auto
    with Cons.IH[OF vals] False show ?thesis by (cases vals) auto
  qed (use Cons in simp)
qed simp

lemma segment_delete_eq:
  assumes "segment_wf seg" "length (segment_vals seg) < 2 ^ 64" "vals = filter (\<lambda>v. v \<in> set vals) (segment_vals seg)"
  shows "\<exists>seg'. segment_delete seg vals = Inr seg' \<and> segment_wf seg' \<and>
    segment_vals seg' = filter (\<lambda>v. v \<notin> set vals) (segment_vals seg)"
proof -
  let ?kept = "filter (\<lambda>v. v \<notin> set vals) (segment_vals seg)"
  have "drop_matching (segment_vals seg) vals = ?kept" by (rule drop_matching_filter[OF assms(3)])
  moreover have "distinct ?kept" "length ?kept < 2 ^ 64"
    using segment_vals_distinct[OF assms(1)] assms(2) by (simp_all add: le_less_trans[OF length_filter_le])
  ultimately show ?thesis
    using from_stats_and_sequence_eq[OF compute_stats_ok, of ?kept]
    by (simp add: segment_delete_def segment_iter_eq[OF assms(1)] Let_def)
qed

subsection \<open>Masking positions\<close>

definition mask_kept :: "u64 list \<Rightarrow> u32 list \<Rightarrow> u64 list" where
  "mask_kept vals positions = nths vals {i. i \<notin> unat ` set positions}"

lemma drop_positions_nths:
  assumes "sorted_wrt (<) positions" "\<And>p. p \<in> set positions \<Longrightarrow> i \<le> unat p" "i + length vals \<le> 2 ^ 32"
  shows "drop_positions i vals positions = nths vals {j. i + j \<notin> unat ` set positions}"
  using assms
proof (induction vals arbitrary: i positions)
  case (Cons v vals)
  have i: "unat (word_of_nat i :: u32) = i" using Cons.prems(3) by (simp add: unat_of_nat)
  have shift: "{j. Suc j \<in> {j. i + j \<notin> unat ` set positions}} = {j. Suc i + j \<notin> unat ` set positions}" by simp
  show ?case
  proof (cases "positions \<noteq> [] \<and> hd positions = word_of_nat i")
    case True
    then obtain rest where ps: "positions = word_of_nat i # rest" by (metis list.collapse)
    have "Suc i \<le> unat p" if "p \<in> set rest" for p
      using Cons.prems(1) ps i that by (auto simp: word_less_nat_alt Suc_le_eq)
    moreover have "{j. Suc i + j \<notin> unat ` set positions} = {j. Suc i + j \<notin> unat ` set rest}"
      using ps i by auto
    ultimately show ?thesis using Cons.IH[of rest "Suc i"] Cons.prems ps i by (simp add: nths_Cons shift)
  next
    case False
    have notin: "i \<notin> unat ` set positions"
    proof
      assume "i \<in> unat ` set positions"
      then obtain p where p: "p \<in> set positions" "unat p = i" by auto
      have "hd positions \<le> p" using strict_sorted_hd_last(1)[OF Cons.prems(1) p(1)] .
      moreover have "i \<le> unat (hd positions)" using Cons.prems(2) p(1) by (cases positions) auto
      ultimately have "unat (hd positions) = i" using p by (simp add: word_le_nat_alt)
      then show False using False p(1) i by (auto simp: word_unat_eq_iff)
    qed
    then have "Suc i \<le> unat p" if "p \<in> set positions" for p
      using Cons.prems(2)[OF that] that by (metis imageI le_antisym not_less_eq_eq)
    then have "drop_positions (Suc i) vals positions = nths vals {j. Suc i + j \<notin> unat ` set positions}"
      using Cons.IH[of positions "Suc i"] Cons.prems by simp
    then show ?thesis using False notin by (cases positions) (auto simp: nths_Cons shift)
  qed
qed simp

text \<open>The first unmasked position, found by comparing the sorted positions with the sequence of all positions.\<close>

lemma find_upt_Some:
  "\<exists>i < n. p i \<Longrightarrow> \<exists>i < n. find p [0..<n] = Some i \<and> p i \<and> (\<forall>j < i. \<not> p j)"
proof -
  assume "\<exists>i < n. p i"
  then obtain i where i: "find p [0..<n] = Some i" by (cases "find p [0..<n]") (auto simp: find_None_iff)
  then have "i < n \<and> p i \<and> (\<forall>j < i. \<not> p j)" by (auto simp: find_Some_iff)
  with i show ?thesis by blast
qed

lemma first_gap:
  fixes ps :: "nat list"
  assumes "sorted_wrt (<) ps" "ps \<noteq> []" "length ps < len"
  shows "\<exists>f < len. find (\<lambda>i. ps ! (i mod length ps) \<noteq> i) [0..<len] = Some f \<and> f \<notin> set ps \<and> (\<forall>j < f. j \<in> set ps)"
proof -
  define n P where def: "n = length ps" "P = (\<lambda>i. ps ! (i mod length ps) \<noteq> i)"
  have n: "0 < n" "n < len" using assms(2,3) by (simp_all add: def)
  have P_low: "P i \<longleftrightarrow> ps ! i \<noteq> i" if "i < n" for i using that by (simp add: def)
  have P_n: "P n" if "\<not> P 0" using that n by (simp add: def)
  have "\<exists>i < len. P i"
  proof (cases "P 0")
    case True
    then show ?thesis using n by (intro exI[of _ 0]) simp
  qed (use P_n n in blast)
  from find_upt_Some[OF this]
  obtain f where f: "f < len" "find P [0..<len] = Some f" "P f" "\<And>j. j < f \<Longrightarrow> \<not> P j" by blast
  have fn: "f \<le> n"
  proof (rule ccontr)
    assume "\<not> f \<le> n"
    then have "\<not> P 0" "\<not> P n" using f(4) by simp_all
    then show False using P_n by blast
  qed
  have nth: "ps ! j = j" if "j < f" for j using f(4)[OF that] P_low[of j] fn that by simp
  have "f \<notin> set ps"
  proof
    assume "f \<in> set ps"
    then obtain k where k: "k < n" "ps ! k = f" by (auto simp: in_set_conv_nth def)
    have "\<not> k < f" using nth[of k] k(2) by auto
    moreover have "k \<noteq> f" using f(3) P_low[of k] k by auto
    ultimately have fk: "f < k" by simp
    then have "ps ! f < f" using sorted_wrt_nth_less[OF assms(1) fk] k by (simp add: def)
    moreover have "f \<le> ps ! f"
    proof (cases f)
      case (Suc g)
      have "ps ! g < ps ! f" using sorted_wrt_nth_less[OF assms(1), of g f] fk k(1) Suc by (simp add: def)
      then show ?thesis using nth[of g] Suc by simp
    qed simp
    ultimately show False by simp
  qed
  moreover have "j \<in> set ps" if "j < f" for j
    using nth[OF that] nth_mem[of j ps] fn that by (simp add: def)
  ultimately show ?thesis using f(1,2) unfolding def by blast
qed

lemma word_neq_iff: "i < 2 ^ 32 \<Longrightarrow> (p :: u32) \<noteq> word_of_nat i \<longleftrightarrow> unat p \<noteq> i"
  by (auto simp: word_unat_eq_iff unat_of_nat)

lemma strict_sorted_map_unat: "sorted_wrt (<) (ps :: 'a::len word list) \<Longrightarrow> sorted_wrt (<) (map unat ps)"
  unfolding sorted_wrt_map word_less_nat_alt[symmetric] .

lemma first_unmasked_eq:
  assumes "sorted_wrt (<) positions" "positions \<noteq> []" "length positions < len" "len \<le> 2 ^ 32"
  shows "\<exists>f < len. first_unmasked len positions = Some f \<and> f \<notin> unat ` set positions \<and> (\<forall>j < f. j \<in> unat ` set positions)"
proof -
  let ?ps = "map unat positions"
  have "find (\<lambda>i. cycle_nth positions i \<noteq> word_of_nat i) [0..<len] = find (\<lambda>i. ?ps ! (i mod length ?ps) \<noteq> i) [0..<len]"
    using assms(2,4) by (intro find_cong) (simp_all add: cycle_nth_def word_neq_iff)
  then show ?thesis
    using first_gap[of ?ps len] assms strict_sorted_map_unat[OF assms(1)] by (simp add: first_unmasked_def)
qed

lemma last_unmasked_eq:
  assumes "sorted_wrt (<) positions" "positions \<noteq> []" "length positions < len" "len \<le> 2 ^ 32"
    "\<And>p. p \<in> set positions \<Longrightarrow> unat p < len"
  shows "\<exists>l < len. last_unmasked len positions = Some l \<and> l \<notin> unat ` set positions \<and>
    (\<forall>j. l < j \<longrightarrow> j < len \<longrightarrow> j \<in> unat ` set positions)"
proof -
  let ?ps = "map (\<lambda>p. len - 1 - unat p) (rev positions)"
  have srt: "sorted_wrt (<) ?ps"
    unfolding sorted_wrt_map sorted_wrt_rev
  proof (rule sorted_wrt_mono_rel[OF _ assms(1)])
    fix p q assume "p \<in> set positions" "q \<in> set positions" "p < q"
    then show "len - 1 - unat q < len - 1 - unat p" using assms(5)[of p] assms(5)[of q] by (simp add: word_less_nat_alt)
  qed
  have "find (\<lambda>j. cycle_nth (rev positions) j \<noteq> word_of_nat (len - 1 - j)) [0..<len] =
        find (\<lambda>i. ?ps ! (i mod length ?ps) \<noteq> i) [0..<len]"
  proof (intro find_cong refl)
    fix j assume "j \<in> set [0..<len]"
    then have j: "j < len" by simp
    let ?p = "rev positions ! (j mod length positions)"
    have "j mod length positions < length (rev positions)" using assms(2) by simp
    then have "?p \<in> set (rev positions)" by (rule nth_mem)
    then have "unat ?p < len" using assms(5) by simp
    moreover have "?ps ! (j mod length ?ps) = len - 1 - unat ?p" using assms(2) by simp
    moreover have "cycle_nth (rev positions) j = ?p" by (simp add: cycle_nth_def)
    ultimately show "(cycle_nth (rev positions) j \<noteq> word_of_nat (len - 1 - j)) = (?ps ! (j mod length ?ps) \<noteq> j)"
      using j assms(4) word_neq_iff[of "len - 1 - j" ?p] by (simp only:) linarith
  qed
  then obtain f where f: "f < len" "last_unmasked len positions = Some (len - 1 - f)" "f \<notin> set ?ps" "\<forall>j < f. j \<in> set ?ps"
    using first_gap[OF srt, of len] assms(2,3) by (auto simp: last_unmasked_def)
  have mem: "i \<in> set ?ps \<longleftrightarrow> len - 1 - i \<in> unat ` set positions" if "i < len" for i
  proof -
    have "i = len - 1 - unat p \<longleftrightarrow> len - 1 - i = unat p" if "p \<in> set positions" for p
      using assms(5)[OF that] \<open>i < len\<close> by linarith
    then show ?thesis by (auto simp: image_iff)
  qed
  show ?thesis
  proof (intro exI[of _ "len - 1 - f"] conjI allI impI)
    fix j assume "len - 1 - f < j" "j < len"
    then show "j \<in> unat ` set positions" using f(4) mem[of "len - 1 - j"] by auto
  qed (use f mem in auto)
qed

lemma nths_none: "(\<And>i. i < length xs \<Longrightarrow> i \<notin> A) \<Longrightarrow> nths xs A = []"
  by (induction xs arbitrary: A) (auto simp: nths_Cons)

lemma hd_nths:
  assumes "f < length xs" "f \<in> A" "\<And>j. j < f \<Longrightarrow> j \<notin> A"
  shows "nths xs A \<noteq> [] \<and> hd (nths xs A) = xs ! f"
proof -
  have "nths (take f xs) A = []" using assms by (intro nths_none) simp
  moreover have "xs = take f xs @ xs ! f # drop (Suc f) xs" using assms(1) by (rule id_take_nth_drop)
  moreover have "length (take f xs) = f" using assms(1) by simp
  ultimately show ?thesis
    using nths_append[of "take f xs" "xs ! f # drop (Suc f) xs" A] assms(2) by (simp add: nths_Cons)
qed

lemma last_nths:
  assumes "l < length xs" "l \<in> A" "\<And>j. l < j \<Longrightarrow> j < length xs \<Longrightarrow> j \<notin> A"
  shows "last (nths xs A) = xs ! l"
proof -
  have split: "xs = take l xs @ xs ! l # drop (Suc l) xs" using assms(1) by (rule id_take_nth_drop)
  have "nths (drop (Suc l) xs) {j. Suc (j + l) \<in> A} = []" using assms by (intro nths_none) simp
  moreover have "length (take l xs) = l" using assms(1) by simp
  ultimately show ?thesis
    using nths_append[of "take l xs" "xs ! l # drop (Suc l) xs" A] assms(2) split by (simp add: nths_Cons)
qed

lemma sorted_wrt_nths: "sorted_wrt R xs \<Longrightarrow> sorted_wrt R (nths xs A)"
  by (induction xs arbitrary: A) (auto simp: nths_Cons dest: in_set_nthsD)

lemma length_mask_kept:
  assumes "sorted_wrt (<) positions" "\<And>p. p \<in> set positions \<Longrightarrow> unat p < length vals"
  shows "length (mask_kept vals positions) = length vals - length positions"
proof -
  have "card (unat ` set positions) = length positions"
    using strict_sorted_distinct[OF assms(1)] by (subst card_image) (auto simp: inj_on_def distinct_card word_unat_eq_iff)
  moreover have "{i. i < length vals \<and> i \<notin> unat ` set positions} = {..<length vals} - unat ` set positions" by auto
  moreover have "unat ` set positions \<subseteq> {..<length vals}" using assms(2) by auto
  ultimately show ?thesis by (simp add: mask_kept_def length_nths card_Diff_subset)
qed

lemma segment_mask_eq:
  assumes "segment_wf seg" "sorted_wrt (<) positions" "length (segment_vals seg) \<le> 2 ^ 32"
    "\<And>p. p \<in> set positions \<Longrightarrow> unat p < length (segment_vals seg)"
  shows "\<exists>seg'. segment_mask seg positions = Inr seg' \<and> segment_wf seg' \<and> segment_vals seg' = mask_kept (segment_vals seg) positions"
proof -
  let ?vals = "segment_vals seg" and ?kept = "mask_kept (segment_vals seg) positions"
  note len = length_mask_kept[OF assms(2,4)]
  consider (none) "positions = []" | (all) "positions \<noteq> []" "length positions = length ?vals"
    | (some) "positions \<noteq> []" "length positions \<noteq> length ?vals" by blast
  then show ?thesis
  proof cases
    case none
    then show ?thesis using assms(1) by (simp add: segment_mask_def mask_kept_def nths_all)
  next
    case all
    then have "?kept = []" using len by simp
    with all show ?thesis by (simp add: segment_mask_def segment_len_eq[OF assms(1)] range_vals_empty)
  next
    case some
    have "length positions = card (unat ` set positions)"
      using strict_sorted_distinct[OF assms(2)] by (subst card_image) (auto simp: inj_on_def distinct_card word_unat_eq_iff)
    also have "\<dots> \<le> length ?vals" using card_mono[of "{..<length ?vals}" "unat ` set positions"] assms(4) by auto
    finally have lt: "length positions < length ?vals" using some(2) by simp
    obtain f where f: "f < length ?vals" "first_unmasked (length ?vals) positions = Some f"
      "f \<notin> unat ` set positions" "\<And>j. j < f \<Longrightarrow> j \<in> unat ` set positions"
      using first_unmasked_eq[OF assms(2) some(1) lt assms(3)] by blast
    obtain l where l: "l < length ?vals" "last_unmasked (length ?vals) positions = Some l"
      "l \<notin> unat ` set positions" "\<And>j. l < j \<Longrightarrow> j < length ?vals \<Longrightarrow> j \<in> unat ` set positions"
      using last_unmasked_eq[OF assms(2) some(1) lt assms(3,4)] by blast
    have "drop_positions 0 ?vals positions = ?kept"
      using drop_positions_nths[OF assms(2), of 0 ?vals] assms(3) by (simp add: mask_kept_def)
    moreover have "hd ?kept = ?vals ! f" "last ?kept = ?vals ! l"
      using hd_nths[OF f(1), of "{i. i \<notin> unat ` set positions}"] last_nths[OF l(1), of "{i. i \<notin> unat ` set positions}"] f(3,4) l(3,4)
      by (simp_all add: mask_kept_def)
    moreover have "distinct ?kept" "segment_sorted_kind seg \<Longrightarrow> sorted_wrt (<) ?kept"
      using segment_vals_distinct[OF assms(1)] segment_vals_sorted[OF assms(1)]
      by (simp_all add: mask_kept_def sorted_wrt_nths distinct_nthsI)
    moreover have "segment_get seg f = Inr (Some (?vals ! f))" "segment_get seg l = Inr (Some (?vals ! l))"
      using f(1) l(1) assms(3) by (simp_all add: segment_get_eq[OF assms(1)])
    moreover have "usize_sub (length ?vals) (length positions) = length ?kept" "length ?kept < 2 ^ 64"
      using lt len assms(3) by simp_all
    ultimately show ?thesis using some f(2) l(2) from_stats_and_sequence_eq[of
        "\<lparr>st_min = ?vals ! f, st_max = ?vals ! l, st_count = word_of_nat (length ?kept), st_sorted = segment_sorted_kind seg\<rparr>" ?kept]
      by (simp add: segment_mask_def segment_len_eq[OF assms(1)] segment_iter_eq[OF assms(1)] stats_ok_def)
  qed
qed

subsection \<open>Properties\<close>

text \<open>
  C8. Encoding a list of distinct row ids: whichever of the encodings the size estimates choose,
  the segment is well-formed and holds exactly the list, in its order.
\<close>

theorem from_slice_roundtrip:
  assumes "distinct xs" "length xs < 2 ^ 64"
  shows "\<exists>sg. segment_from_slice xs = Inr sg \<and> segment_wf sg \<and> segment_iter sg = Inr xs \<and> segment_len sg = Inr (length xs)"
  using segment_from_slice_eq[OF assms] segment_iter_eq segment_len_eq by fastforce

theorem from_slice_roundtrip_witness:
  "\<exists>sg. segment_from_slice [7, 3, 9] = Inr sg \<and> segment_wf sg \<and> segment_iter sg = Inr [7, 3, 9] \<and>
     segment_len sg = Inr (length [7, 3, 9 :: u64])"
  by (rule from_slice_roundtrip) simp_all

lemma with_new_high_wraps:
  "with_new_high (SegRange (5, - 1)) (- 1) = Inr (SegRange (5, 0))" "segment_iter (SegRange (5, 0)) = Inr []"
  by (simp_all add: with_new_high_def range_inclusive_of_def range_is_empty_def range_vals_def not_le word_less_nat_alt unat_minus_1)



text \<open>
  C10. Masking a segment by sorted positions removes exactly the values at these positions and keeps
  the order of the others, on every encoding and also when all values go.
\<close>

theorem segment_mask_correct:
  assumes "segment_wf sg" "sorted_wrt (<) positions" "length (segment_vals sg) \<le> 2 ^ 32"
    "\<forall>p \<in> set positions. unat p < length (segment_vals sg)"
  shows "\<exists>sg'. segment_mask sg positions = Inr sg' \<and> segment_wf sg' \<and>
    segment_iter sg' = Inr (nths (segment_vals sg) {i. i \<notin> unat ` set positions})"
  using segment_mask_eq[OF assms(1-3)] assms(4) segment_iter_eq by (fastforce simp: mask_kept_def)

theorem segment_mask_correct_witness:
  "\<exists>sg'. segment_mask (SegRange (5, 9)) [0, 2] = Inr sg' \<and> segment_wf sg' \<and>
     segment_iter sg' = Inr (nths (segment_vals (SegRange (5, 9))) {i. i \<notin> unat ` set [0, 2 :: u32]})"
  by (rule segment_mask_correct) (simp_all add: range_vals_def)

end
