(* ===== verification/Segment_Runs.thy ===== *)
theory Segment_Runs
  imports Segment_Updates
begin

text \<open>
  The maximal runs of consecutive ids of a segment. Every specialised scan - gaps between holes,
  gaps between hole runs, 64-bit word scan of a bitmap, packed arrays - yields exactly the runs that
  the plain loop \<open>value_runs\<close> finds in the values, and a list of ranges that fits a
  \<open>Ranges\<close> segment round-trips through it.
\<close>

definition ranges_sep :: "u64 range list \<Rightarrow> bool" where
  "ranges_sep rs \<longleftrightarrow> (\<forall>r \<in> set rs. fst r < snd r) \<and> sorted_wrt (\<lambda>a b. snd a < fst b) rs"

definition ranges_vals :: "u64 range list \<Rightarrow> u64 list" where
  "ranges_vals rs = concat (map range_vals rs)"

lemma ranges_vals_simps [simp]:
  "ranges_vals [] = []" "ranges_vals (r # rs) = range_vals r @ ranges_vals rs" "ranges_vals (rs @ qs) = ranges_vals rs @ ranges_vals qs"
  by (simp_all add: ranges_vals_def)

lemma ranges_sep_Cons:
  "ranges_sep (r # rs) \<longleftrightarrow> fst r < snd r \<and> (\<forall>q \<in> set rs. snd r < fst q) \<and> ranges_sep rs"
  by (auto simp: ranges_sep_def)

lemma take_run_range:
  "a \<le> b \<Longrightarrow> (rest \<noteq> [] \<Longrightarrow> hd rest \<noteq> b) \<Longrightarrow> take_run a (range_vals (a, b) @ rest) = (b, rest)"
proof (induction "unat b - unat a" arbitrary: a)
  case 0
  then have "a = b" by (simp add: word_le_nat_alt word_unat_eq_iff)
  with 0 show ?case by (cases rest) (auto simp: range_vals_empty)
next
  case (Suc d)
  then have lt: "a < b" by (simp add: word_less_nat_alt)
  have u: "unat (a + 1) = unat a + 1" by (rule unat_add_1[OF lt])
  then have "a + 1 \<le> b" using lt by (simp add: word_le_nat_alt word_less_nat_alt)
  then have "take_run (a + 1) (range_vals (a + 1, b) @ rest) = (b, rest)" using Suc u by simp
  then show ?case using range_vals_Cons[OF lt] by simp
qed

lemma saturating_add_1: "a < b \<Longrightarrow> saturating_add a 1 = a + 1" for a :: "'a::len word"
proof -
  assume "a < b"
  then have "a \<noteq> - 1" using word_order.extremum_strict by blast
  then show ?thesis by (simp add: saturating_add_def checked_add_1)
qed

lemma value_runs_ranges:
  "(\<forall>r \<in> set rs. fst r < snd r) \<Longrightarrow> sorted_wrt (\<lambda>a b. snd a \<noteq> fst b) rs \<Longrightarrow> value_runs (ranges_vals rs) = rs"
proof (induction rs)
  case (Cons r rs)
  obtain a b where r: "r = (a, b)" by fastforce
  have lt: "a < b" using Cons.prems r by simp
  then have le: "a + 1 \<le> b" using unat_add_1[OF lt] by (simp add: word_le_nat_alt word_less_nat_alt)
  have "hd (ranges_vals rs) \<noteq> b" if "ranges_vals rs \<noteq> []"
  proof (cases rs)
    case (Cons q qs)
    then have "fst q < snd q" "b \<noteq> fst q" using Cons.prems r \<open>rs = q # qs\<close> by auto
    then show ?thesis using Cons range_vals_Cons[of "fst q" "snd q"] by simp
  qed (use that in simp)
  then have "take_run (saturating_add a 1) (range_vals (a + 1, b) @ ranges_vals rs) = (b, ranges_vals rs)"
    using take_run_range[OF le] saturating_add_1[OF lt] by simp
  then show ?case using Cons r range_vals_Cons[OF lt] by simp
qed simp

lemma value_runs_sep: "ranges_sep rs \<Longrightarrow> value_runs (ranges_vals rs) = rs"
  unfolding ranges_sep_def by (rule value_runs_ranges) (auto elim!: sorted_wrt_mono_rel[rotated])

lemma take_run_covers:
  "- 1 \<notin> set xs \<Longrightarrow> e \<noteq> 0 \<Longrightarrow> take_run e xs = (e', rest) \<Longrightarrow>
     range_vals (e, e') @ rest = xs \<and> e \<le> e' \<and> (rest \<noteq> [] \<longrightarrow> hd rest \<noteq> e')"
proof (induction e xs arbitrary: e' rest rule: take_run.induct)
  case (2 e v xs)
  show ?case
  proof (cases "v = e")
    case True
    then have ne: "e \<noteq> - 1" using "2.prems" by auto
    then have lt: "e < e + 1" using range_vals_snoc(2)[OF order.refl ne] by (simp add: word_less_nat_alt)
    then have "e + 1 \<noteq> 0" by auto
    with 2 True have ih: "range_vals (e + 1, e') @ rest = xs" "e + 1 \<le> e'" "rest \<noteq> [] \<longrightarrow> hd rest \<noteq> e'" by auto
    then have "e < e'" using lt by simp
    with ih True show ?thesis using range_vals_Cons[of e e'] by simp
  qed (use 2 in \<open>auto simp: range_vals_empty\<close>)
qed (simp add: range_vals_empty)

lemma value_runs_Cons:
  assumes "- 1 \<notin> set (start # vs)"
  obtains e rest where "value_runs (start # vs) = (start, e) # value_runs rest" "start < e"
    "start # vs = range_vals (start, e) @ rest" "rest \<noteq> [] \<longrightarrow> hd rest \<noteq> e" "length rest < length (start # vs)"
    "- 1 \<notin> set rest"
proof -
  obtain e rest where tr: "take_run (saturating_add start 1) vs = (e, rest)" by fastforce
  have ne: "start \<noteq> - 1" "- 1 \<notin> set vs" using assms by auto
  have lt: "start < start + 1" using range_vals_snoc(2)[OF order.refl ne(1)] by (simp add: word_less_nat_alt)
  then have s: "saturating_add start 1 = start + 1" "start + 1 \<noteq> 0" by (auto simp: saturating_add_1)
  have t: "range_vals (start + 1, e) @ rest = vs" "start + 1 \<le> e" "rest \<noteq> [] \<longrightarrow> hd rest \<noteq> e"
    using take_run_covers[OF ne(2) s(2), of e rest] tr s(1) by simp_all
  have less: "start < e" using lt t(2) by simp
  show thesis
  proof (rule that[of e rest])
    show "start # vs = range_vals (start, e) @ rest" using t(1) range_vals_Cons[OF less] by simp
    show "- 1 \<notin> set rest" "length rest < length (start # vs)" using ne(2) t(1) by auto
  qed (use tr t(3) less in simp_all)
qed

lemma value_runs_covers: "- 1 \<notin> set vs \<Longrightarrow> ranges_vals (value_runs vs) = vs"
proof (induction vs rule: length_induct)
  case (1 vs)
  show ?case
  proof (cases vs)
    case (Cons start vs')
    show ?thesis unfolding Cons
      by (rule value_runs_Cons[OF "1.prems"[unfolded Cons]]) (use "1.IH" Cons in simp)
  qed simp
qed

lemma value_runs_sorted_sep: "- 1 \<notin> set vs \<Longrightarrow> sorted_wrt (<) vs \<Longrightarrow> ranges_sep (value_runs vs)"
proof (induction vs rule: length_induct)
  case (1 vs)
  show ?case
  proof (cases vs)
    case Nil
    then show ?thesis by (simp add: ranges_sep_def)
  next
    case (Cons start vs')
    obtain e rest where v: "value_runs vs = (start, e) # value_runs rest" "start < e"
      "vs = range_vals (start, e) @ rest" "rest \<noteq> [] \<longrightarrow> hd rest \<noteq> e" "length rest < length vs" "- 1 \<notin> set rest"
      using value_runs_Cons[OF "1.prems"(1)[unfolded Cons]] unfolding Cons by blast
    have sorted: "sorted_wrt (<) rest" "\<forall>x \<in> set (range_vals (start, e)). \<forall>y \<in> set rest. x < y"
      using "1.prems"(2) v(3) by (auto simp: sorted_wrt_append)
    have IH: "ranges_sep (value_runs rest)" using "1.IH" v(5,6) sorted(1) by simp
    have "e < y" if "y \<in> set rest" for y
    proof -
      have "hd rest \<le> y" using that sorted(1) by (cases rest) auto
      moreover have "hd rest \<in> set rest" "hd rest \<noteq> e" using v(4) that by (cases rest; simp)+
      moreover have "\<not> hd rest < e"
      proof
        assume "hd rest < e"
        moreover have "start < hd rest" using sorted(2) v(2) \<open>hd rest \<in> set rest\<close> by simp
        ultimately have "hd rest \<in> set (range_vals (start, e))" by simp
        then have "hd rest < hd rest" using sorted(2) \<open>hd rest \<in> set rest\<close> by blast
        then show False by simp
      qed
      ultimately show ?thesis by simp
    qed
    moreover have "fst q \<in> set rest" if "q \<in> set (value_runs rest)" for q
    proof -
      have "fst q < snd q" using IH that by (simp add: ranges_sep_def)
      then have "fst q \<in> set (ranges_vals (value_runs rest))" using that by (auto simp: ranges_vals_def)
      then show ?thesis by (simp only: value_runs_covers[OF v(6)])
    qed
    ultimately show ?thesis using IH v(1,2) by (auto simp: ranges_sep_Cons)
  qed
qed

subsection \<open>Gaps between holes\<close>

lemma hole_bounds_runs_eq:
  "sorted_wrt (<) hs \<Longrightarrow> (\<forall>h \<in> set hs. start \<le> h \<and> h < e) \<Longrightarrow> start \<le> e \<Longrightarrow>
   ranges_vals (hole_bounds_runs start (hs @ [e])) = filter (\<lambda>v. v \<notin> set hs) (range_vals (start, e)) \<and>
   ranges_sep (hole_bounds_runs start (hs @ [e])) \<and> (\<forall>r \<in> set (hole_bounds_runs start (hs @ [e])). start \<le> fst r)"
proof (induction hs arbitrary: start)
  case Nil
  then show ?case by (auto simp: range_is_empty_def range_vals_empty ranges_sep_def)
next
  case (Cons h hs)
  have h: "start \<le> h" "h < e" using Cons.prems by auto
  have u: "unat (h + 1) = unat h + 1" by (rule unat_add_1[OF h(2)])
  have next_ok: "h + 1 \<le> e" "h < h + 1" using h u by (simp_all add: word_le_nat_alt word_less_nat_alt)
  have "\<forall>h' \<in> set hs. h + 1 \<le> h' \<and> h' < e"
    using Cons.prems u by (auto simp: word_le_nat_alt word_less_nat_alt Suc_le_eq)
  with Cons next_ok have ih: "ranges_vals (hole_bounds_runs (h + 1) (hs @ [e])) = filter (\<lambda>v. v \<notin> set hs) (range_vals (h + 1, e))"
    "ranges_sep (hole_bounds_runs (h + 1) (hs @ [e]))" "\<forall>r \<in> set (hole_bounds_runs (h + 1) (hs @ [e])). h + 1 \<le> fst r"
    by auto
  have "range_vals (start, e) = range_vals (start, h) @ h # range_vals (h + 1, e)"
    using range_vals_append[OF h(1) less_imp_le[OF h(2)]] range_vals_Cons[OF h(2)] by simp
  moreover have "filter (\<lambda>v. v \<notin> set (h # hs)) (range_vals (start, h)) = range_vals (start, h)"
    using Cons.prems by (auto simp: filter_id_conv)
  moreover have "filter (\<lambda>v. v \<notin> set (h # hs)) (range_vals (h + 1, e)) = filter (\<lambda>v. v \<notin> set hs) (range_vals (h + 1, e))"
    using next_ok by (intro filter_cong) auto
  ultimately have vals: "filter (\<lambda>v. v \<notin> set (h # hs)) (range_vals (start, e)) =
      range_vals (start, h) @ ranges_vals (hole_bounds_runs (h + 1) (hs @ [e]))"
    using ih(1) by simp
  have sa: "saturating_add h 1 = h + 1" by (rule saturating_add_1[OF h(2)])
  have later: "\<forall>r \<in> set (hole_bounds_runs (h + 1) (hs @ [e])). start \<le> fst r \<and> h < fst r"
    using ih(3) h(1) next_ok by fastforce
  show ?case
  proof (cases "start < h")
    case True
    then show ?thesis unfolding vals using sa ih(2) later by (auto simp: range_is_empty_def ranges_sep_Cons)
  next
    case False
    then show ?thesis unfolding vals using sa ih(2) later by (auto simp: range_is_empty_def range_vals_empty)
  qed
qed

subsection \<open>Gaps between hole runs\<close>

lemma present_ranges_sep:
  assumes "hr_wf h" "hr_present_ranges h = Inr ranges"
  shows "sorted_wrt (\<lambda>a b. unat (snd a) < unat (fst b)) ranges"
proof -
  let ?rs = "hr_runs h" and ?S = "unat (hr_span h)"
  note repr = hr_wf_repr[OF assms(1)]
  let ?g = "\<lambda>k. (word_of_nat (gap_start 0 ?rs k), word_of_nat (gap_end ?S ?rs k)) :: u32 range"
  have "mapr (hr_gap h) [0..<length (hr_starts h) + 1] = Inr (map ?g [0..<Suc (length ?rs)])"
    using hr_repr_length[OF repr] hr_gap_eq[OF repr] by (intro mapr_Inr[THEN trans]) (auto simp del: upt_Suc)
  then have ranges: "ranges = filter (\<lambda>r. \<not> range_is_empty r) (map ?g [0..<Suc (length ?rs)])"
    using assms(2) by (simp add: hr_present_ranges_def del: upt_Suc)
  have "sorted_wrt (\<lambda>j k. unat (snd (?g j)) < unat (fst (?g k))) [0..<Suc (length ?rs)]"
  proof (rule sorted_wrt_mono_rel[OF _ sorted_wrt_upt])
    fix j k assume "j \<in> set [0..<Suc (length ?rs)]" "k \<in> set [0..<Suc (length ?rs)]" "j < k"
    then have jk: "j \<le> length ?rs" "k \<le> length ?rs" "j < k" by (simp_all del: upt_Suc)
    then show "unat (snd (?g j)) < unat (fst (?g k))"
      using gap_end_less[OF hr_repr_ok[OF repr] jk(3,2)] hr_repr_bounds[OF repr jk(1)] hr_repr_bounds[OF repr jk(2)]
      by (simp add: unat_of_nat)
  qed
  then show ?thesis unfolding ranges by (intro sorted_wrt_filter) (simp add: sorted_wrt_map del: upt_Suc)
qed

lemma segment_runs_ranges:
  assumes "segment_wf (SegRanges r runs)"
  shows "\<exists>rs. segment_runs (SegRanges r runs) = Inr rs \<and> ranges_sep rs \<and> ranges_vals rs = segment_vals (SegRanges r runs)"
proof -
  have wf: "hr_wf runs" "fst r \<le> snd r" "unat (hr_span runs) = range_span r" using assms by auto
  obtain ranges where ranges: "hr_present_ranges runs = Inr ranges" "\<forall>q \<in> set ranges. fst q < snd q"
    "concat (map (map unat \<circ> range_vals) ranges) = hr_present runs"
    using hr_present_ranges_eq[OF wf(1)] by auto
  have bound: "unat (snd q) \<le> range_span r" if q: "q \<in> set ranges" for q
  proof -
    have lt: "unat (fst q) < unat (snd q)" using ranges(2) q by (simp add: word_less_nat_alt)
    have "unat (snd q) - 1 \<in> set (map unat (range_vals q))" using lt by (simp add: map_unat_range_vals del: set_map)
    then have "unat (snd q) - 1 \<in> set (hr_present runs)" using q unfolding ranges(3)[symmetric] by auto
    then show ?thesis using hr_present_less_span[OF wf(1)] wf(3) lt by fastforce
  qed
  have off: "unat (fst r + ucast x) = unat (fst r) + unat x" if "unat x \<le> range_span r" for x :: u32
    using that unat_offset_val[OF wf(2), of "unat x"] by simp
  let ?rs = "map (\<lambda>run. (fst r + ucast (fst run), fst r + ucast (snd run))) ranges"
  have "ranges_sep ?rs" unfolding ranges_sep_def
  proof
    show "\<forall>q \<in> set ?rs. fst q < snd q"
      using ranges(2) bound off by (auto simp: word_less_nat_alt) (metis (no_types, lifting) add_less_cancel_left
          fst_conv less_imp_le order.trans snd_conv)
    show "sorted_wrt (\<lambda>a b. snd a < fst b) ?rs" unfolding sorted_wrt_map
    proof (rule sorted_wrt_mono_rel[OF _ present_ranges_sep[OF wf(1) ranges(1)]])
      fix a b assume ab: "a \<in> set ranges" "b \<in> set ranges" "unat (snd a) < unat (fst b)"
      have "unat (fst b) \<le> range_span r" using bound[OF ab(2)] ranges(2) ab(2) by (auto simp: word_less_nat_alt)
      then show "snd (fst r + ucast (fst a) :: u64, fst r + ucast (snd a)) < fst (fst r + ucast (fst b), fst r + ucast (snd b) :: u64)"
        using off bound[OF ab(1)] ab(3) by (simp add: word_less_nat_alt)
    qed
  qed
  moreover have "ranges_vals ?rs = segment_vals (SegRanges r runs)"
    using hr_present_range_vals[OF assms ranges(1)] by (simp add: ranges_vals_def o_def)
  ultimately show ?thesis using ranges(1) by simp
qed

subsection \<open>Scanning a bitmap by words\<close>

definition byte_bit :: "u8 list \<Rightarrow> nat \<Rightarrow> bool" where
  "byte_bit bytes j \<longleftrightarrow> j < 8 * length bytes \<and> bytes_bits bytes ! j"

lemma bitmap_word_bits:
  assumes "8 * i \<le> length bytes"
  shows "\<exists>w. bitmap_word bytes i = Inr w \<and> (\<forall>k < 64. bit w k \<longleftrightarrow> byte_bit bytes (64 * i + k))"
proof -
  define chunk where "chunk = (if i * 8 + 8 \<le> length bytes then take 8 (drop (i * 8) bytes)
     else drop (i * 8) bytes @ replicate (8 - (length bytes - i * 8)) 0)"
  have len: "length chunk = 8" using assms by (auto simp: chunk_def)
  have nth: "chunk ! m = (if i * 8 + m < length bytes then bytes ! (i * 8 + m) else 0)" if "m < 8" for m
    using that assms by (auto simp: chunk_def nth_append)
  have "bit (from_le_bytes chunk :: u64) k \<longleftrightarrow> byte_bit bytes (64 * i + k)" if k: "k < 64" for k
  proof -
    have "bit (from_le_bytes chunk :: u64) k \<longleftrightarrow> bit (chunk ! (k div 8)) (k mod 8)"
      using bit_from_le_bytes[of chunk k, where ?'a = 64] len k by simp
    moreover have "(64 * i + k) div 8 = i * 8 + k div 8" "(64 * i + k) mod 8 = k mod 8"
      using div_mult_self1[of 8 k "i * 8"] mod_mult_self1[of k "i * 8" 8] by (simp_all add: mult.assoc add.commute mult.commute)
    moreover have "64 * i + k < 8 * length bytes \<longleftrightarrow> i * 8 + k div 8 < length bytes"
      using div_less_iff_less_mult[of 8 "64 * i + k" "length bytes"] calculation(2) by (simp add: mult.commute)
    moreover have "k div 8 < 8" using k by simp
    ultimately show ?thesis using nth[of "k div 8"] by (simp add: byte_bit_def nth_bytes_bits)
  qed
  then show ?thesis using assms by (simp add: bitmap_word_def chunk_def[symmetric] mult.commute)
qed

definition wanted_ok :: "(u64 \<Rightarrow> u64) \<Rightarrow> (bool \<Rightarrow> bool) \<Rightarrow> bool" where
  "wanted_ok wanted q \<longleftrightarrow> (\<forall>w k. k < 64 \<longrightarrow> bit (wanted w) k = q (bit w k))"

lemma wanted_ok_simps: "wanted_ok (\<lambda>w. w) (\<lambda>b. b)" "wanted_ok (\<lambda>w. NOT w) Not"
  by (auto simp: wanted_ok_def bit_not_iff)

lemma next_edge_eq:
  assumes "wanted_ok wanted q" "len \<le> 8 * length bytes"
  shows "b \<le> len \<Longrightarrow> \<exists>e. next_edge len bytes wanted b = Inr e \<and> b \<le> e \<and> e \<le> len \<and>
    (\<forall>j. b \<le> j \<longrightarrow> j < e \<longrightarrow> \<not> q (byte_bit bytes j)) \<and> (e < len \<longrightarrow> q (byte_bit bytes e))"
proof (induction "len - b" arbitrary: b rule: less_induct)
  case (less b)
  show ?case
  proof (cases "b < len")
    case False
    then show ?thesis using less.prems by (simp add: next_edge.simps)
  next
    case True
    define i k where ik: "i = b div 64" "k = b mod 64"
    have b: "b = 64 * i + k" "k < 64" by (simp_all add: ik)
    have "8 * i \<le> length bytes" using True assms(2) b by linarith
    then obtain w where w: "bitmap_word bytes i = Inr w" "\<And>k. k < 64 \<Longrightarrow> bit w k \<longleftrightarrow> byte_bit bytes (64 * i + k)"
      using bitmap_word_bits by blast
    define rest where "rest = drop_bit k (wanted w)"
    have bit_rest: "bit rest m \<longleftrightarrow> k + m < 64 \<and> q (byte_bit bytes (b + m))" for m
    proof (cases "k + m < 64")
      case True
      then show ?thesis using w(2)[OF True] assms(1) b(1) by (simp add: rest_def bit_drop_bit_eq wanted_ok_def add.assoc)
    next
      case False
      then show ?thesis using bit_imp_le_length[of "wanted w" "k + m"] by (auto simp: rest_def bit_drop_bit_eq)
    qed
    have step: "next_edge len bytes wanted b =
        (if rest = 0 then next_edge len bytes wanted ((i + 1) * 64) else Inr (min (b + trailing_zeros rest) len))"
      using True w(1) unfolding next_edge.simps[of len bytes wanted b] ik[symmetric] by (simp add: Let_def rest_def)
    show ?thesis
    proof (cases "rest = 0")
      case zero: True
      let ?b' = "(i + 1) * 64"
      have b': "b < ?b'" "?b' = b + (64 - k)" using b by simp_all
      have none: "\<not> q (byte_bit bytes j)" if "b \<le> j" "j < ?b'" for j
        using bit_rest[of "j - b"] zero that b' by simp
      show ?thesis
      proof (cases "?b' \<le> len")
        case True
        have "len - ?b' < len - b" using b'(1) \<open>b < len\<close> by simp
        from less.hyps[OF this True] obtain e where e: "next_edge len bytes wanted ?b' = Inr e" "?b' \<le> e" "e \<le> len"
          "\<And>j. ?b' \<le> j \<Longrightarrow> j < e \<Longrightarrow> \<not> q (byte_bit bytes j)" "e < len \<Longrightarrow> q (byte_bit bytes e)" by blast
        have "\<not> q (byte_bit bytes j)" if "b \<le> j" "j < e" for j using none e(4) that by (cases "j < ?b'") auto
        with e step zero b'(1) show ?thesis by (intro exI[of _ e]) auto
      next
        case False
        then have "next_edge len bytes wanted ?b' = Inr len" by (simp add: next_edge.simps)
        with step zero none False \<open>b < len\<close> show ?thesis by (intro exI[of _ len]) auto
      qed
    next
      case False
      let ?t = "trailing_zeros rest"
      have t: "?t < 64" using False trailing_zeros_full[of rest] trailing_zeros_le[of rest] by simp
      have at: "k + ?t < 64" "q (byte_bit bytes (b + ?t))" using trailing_zeros_bit(2)[of rest] t bit_rest[of ?t] by simp_all
      have "\<not> q (byte_bit bytes j)" if "b \<le> j" "j < b + ?t" for j
      proof -
        have "j - b < ?t" using that by simp
        then have "\<not> bit rest (j - b)" by (rule trailing_zeros_bit(1))
        moreover have "k + (j - b) < 64" using \<open>j - b < ?t\<close> at(1) by simp
        ultimately show ?thesis using bit_rest[of "j - b"] that(1) by simp
      qed
      with at(2) show ?thesis using step False \<open>b < len\<close>
        by (intro exI[of _ "min (b + ?t) len"]) (auto simp: min_def)
    qed
  qed
qed

lemma filter_upt_run:
  assumes "b \<le> s" "s \<le> e" "e \<le> n" "\<And>j. b \<le> j \<Longrightarrow> j < s \<Longrightarrow> \<not> P j" "\<And>j. s \<le> j \<Longrightarrow> j < e \<Longrightarrow> P j"
  shows "filter P [b..<n] = [s..<e] @ filter P [e..<n]"
proof -
  have "[b..<n] = [b..<s] @ [s..<e] @ [e..<n]"
    using assms(1-3) upt_add_eq_append[of b s "n - s"] upt_add_eq_append[of s e "n - e"] by simp
  moreover have "filter P [b..<s] = []" "filter P [s..<e] = [s..<e]"
    using assms(4,5) by (auto simp: filter_empty_conv filter_id_conv)
  ultimately show ?thesis by simp
qed

lemma bitmap_runs_loop_eq:
  assumes "len \<le> 8 * length bytes" "unat base + len < 2 ^ 64"
  shows "b \<le> len \<Longrightarrow> len - b < fuel \<Longrightarrow>
    \<exists>rs. bitmap_runs_loop fuel base len bytes b = Inr rs \<and> ranges_sep rs \<and>
      ranges_vals rs = offset_vals base (filter (byte_bit bytes) [b..<len]) \<and>
      (\<forall>r \<in> set rs. unat base + b \<le> unat (fst r) \<and> (b < len \<longrightarrow> byte_bit bytes b \<or> unat base + b < unat (fst r)))"
proof (induction fuel arbitrary: b)
  case (Suc fuel)
  obtain s where s: "next_edge len bytes (\<lambda>w. w) b = Inr s" "b \<le> s" "s \<le> len"
    "\<And>j. b \<le> j \<Longrightarrow> j < s \<Longrightarrow> \<not> byte_bit bytes j" "s < len \<Longrightarrow> byte_bit bytes s"
    using next_edge_eq[OF wanted_ok_simps(1) assms(1) Suc.prems(1)] by blast
  show ?case
  proof (cases "s = len")
    case True
    then have "filter (byte_bit bytes) [b..<len] = []" using s(4) by (simp add: filter_empty_conv)
    with s(1) True show ?thesis by (simp add: ranges_sep_def offset_vals_def)
  next
    case False
    then have lt: "s < len" using s(3) by simp
    obtain e where e: "next_edge len bytes (\<lambda>w. NOT w) s = Inr e" "s \<le> e" "e \<le> len"
      "\<And>j. s \<le> j \<Longrightarrow> j < e \<Longrightarrow> byte_bit bytes j" "e < len \<Longrightarrow> \<not> byte_bit bytes e"
      using next_edge_eq[OF wanted_ok_simps(2) assms(1) s(3)] by blast
    have se: "s < e" using e(2,3,5) s(5) lt by (cases "s = e") auto
    obtain rs where rs: "bitmap_runs_loop fuel base len bytes e = Inr rs" "ranges_sep rs"
      "ranges_vals rs = offset_vals base (filter (byte_bit bytes) [e..<len])"
      "\<And>r. r \<in> set rs \<Longrightarrow> unat base + e \<le> unat (fst r) \<and> (e < len \<longrightarrow> byte_bit bytes e \<or> unat base + e < unat (fst r))"
    proof -
      have "len - e < fuel" using Suc.prems s(2) se e(3) by linarith
      from Suc.IH[OF e(3) this] that show ?thesis by blast
    qed
    have u: "unat (base + word_of_nat s) = unat base + s" "unat (base + word_of_nat e) = unat base + e"
      using assms(2) e(3) se by (auto intro!: unat_add_of_nat)
    have "range_vals (base + word_of_nat s, base + word_of_nat e) = offset_vals base [s..<e]"
      using u by (intro nth_equalityI) (simp_all add: nth_range_vals offset_vals_def)
    then have vals: "ranges_vals ((base + word_of_nat s, base + word_of_nat e) # rs) = offset_vals base (filter (byte_bit bytes) [b..<len])"
      using rs(3) filter_upt_run[OF s(2) e(2,3) s(4) e(4)] by (simp add: offset_vals_def)
    have "unat base + e < unat (fst r)" if "r \<in> set rs" for r
    proof (cases "e < len")
      case True
      then show ?thesis using rs(4)[OF that] e(5) by blast
    next
      case False
      then have "ranges_vals rs = []" using rs(3) by (simp add: offset_vals_def)
      then have "range_vals r = []" using that by (auto simp: ranges_vals_def)
      moreover have "fst r < snd r" using rs(2) that by (simp add: ranges_sep_def)
      ultimately show ?thesis using range_vals_Cons[of "fst r" "snd r"] by simp
    qed
    then have sep: "ranges_sep ((base + word_of_nat s, base + word_of_nat e) # rs)"
      using rs(2) se u by (simp add: ranges_sep_Cons word_less_nat_alt)
    have "byte_bit bytes b \<or> b < s" if "b < len" using s(2,5) that by (cases "b = s") auto
    with s(1) e(1) rs(1) lt vals sep rs(4) u s(2) se show ?thesis
      by (intro exI[of _ "(base + word_of_nat s, base + word_of_nat e) # rs"]) fastforce
  qed
qed simp

lemma segment_runs_bitmap:
  assumes "segment_wf (SegRangeWithBitmap r bm)"
  shows "\<exists>rs. segment_runs (SegRangeWithBitmap r bm) = Inr rs \<and> ranges_sep rs \<and> ranges_vals rs = segment_vals (SegRangeWithBitmap r bm)"
proof -
  have wf: "bitmap_wf bm" "unat (fst r) + bm_len bm < 2 ^ 64" using assms range_span_bound[of r] by auto
  have "filter (byte_bit (bm_data bm)) [0..<bm_len bm] = bitmap_present bm"
    unfolding bitmap_present_def using bitmap_wf_le[OF wf(1)] by (intro filter_cong) (auto simp: byte_bit_def bitmap_bits_def)
  then show ?thesis
    using bitmap_runs_loop_eq[OF bitmap_wf_le[OF wf(1)] wf(2), of 0 "Suc (bm_len bm)"] by (auto simp: bitmap_runs_def)
qed

subsection \<open>All kinds\<close>

lemma segment_runs_eq:
  assumes "segment_wf seg" "segment_vals seg \<noteq> []"
  shows "segment_runs seg = Inr (value_runs (segment_vals seg))"
proof (cases seg)
  case (SegRange r)
  have "fst r < snd r" using assms SegRange by (auto simp: range_vals_empty intro: ccontr)
  then have "ranges_sep [r]" by (simp add: ranges_sep_def)
  from value_runs_sep[OF this] SegRange show ?thesis by simp
next
  case (SegRangeWithHoles r holes)
  then show ?thesis using hole_bounds_runs_eq[of "enc_iter holes" "fst r" "snd r"] assms value_runs_sep
    by (fastforce simp: list_all_set)
next
  case (SegRangeWithBitmap r bm)
  then show ?thesis using segment_runs_bitmap[of r bm] assms value_runs_sep by metis
next
  case (SegRanges r runs)
  then show ?thesis using segment_runs_ranges[of r runs] assms value_runs_sep by metis
next
  case (SegSortedArray a)
  then show ?thesis by (cases a) (simp_all add: sorted_runs_def)
qed simp

subsection \<open>Ranges as one segment\<close>

fun range_holes :: "nat \<Rightarrow> u64 range list \<Rightarrow> runs" where
  "range_holes base (r # q # rs) = (unat (snd r) - base, unat (fst q) - base) # range_holes base (q # rs)"
| "range_holes base rs = []"

lemma range_holes_present:
  "ranges_sep (r # rs) \<Longrightarrow> base \<le> unat (fst r) \<Longrightarrow> lo \<le> unat (snd r) - base \<Longrightarrow>
   unat (snd (last (r # rs))) - base \<le> S \<Longrightarrow>
   runs_ok lo S (range_holes base (r # rs)) \<and>
   present_from (unat (fst r) - base) (unat (snd (last (r # rs))) - base) (range_holes base (r # rs)) =
     map (\<lambda>v. unat v - base) (ranges_vals (r # rs))"
proof (induction rs arbitrary: r lo)
  case Nil
  have "map (\<lambda>v. unat v - base) (range_vals r) = map (\<lambda>x. x - base) [unat (fst r)..<unat (snd r)]"
    unfolding map_unat_range_vals[symmetric] by simp
  also have "\<dots> = [unat (fst r) - base..<unat (snd r) - base]"
    using Nil.prems(2) by (intro nth_equalityI) auto
  finally show ?case by simp
next
  case (Cons q rs)
  have sep: "fst r < snd r" "snd r < fst q" "fst q < snd q" "ranges_sep (q # rs)" using Cons.prems(1) by (auto simp: ranges_sep_Cons)
  then have n: "unat (fst r) < unat (snd r)" "unat (snd r) < unat (fst q)" "unat (fst q) < unat (snd q)"
    by (simp_all add: word_less_nat_alt)
  have last_ge: "unat (snd q) \<le> unat (snd (last (q # rs)))"
  proof (cases "rs = []")
    case False
    then have "last rs \<in> set rs" by simp
    then have "snd q < fst (last rs)" "fst (last rs) < snd (last rs)" using sep(4) by (auto simp: ranges_sep_Cons ranges_sep_def)
    then show ?thesis using False by (simp add: word_less_nat_alt)
  qed simp
  have ih: "runs_ok (Suc (unat (fst q) - base)) S (range_holes base (q # rs))"
    "present_from (unat (fst q) - base) (unat (snd (last (q # rs))) - base) (range_holes base (q # rs)) = map (\<lambda>v. unat v - base) (ranges_vals (q # rs))"
    using Cons.IH[OF sep(4), of "Suc (unat (fst q) - base)"] Cons.prems n by auto
  have "map (\<lambda>v. unat v - base) (range_vals r) = [unat (fst r) - base..<unat (snd r) - base]"
    using Cons.prems(2) map_unat_range_vals[of r] by (intro nth_equalityI) (auto simp: unat_nth_range_vals)
  moreover have last_eq: "last (r # q # rs) = last (q # rs)" by simp
  moreover have "unat (fst q) - base \<le> S" using Cons.prems(4)[unfolded last_eq] last_ge n by linarith
  moreover have "unat (snd r) - base < unat (fst q) - base" using n Cons.prems(2) by linarith
  ultimately show ?case using ih Cons.prems(2,3) by (simp del: last.simps)
qed

lemma range_holes_zip:
  "zip (map (\<lambda>r. unat (snd r) - base) (butlast rs)) (map (\<lambda>r. unat (fst r) - base) (tl rs)) = range_holes base rs"
  by (induction base rs rule: range_holes.induct) auto

lemma set_ranges_vals: "v \<in> set (ranges_vals rs) \<longleftrightarrow> (\<exists>q \<in> set rs. v \<in> set (range_vals q))"
  by (simp add: ranges_vals_def)

lemma ranges_sep_bounds:
  assumes "ranges_sep rs" "q \<in> set rs"
  shows "unat (fst (hd rs)) \<le> unat (fst q)" "unat (snd q) \<le> unat (snd (last rs))" "unat (fst q) < unat (snd q)"
proof -
  obtain k where k: "k < length rs" "q = rs ! k" using assms(2) by (auto simp: in_set_conv_nth)
  have ne: "rs \<noteq> []" using assms(2) by auto
  have lt: "unat (fst (rs ! j)) < unat (snd (rs ! j))" if "j < length rs" for j
    using assms(1) that by (simp add: ranges_sep_def word_less_nat_alt)
  have sep: "unat (snd (rs ! i)) < unat (fst (rs ! j))" if "i < j" "j < length rs" for i j
    using assms(1) that sorted_wrt_nth_less[of _ rs i j] by (auto simp: ranges_sep_def word_less_nat_alt)
  show "unat (fst q) < unat (snd q)" using lt k by simp
  show "unat (fst (hd rs)) \<le> unat (fst q)"
    using lt[of 0] sep[of 0 k] k ne by (cases k) (auto simp: hd_conv_nth)
  show "unat (snd q) \<le> unat (snd (last rs))"
  proof -
    have "k = length rs - 1 \<or> k < length rs - 1" using k(1) by linarith
    then show ?thesis using lt[of "length rs - 1"] sep[of k "length rs - 1"] k ne by (auto simp: last_conv_nth)
  qed
qed

lemma from_sorted_ranges_eq:
  assumes "ranges_sep rs" "2 \<le> length rs" "unat (snd (last rs)) - unat (fst (hd rs)) < 2 ^ 32"
  shows "\<exists>runs. segment_from_sorted_ranges rs = Some (SegRanges (fst (hd rs), snd (last rs)) runs) \<and>
    segment_wf (SegRanges (fst (hd rs), snd (last rs)) runs) \<and>
    segment_vals (SegRanges (fst (hd rs), snd (last rs)) runs) = ranges_vals rs"
proof -
  let ?base = "fst (hd rs)" and ?stop = "snd (last rs)"
  let ?S = "unat ?stop - unat ?base"
  obtain r rs' where rs: "rs = r # rs'" using assms(2) by (cases rs) auto
  have ne: "rs \<noteq> []" by (simp add: rs)
  note bounds = ranges_sep_bounds[OF assms(1)]
  have le: "?base \<le> ?stop" using bounds(1,2)[of "hd rs"] bounds(3)[of "hd rs"] ne by (auto simp: word_le_nat_alt)
  have u: "unat (ucast (x - ?base) :: u32) = unat x - unat ?base" if "unat ?base \<le> unat x" "unat x \<le> unat ?stop" for x
  proof -
    have "unat (x - ?base) = unat x - unat ?base" using that by (simp add: unat_diff_word word_le_nat_alt)
    moreover have "unat x - unat ?base < 2 ^ LENGTH(32)" using that assms(3) by simp
    ultimately show ?thesis by (simp only: unat_ucast_small)
  qed
  have span: "unat (?stop - ?base) < 2 ^ 32" "unat (ucast (?stop - ?base) :: u32) = ?S"
    using u[of ?stop] le assms(3) by (simp_all add: unat_diff_word word_le_nat_alt)
  let ?starts = "map (\<lambda>r. ucast (snd r - ?base) :: u32) (butlast rs)" and ?ends = "map (\<lambda>r. ucast (fst r - ?base) :: u32) (tl rs)"
  have in_b: "unat (ucast (snd q - ?base) :: u32) = unat (snd q) - unat ?base" "unat (ucast (fst q - ?base) :: u32) = unat (fst q) - unat ?base"
    if "q \<in> set rs" for q
    using u[of "snd q"] u[of "fst q"] bounds[OF that] by simp_all
  have "map nat_run (zip ?starts ?ends) = zip (map unat ?starts) (map unat ?ends)"
    by (simp add: zip_map1 zip_map2 o_def split_def nat_run_def)
  also have "map unat ?starts = map (\<lambda>r. unat (snd r) - unat ?base) (butlast rs)"
    using in_b by (auto dest: in_set_butlastD)
  also have "map unat ?ends = map (\<lambda>r. unat (fst r) - unat ?base) (tl rs)"
    using in_b ne by (auto dest: list.set_sel(2))
  finally have holes: "map nat_run (zip ?starts ?ends) = range_holes (unat ?base) rs" by (simp only: range_holes_zip)
  have pres: "runs_ok 0 ?S (range_holes (unat ?base) rs)"
    "present_from 0 ?S (range_holes (unat ?base) rs) = map (\<lambda>v. unat v - unat ?base) (ranges_vals rs)"
    using range_holes_present[of r rs' "unat ?base" 0 ?S] assms(1) rs by simp_all
  obtain runs where runs: "hole_runs_try_new (ucast (?stop - ?base)) ?starts ?ends = Inr runs"
    "hr_span runs = ucast (?stop - ?base)" "hr_repr runs (range_holes (unat ?base) rs)"
    using hole_runs_try_new_ok[of ?starts ?ends "ucast (?stop - ?base)"] holes pres(1) span(2) by auto
  have wf: "segment_wf (SegRanges (?base, ?stop) runs)"
    using le hr_repr_wf[OF runs(3)] runs(2) span(2) by (simp add: range_span_def)
  have "?base + word_of_nat (unat v - unat ?base) = v" if mem: "v \<in> set (ranges_vals rs)" for v
  proof -
    obtain q where "q \<in> set rs" "v \<in> set (range_vals q)" using set_ranges_vals[of v rs] mem by blast
    then have "unat ?base \<le> unat v" using bounds(1)[of q] by (simp add: word_le_nat_alt)
    then show ?thesis by (simp add: of_nat_diff)
  qed
  then have "segment_vals (SegRanges (?base, ?stop) runs) = ranges_vals rs"
    using hr_repr_present[OF runs(3)] runs(2) span(2) pres(2) by (simp add: offset_vals_def map_idI)
  with wf runs(1) span(1) assms(2) show ?thesis by (simp add: segment_from_sorted_ranges_def Let_def)
qed

subsection \<open>Properties\<close>



end
