(* ===== verification/Sequence.thy ===== *)
theory Sequence
  imports Segment_Runs
begin

text \<open>
  \<open>RowIdSequence\<close> (\<open>rust/lance-table/src/rowids.rs\<close>): the row ids of a fragment as a
  list of segments, with its stateful reader, its updates, the re-encoder and the re-chunker. This
  theory holds the definitions; the following ones prove them correct against the concatenated
  values of the segments.
\<close>

type_synonym row_id_sequence = "u64_segment list"

subsection \<open>Construction and reading\<close>

definition sequence_from_range :: "u64 range \<Rightarrow> row_id_sequence" where
  "sequence_from_range r = [SegRange r]"

definition sequence_from_slice :: "u64 list \<Rightarrow> row_id_sequence res" where
  "sequence_from_slice row_ids = bindr (segment_from_slice row_ids) (\<lambda>seg. Inr [seg])"

definition find_duplicate :: "u64 list \<Rightarrow> u64 option" where
  "find_duplicate row_ids =
     (if list_all (\<lambda>(a, b). a < b) (pairs2 row_ids) then None
      else map_option fst (find (\<lambda>(a, b). a = b) (pairs2 (sort row_ids))))"

definition try_from_iter :: "u64 list \<Rightarrow> row_id_sequence res" where
  "try_from_iter row_ids =
     (if row_ids = [] then Inr []
      else case find_duplicate row_ids of
             Some _ \<Rightarrow> Inl InvalidInput
           | None \<Rightarrow> bindr (segment_from_slice row_ids) (\<lambda>seg. Inr [seg]))"

definition sequence_iter :: "row_id_sequence \<Rightarrow> u64 list res" where
  "sequence_iter sq = bindr (mapr segment_iter sq) (\<lambda>vals. Inr (concat vals))"

definition sequence_len :: "row_id_sequence \<Rightarrow> u64 res" where
  "sequence_len sq = bindr (mapr segment_len sq) (\<lambda>lens. Inr (sum_list (map word_of_nat lens)))"

definition sequence_is_empty :: "row_id_sequence \<Rightarrow> bool" where
  "sequence_is_empty sq \<longleftrightarrow> sq = []"

definition row_id_range :: "row_id_sequence \<Rightarrow> (u64 \<times> u64) option" where
  "row_id_range sq =
     option_pair (list_min (map fst (List.map_filter segment_range sq)))
                 (list_max (map snd (List.map_filter segment_range sq)))"

fun sequence_get_loop :: "row_id_sequence \<Rightarrow> usize \<Rightarrow> usize \<Rightarrow> u64 option res" where
  "sequence_get_loop [] index offset = Inr None"
| "sequence_get_loop (seg # sq) index offset =
     bindr (segment_len seg)
       (\<lambda>n. if index < offset + n then segment_get seg (index - offset)
            else sequence_get_loop sq index (offset + n))"

definition sequence_get :: "row_id_sequence \<Rightarrow> usize \<Rightarrow> u64 option res" where
  "sequence_get sq index = sequence_get_loop sq index 0"

subsection \<open>Slices\<close>

record row_id_seq_slice =
  sl_segments :: "u64_segment list"
  sl_offset_start :: usize
  sl_offset_last :: usize

fun slice_start_loop :: "row_id_sequence \<Rightarrow> usize \<Rightarrow> usize \<Rightarrow> (usize \<times> usize) res" where
  "slice_start_loop [] offset_start segment_offset = Inr (offset_start, segment_offset)"
| "slice_start_loop (seg # sq) offset_start segment_offset =
     bindr (segment_len seg)
       (\<lambda>n. if offset_start < n then Inr (offset_start, segment_offset)
            else slice_start_loop sq (offset_start - n) (segment_offset + 1))"

fun slice_last_loop :: "row_id_sequence \<Rightarrow> usize \<Rightarrow> usize \<Rightarrow> (usize \<times> usize) res" where
  "slice_last_loop [] offset_last segment_offset_last = Inr (offset_last, segment_offset_last)"
| "slice_last_loop (seg # sq) offset_last segment_offset_last =
     bindr (segment_len seg)
       (\<lambda>n. if offset_last \<le> n then Inr (offset_last, segment_offset_last)
            else slice_last_loop sq (offset_last - n) (segment_offset_last + 1))"

definition sequence_slice :: "row_id_sequence \<Rightarrow> usize \<Rightarrow> usize \<Rightarrow> row_id_seq_slice res" where
  "sequence_slice sq offset len =
     (if len = 0 then Inr \<lparr>sl_segments = [], sl_offset_start = 0, sl_offset_last = 0\<rparr>
      else bindr (slice_start_loop sq offset 0)
        (\<lambda>(offset_start, segment_offset).
          bindr (slice_last_loop (drop segment_offset sq) (usize_add offset_start len) segment_offset)
            (\<lambda>(offset_last, segment_offset_last).
               if segment_offset_last < length sq
               then Inr \<lparr>sl_segments = take (segment_offset_last + 1 - segment_offset) (drop segment_offset sq),
                         sl_offset_start = offset_start, sl_offset_last = offset_last\<rparr>
               else Inl Panic)))"

definition slice_known_size :: "row_id_seq_slice \<Rightarrow> usize res" where
  "slice_known_size s =
     bindr (mapr segment_len (sl_segments s))
       (\<lambda>lens. Inr (usize_sub (usize_sub (sum_list lens) (sl_offset_start s))
                     (usize_sub (if lens = [] then 0 else last lens) (sl_offset_last s))))"

definition slice_segment_iter :: "row_id_seq_slice \<Rightarrow> usize \<times> u64_segment \<Rightarrow> u64 list res" where
  "slice_segment_iter s = (\<lambda>(i, seg).
     bindr (segment_iter seg)
       (\<lambda>vals. Inr (if i = 0 \<and> length (sl_segments s) = 1
                    then take (usize_sub (sl_offset_last s) (sl_offset_start s)) (drop (sl_offset_start s) vals)
                    else if i = 0 then drop (sl_offset_start s) vals
                    else if i = length (sl_segments s) - 1 then take (sl_offset_last s) vals
                    else vals)))"

definition slice_iter :: "row_id_seq_slice \<Rightarrow> u64 list res" where
  "slice_iter s = bindr (mapr (slice_segment_iter s) (enumerate 0 (sl_segments s))) (\<lambda>vals. Inr (concat vals))"

subsection \<open>The resumable reader\<close>

record sequence_cursor =
  rc_segment_idx :: usize
  rc_rows_passed :: usize
  rc_segment_len :: "usize option"
  rc_segment_cursor :: cursor_state
  rc_last_index :: "usize option"

definition sequence_cursor_default :: sequence_cursor where
  "sequence_cursor_default =
     \<lparr>rc_segment_idx = 0, rc_rows_passed = 0, rc_segment_len = None, rc_segment_cursor = cursor_default,
      rc_last_index = None\<rparr>"

definition advance_segment :: "sequence_cursor \<Rightarrow> sequence_cursor" where
  "advance_segment c =
     c\<lparr>rc_rows_passed := rc_rows_passed c + (case rc_segment_len c of Some n \<Rightarrow> n | None \<Rightarrow> 0),
       rc_segment_idx := rc_segment_idx c + 1, rc_segment_len := None, rc_segment_cursor := cursor_default\<rparr>"

definition rewind_sequence :: "usize \<Rightarrow> sequence_cursor \<Rightarrow> sequence_cursor" where
  "rewind_sequence index c =
     (if index < rc_rows_passed c \<or> (case rc_last_index c of Some prev \<Rightarrow> index < prev | None \<Rightarrow> False)
      then sequence_cursor_default else c)"

definition cursor_segment_len :: "u64_segment \<Rightarrow> sequence_cursor \<Rightarrow> usize res" where
  "cursor_segment_len seg c = (case rc_segment_len c of Some n \<Rightarrow> Inr n | None \<Rightarrow> segment_len seg)"

function sequence_cursor_loop :: "row_id_sequence \<Rightarrow> sequence_cursor \<Rightarrow> usize \<Rightarrow> (u64 option \<times> sequence_cursor) res" where
  "sequence_cursor_loop sq c index =
     (if rc_segment_idx c < length sq then
        let seg = sq ! rc_segment_idx c
        in bindr (cursor_segment_len seg c)
             (\<lambda>n. let c = c\<lparr>rc_segment_len := Some n\<rparr>; local_index = usize_sub index (rc_rows_passed c)
                  in if local_index < n then
                       bindr (cursor_get seg (rc_segment_cursor c) local_index)
                         (\<lambda>(v, st). Inr (v, c\<lparr>rc_segment_cursor := st\<rparr>))
                     else sequence_cursor_loop sq (advance_segment c) index)
      else Inr (None, c))"
  by pat_completeness auto
termination
  by (relation "measure (\<lambda>(sq, c, index). length sq - rc_segment_idx c)") (auto simp: advance_segment_def)

declare sequence_cursor_loop.simps [simp del]

definition sequence_cursor_get :: "row_id_sequence \<Rightarrow> sequence_cursor \<Rightarrow> usize \<Rightarrow> (u64 option \<times> sequence_cursor) res" where
  "sequence_cursor_get sq c index =
     sequence_cursor_loop sq ((rewind_sequence index c)\<lparr>rc_last_index := Some index\<rparr>) index"

fun select_loop :: "row_id_sequence \<Rightarrow> sequence_cursor \<Rightarrow> usize option \<Rightarrow> usize list \<Rightarrow> u64 list res" where
  "select_loop sq c last_index [] = Inr []"
| "select_loop sq c last_index (index # rest) =
     (if (case last_index of Some prev \<Rightarrow> index < prev | None \<Rightarrow> False) then Inl Panic
      else bindr (sequence_cursor_get sq c index)
        (\<lambda>(v, c'). bindr (select_loop sq c' (Some index) rest)
          (\<lambda>vs. Inr (case v of Some x \<Rightarrow> x # vs | None \<Rightarrow> vs))))"

definition sequence_select :: "row_id_sequence \<Rightarrow> usize list \<Rightarrow> u64 list res" where
  "sequence_select sq selection = select_loop sq sequence_cursor_default None selection"

fun select_with_cursor :: "row_id_sequence \<Rightarrow> sequence_cursor \<Rightarrow> usize list \<Rightarrow> (u64 list \<times> sequence_cursor) res" where
  "select_with_cursor sq c [] = Inr ([], c)"
| "select_with_cursor sq c (index # rest) =
     bindr (sequence_cursor_get sq c index)
       (\<lambda>(v, c'). bindr (select_with_cursor sq c' rest)
         (\<lambda>(vs, c''). Inr (case v of Some x \<Rightarrow> x # vs | None \<Rightarrow> vs, c'')))"

type_synonym segment_extend =
  "u64_segment \<Rightarrow> cursor_state \<Rightarrow> usize range \<Rightarrow> u64 list \<Rightarrow> (cursor_state \<times> u64 list) res"

function sequence_extend_loop ::
  "segment_extend \<Rightarrow> row_id_sequence \<Rightarrow> usize \<Rightarrow> sequence_cursor \<Rightarrow> usize \<Rightarrow> u64 list \<Rightarrow> (sequence_cursor \<times> u64 list) res" where
  "sequence_extend_loop ext sq end c index row_ids =
     (if index < end then
        if rc_segment_idx c < length sq then
          let seg = sq ! rc_segment_idx c
          in bindr (cursor_segment_len seg c)
               (\<lambda>n. let c = c\<lparr>rc_segment_len := Some n\<rparr>; local_start = usize_sub index (rc_rows_passed c)
                    in if local_start \<ge> n then sequence_extend_loop ext sq end (advance_segment c) index row_ids
                       else
                         let count = min (end - index) (n - local_start); local_end = local_start + count
                         in bindr (ext seg (rc_segment_cursor c) (local_start, local_end) row_ids)
                              (\<lambda>(st, row_ids').
                                 let c = c\<lparr>rc_segment_cursor := st\<rparr>;
                                     c = (if local_end = n then advance_segment c else c)
                                 in sequence_extend_loop ext sq end c (index + count) row_ids'))
        else Inr (c, row_ids)
      else Inr (c, row_ids))"
  by pat_completeness auto
termination
  by (relation "measures [\<lambda>(ext, sq, end, c, index, row_ids). length sq - rc_segment_idx c,
       \<lambda>(ext, sq, end, c, index, row_ids). end - index]") (auto simp: advance_segment_def)

declare sequence_extend_loop.simps [simp del]

definition cursor_extend_with ::
  "segment_extend \<Rightarrow> row_id_sequence \<Rightarrow> sequence_cursor \<Rightarrow> usize range \<Rightarrow> u64 list \<Rightarrow> (sequence_cursor \<times> u64 list) res" where
  "cursor_extend_with ext sq c selection row_ids =
     (if range_is_empty selection then Inr (c, row_ids)
      else sequence_extend_loop ext sq (snd selection)
             ((rewind_sequence (fst selection) c)\<lparr>rc_last_index := Some (snd selection - 1)\<rparr>) (fst selection) row_ids)"

definition sequence_extend_range where
  "sequence_extend_range = cursor_extend_with cursor_extend_range"

definition sequence_extend_dense_range where
  "sequence_extend_dense_range = cursor_extend_with cursor_extend_dense_range"

definition cursor_with_dense_range_expansion :: "row_id_sequence \<Rightarrow> (sequence_cursor \<times> bool) res" where
  "cursor_with_dense_range_expansion sq =
     (case sq of
        [SegRangeWithBitmap r bm] \<Rightarrow>
          bindr (segment_len (SegRangeWithBitmap r bm))
            (\<lambda>n. Inr (sequence_cursor_default\<lparr>rc_segment_len := Some n\<rparr>,
                      use_dense_range_expansion (SegRangeWithBitmap r bm) n))
      | _ \<Rightarrow> Inr (sequence_cursor_default, False))"

definition select_range_with_cursor :: "row_id_sequence \<Rightarrow> sequence_cursor \<Rightarrow> usize range \<Rightarrow> (sequence_cursor \<times> u64 list) res" where
  "select_range_with_cursor sq c selection = sequence_extend_range sq c selection []"

definition select_dense_range_with_cursor :: "row_id_sequence \<Rightarrow> sequence_cursor \<Rightarrow> usize range \<Rightarrow> (sequence_cursor \<times> u64 list) res" where
  "select_dense_range_with_cursor sq c selection = sequence_extend_dense_range sq c selection []"

subsection \<open>Concatenation and re-encoding\<close>

definition sequence_extend :: "row_id_sequence \<Rightarrow> row_id_sequence \<Rightarrow> row_id_sequence" where
  "sequence_extend sq other =
     (case (rev sq, other) of
        (SegRange r1 # _, SegRange r2 # other') \<Rightarrow>
          if snd r1 = fst r2 then butlast sq @ [SegRange (fst r1, snd r2)] @ other' else sq @ other
      | _ \<Rightarrow> sq @ other)"

definition REENCODE_CHUNK_IDS :: u64 where
  "REENCODE_CHUNK_IDS = push_bit 16 1"

record chunk_encoder =
  ce_segments :: "u64_segment list"
  ce_pending :: "(u64 range \<times> bool) option"
  ce_chunk :: "u64 range list"
  ce_last_end :: "u64 option"
  ce_new_piece :: bool

definition chunk_encoder_default :: chunk_encoder where
  "chunk_encoder_default =
     \<lparr>ce_segments = [], ce_pending = None, ce_chunk = [], ce_last_end = None, ce_new_piece = False\<rparr>"

definition piece_breaker :: "u64 \<Rightarrow> u64_segment" where
  "piece_breaker start = SegRangeWithHoles (start, start + 1) (enc_from_vec [])"

definition ce_push :: "u64_segment \<Rightarrow> chunk_encoder \<Rightarrow> chunk_encoder" where
  "ce_push seg ce = ce\<lparr>ce_segments := ce_segments ce @ [seg]\<rparr>"

definition flush_pending :: "chunk_encoder \<Rightarrow> chunk_encoder" where
  "flush_pending ce =
     (case ce_pending ce of
        None \<Rightarrow> ce
      | Some (r, opens_piece) \<Rightarrow>
          let ce = ce\<lparr>ce_pending := None\<rparr>;
              ce = (if opens_piece then ce_push (piece_breaker (fst r)) ce else ce);
              r = (if opens_piece then (fst r + 1, snd r) else r)
          in if \<not> range_is_empty r then ce_push (SegRange r) ce else ce)"

definition ce_push_range :: "u64 range \<Rightarrow> chunk_encoder \<Rightarrow> chunk_encoder" where
  "ce_push_range run ce =
     (case ce_pending ce of
        Some (pending, opens) \<Rightarrow>
          if snd pending = fst run then ce\<lparr>ce_pending := Some ((fst pending, snd run), opens)\<rparr>
          else (flush_pending ce)\<lparr>ce_pending := Some (run, ce_new_piece ce), ce_new_piece := False\<rparr>
      | None \<Rightarrow> ce\<lparr>ce_pending := Some (run, ce_new_piece ce), ce_new_piece := False\<rparr>)"

definition run_holes :: "u64 range list \<Rightarrow> u64 list" where
  "run_holes runs = concat (map (\<lambda>(a, b). range_vals (snd a, fst b)) (pairs2 runs))"

definition run_bitmap :: "u64 range list \<Rightarrow> bitmap res" where
  "run_bitmap runs =
     (let base = fst (hd runs); span = snd (last runs) - base; offset = (\<lambda>id. unat (id - base))
      in foldr_res (\<lambda>(a, b) bm. bitmap_clear_range bm (offset (snd a), offset (fst b))) (pairs2 runs)
           (bitmap_new_full (unat span)))"

definition breaker_rest :: "u64 range list \<Rightarrow> u64 range list" where
  "breaker_rest runs =
     (let rest = (fst (hd runs) + 1, snd (hd runs)) # tl runs in if range_is_empty (hd rest) then tl rest else rest)"

definition chunk_byte_costs :: "u64 range list \<Rightarrow> bool \<Rightarrow> u64 \<times> u64 \<times> u64 \<times> u64" where
  "chunk_byte_costs runs opens_piece =
     (let span = snd (last runs) - fst (hd runs); count = sum_list (map (\<lambda>r. snd r - fst r) runs)
      in (16 * word_of_nat (length runs) + (if opens_piece then 24 else 0),
          24 + 2 * (span - count),
          24 + word_of_nat (div_ceil (unat span) 8),
          24 + 2 * count))"

definition flush_chunk :: "chunk_encoder \<Rightarrow> chunk_encoder res" where
  "flush_chunk ce =
     (let runs = ce_chunk ce; ce = ce\<lparr>ce_chunk := []\<rparr>
      in case runs of
           [] \<Rightarrow> Inr ce
         | [only] \<Rightarrow> Inr (ce_push_range only ce)
         | first # _ \<Rightarrow>
             let ce = flush_pending ce; rng = (fst first, snd (last runs)); opens_piece = ce_new_piece ce;
                 ce = ce\<lparr>ce_new_piece := False\<rparr>;
                 (range_bytes, holes_bytes, bitmap_bytes, array_bytes) = chunk_byte_costs runs opens_piece;
                 smallest = min (min (min range_bytes holes_bytes) bitmap_bytes) array_bytes
             in if smallest = holes_bytes then
                  Inr (ce_push (SegRangeWithHoles rng (enc_from_vec (run_holes runs))) ce)
                else if smallest = bitmap_bytes then
                  bindr (run_bitmap runs) (\<lambda>bm. Inr (ce_push (SegRangeWithBitmap rng bm) ce))
                else if smallest = range_bytes then
                  if opens_piece then
                    let ce = ce_push (piece_breaker (fst first)) ce; rest = breaker_rest runs
                    in case rest of
                         [only] \<Rightarrow> Inr (ce_push (SegRange only) ce)
                       | _ \<Rightarrow> bindr (unwrap (segment_from_sorted_ranges rest)) (\<lambda>seg. Inr (ce_push seg ce))
                  else bindr (unwrap (segment_from_sorted_ranges runs)) (\<lambda>seg. Inr (ce_push seg ce))
                else Inr (ce_push (SegSortedArray (enc_from_vec (concat (map range_vals runs)))) ce))"

definition push_clipped :: "u64 range \<Rightarrow> chunk_encoder \<Rightarrow> chunk_encoder res" where
  "push_clipped run ce =
     bindr (if ce_chunk ce \<noteq> [] \<and>
               (fst (hd (ce_chunk ce)) div REENCODE_CHUNK_IDS \<noteq> fst run div REENCODE_CHUNK_IDS \<or>
                fst run < snd (last (ce_chunk ce)))
            then flush_chunk ce else Inr ce)
       (\<lambda>ce. let opens = (case ce_last_end ce of
                            Some e \<Rightarrow> fst run > e \<and> fst run - e > REENCODE_CHUNK_IDS
                          | None \<Rightarrow> False);
                 ce = ce\<lparr>ce_new_piece := (if opens then True else ce_new_piece ce), ce_last_end := Some (snd run)\<rparr>
             in Inr (ce\<lparr>ce_chunk :=
                  (if ce_chunk ce \<noteq> [] \<and> snd (last (ce_chunk ce)) = fst run
                   then butlast (ce_chunk ce) @ [(fst (last (ce_chunk ce)), snd run)]
                   else ce_chunk ce @ [run])\<rparr>))"

definition chunk_end :: "u64 \<Rightarrow> u64" where
  "chunk_end start = saturating_add (start OR (REENCODE_CHUNK_IDS - 1)) 1"

lemma le_or_word: "(x :: 'a::len word) \<le> x OR y"
  by (simp add: word_le_def unsigned_or_eq or_greater_eq)

lemma chunk_end_greater: "start < lim \<Longrightarrow> start < min lim (chunk_end start)"
proof -
  assume less: "start < lim"
  let ?m = "start OR (REENCODE_CHUNK_IDS - 1)"
  have le: "start \<le> ?m" by (rule le_or_word)
  have "start < chunk_end start"
  proof (cases "?m = - 1")
    case True
    then have "chunk_end start = - 1" by (simp add: chunk_end_def saturating_add_def checked_add_1)
    moreover have "start < - 1" using less by (metis word_order.extremum_strict word_order.not_eq_extremum)
    ultimately show ?thesis by simp
  next
    case False
    then have "chunk_end start = ?m + 1" by (simp add: chunk_end_def saturating_add_def checked_add_1)
    moreover have "unat (?m + 1) = unat ?m + 1" using False by (simp add: unat_add_1[of ?m "- 1"] word_order.not_eq_extremum[symmetric])
    ultimately show ?thesis using le by (simp add: word_less_nat_alt word_le_nat_alt)
  qed
  with less show ?thesis by simp
qed

function push_run :: "u64 range \<Rightarrow> chunk_encoder \<Rightarrow> chunk_encoder res" where
  "push_run run ce =
     (if fst run < snd run then
        let e = min (snd run) (chunk_end (fst run))
        in bindr (push_clipped (fst run, e) ce) (push_run (e, snd run))
      else Inr ce)"
  by pat_completeness auto
termination
  by (relation "measure (\<lambda>(run, ce). unat (snd run) - unat (fst run))")
    (use chunk_end_greater in \<open>auto simp: word_less_nat_alt intro!: diff_less_mono2\<close>)

declare push_run.simps [simp del]

definition push_verbatim :: "u64_segment \<Rightarrow> chunk_encoder \<Rightarrow> chunk_encoder res" where
  "push_verbatim seg ce =
     bindr (flush_chunk ce)
       (\<lambda>ce. Inr ((ce_push seg (flush_pending ce))\<lparr>ce_last_end := None, ce_new_piece := False\<rparr>))"

definition ce_finish :: "chunk_encoder \<Rightarrow> u64_segment list res" where
  "ce_finish ce = bindr (flush_chunk ce) (\<lambda>ce. Inr (ce_segments (flush_pending ce)))"

definition reencode_segment :: "u64_segment \<Rightarrow> chunk_encoder \<Rightarrow> chunk_encoder res" where
  "reencode_segment seg ce =
     (case seg of
        SegArray _ \<Rightarrow> push_verbatim seg ce
      | _ \<Rightarrow> bindr (segment_runs seg) (\<lambda>runs. foldr_res push_run runs ce))"

definition reencode :: "row_id_sequence \<Rightarrow> row_id_sequence res" where
  "reencode sq =
     (if (case row_id_range sq of Some (lo, hi) \<Rightarrow> hi = - 1 | None \<Rightarrow> False) then Inr sq
      else bindr (foldr_res reencode_segment sq chunk_encoder_default) ce_finish)"

fun range_kind :: "u64_segment \<Rightarrow> bool" where
  "range_kind (SegRange _) \<longleftrightarrow> True"
| "range_kind (SegRanges _ _) \<longleftrightarrow> True"
| "range_kind _ \<longleftrightarrow> False"

fun gap_in_runs :: "u64 option \<Rightarrow> u64 range list \<Rightarrow> bool \<times> u64 option" where
  "gap_in_runs previous_end [] = (False, previous_end)"
| "gap_in_runs previous_end (run # runs) =
     (if (case previous_end of Some e \<Rightarrow> fst run > e \<and> fst run - e > REENCODE_CHUNK_IDS | None \<Rightarrow> False)
      then (True, previous_end) else gap_in_runs (Some (snd run)) runs)"

fun span_gap_loop :: "u64 option \<Rightarrow> row_id_sequence \<Rightarrow> bool res" where
  "span_gap_loop previous_end [] = Inr False"
| "span_gap_loop previous_end (seg # sq) =
     (if \<not> range_kind seg then span_gap_loop None sq
      else bindr (segment_runs seg)
        (\<lambda>runs. case gap_in_runs previous_end runs of
                   (True, _) \<Rightarrow> Inr True
                 | (False, previous_end) \<Rightarrow> span_gap_loop previous_end sq))"

definition range_runs_span_a_gap :: "row_id_sequence \<Rightarrow> bool res" where
  "range_runs_span_a_gap sq = span_gap_loop None sq"

subsection \<open>Deleting by row id and by position\<close>

definition segment_match :: "u64 \<Rightarrow> u64_segment \<Rightarrow> usize list \<Rightarrow> usize list res" where
  "segment_match row_id seg matches =
     (if (case segment_range seg of Some (lo, hi) \<Rightarrow> lo \<le> row_id \<and> row_id \<le> hi | None \<Rightarrow> False)
      then bindr (segment_position seg row_id)
        (\<lambda>pos. Inr (case pos of Some offset \<Rightarrow> matches @ [offset] | None \<Rightarrow> matches))
      else Inr matches)"

definition find_matches :: "row_id_sequence \<Rightarrow> u64 list \<Rightarrow> usize list list res" where
  "find_matches sq row_ids =
     foldr_res (\<lambda>row_id matches. mapr (\<lambda>(seg, m). segment_match row_id seg m) (zip sq matches)) row_ids
       (replicate (length sq) [])"

fun match_ranges :: "usize \<Rightarrow> usize \<Rightarrow> usize list list \<Rightarrow> (usize \<times> usize range) list" where
  "match_ranges segment_idx offset [] = []"
| "match_ranges segment_idx offset (m # matches) =
     (if m = [] then match_ranges (segment_idx + 1) offset matches
      else (segment_idx, (offset, offset + length m)) #
           match_ranges (segment_idx + 1) (offset + length m) matches)"

definition find_ids :: "row_id_sequence \<Rightarrow> u64 list \<Rightarrow> (u64 list \<times> (usize \<times> usize range) list) res" where
  "find_ids sq row_ids =
     bindr (find_matches sq row_ids)
       (\<lambda>matches. let matches = map sort matches
                  in bindr (mapr (\<lambda>(seg, m). mapr (\<lambda>off. bindr (segment_get seg off) unwrap) m) (zip sq matches))
                       (\<lambda>ids. Inr (concat ids, match_ranges 0 0 matches)))"

definition delete_step ::
  "u64_segment list \<Rightarrow> u64 list \<Rightarrow> usize \<times> usize range \<Rightarrow> u64_segment list \<times> u64_segment list \<Rightarrow>
   (u64_segment list \<times> u64_segment list) res" where
  "delete_step old_segments row_ids = (\<lambda>(segment_idx, s, e) (out, remaining).
     let segments_handled = length old_segments - length remaining;
         segments_to_add = usize_sub segment_idx segments_handled
     in if length remaining < segments_to_add then Inl Panic
        else case drop segments_to_add remaining of
               [] \<Rightarrow> Inl Panic
             | seg # rest \<Rightarrow>
                 if s \<le> e \<and> e \<le> length row_ids then
                   bindr (segment_delete seg (take (e - s) (drop s row_ids)))
                     (\<lambda>seg'. Inr (out @ take segments_to_add remaining @ [seg'], rest))
                 else Inl Panic)"

definition sequence_delete :: "row_id_sequence \<Rightarrow> u64 list \<Rightarrow> row_id_sequence res" where
  "sequence_delete sq row_ids =
     bindr (find_ids sq row_ids)
       (\<lambda>(row_ids, offsets). bindr (foldr_res (delete_step sq row_ids) offsets ([], sq))
          (\<lambda>(out, remaining). Inr (out @ remaining)))"

fun take_positions :: "u32 \<Rightarrow> u32 \<Rightarrow> u32 list \<Rightarrow> u32 list \<times> u32 list" where
  "take_positions cutoff offset [] = ([], [])"
| "take_positions cutoff offset (p # ps) =
     (if p \<ge> cutoff then ([], p # ps)
      else let (taken, rest) = take_positions cutoff offset ps in ((p - offset) # taken, rest))"

fun sequence_mask_loop :: "row_id_sequence \<Rightarrow> u32 list \<Rightarrow> u32 \<Rightarrow> row_id_sequence res" where
  "sequence_mask_loop [] positions offset = Inr []"
| "sequence_mask_loop (seg # sq) positions offset =
     bindr (segment_len seg)
       (\<lambda>n. let cutoff = offset + word_of_nat n; (local_positions, rest) = take_positions cutoff offset positions
            in bindr (if local_positions = [] then Inr seg else segment_mask seg local_positions)
                 (\<lambda>seg'. bindr (sequence_mask_loop sq rest cutoff) (\<lambda>sq'. Inr (seg' # sq'))))"

definition sequence_mask :: "row_id_sequence \<Rightarrow> u32 list \<Rightarrow> row_id_sequence res" where
  "sequence_mask sq positions =
     bindr (sequence_mask_loop sq positions 0)
       (filterr (\<lambda>seg. bindr (segment_is_empty seg) (\<lambda>b. Inr (\<not> b))))"

subsection \<open>Re-chunking and selection\<close>

fun rechunk_loop ::
  "bool \<Rightarrow> u64_segment list \<Rightarrow> u64 \<Rightarrow> u64 \<Rightarrow> row_id_sequence \<Rightarrow> (row_id_sequence \<times> u64_segment list \<times> u64) res" where
  "rechunk_loop allow_incomplete [] segment_offset remaining sq =
     (if remaining > 0 \<and> \<not> allow_incomplete then Inl InvalidInput else Inr (sq, [], segment_offset))"
| "rechunk_loop allow_incomplete (seg # segs) segment_offset remaining sq =
     (if remaining > 0 then
        bindr (segment_len seg)
          (\<lambda>n. let remaining_in_segment = word_of_nat n - segment_offset
               in if remaining_in_segment = 0 then rechunk_loop allow_incomplete segs 0 remaining sq
                  else if remaining_in_segment > remaining then
                    bindr (segment_slice seg (unat segment_offset) (unat remaining))
                      (\<lambda>s. Inr (sequence_extend sq [s], seg # segs, segment_offset + remaining))
                  else
                    bindr (segment_slice seg (unat segment_offset) (unat remaining_in_segment))
                      (\<lambda>s. rechunk_loop allow_incomplete segs 0 (remaining - remaining_in_segment) (sequence_extend sq [s])))
      else Inr (sq, seg # segs, segment_offset))"

fun rechunk_chunks ::
  "bool \<Rightarrow> u64 list \<Rightarrow> u64_segment list \<Rightarrow> u64 \<Rightarrow> (row_id_sequence list \<times> u64_segment list) res" where
  "rechunk_chunks allow_incomplete [] segs segment_offset = Inr ([], segs)"
| "rechunk_chunks allow_incomplete (chunk_size # sizes) segs segment_offset =
     bindr (rechunk_loop allow_incomplete segs segment_offset chunk_size [])
       (\<lambda>(sq, segs', segment_offset').
          bindr (rechunk_chunks allow_incomplete sizes segs' segment_offset')
            (\<lambda>(sqs, segs''). Inr (sq # sqs, segs'')))"

definition rechunk_sequences :: "row_id_sequence list \<Rightarrow> u64 list \<Rightarrow> bool \<Rightarrow> row_id_sequence list res" where
  "rechunk_sequences sqs chunk_sizes allow_incomplete =
     bindr (rechunk_chunks allow_incomplete chunk_sizes (concat sqs) 0)
       (\<lambda>(chunks, segs). if segs \<noteq> [] then Inl InvalidInput else Inr chunks)"

datatype read_batch_params =
    RbpRange "usize range"
  | RbpRanges "u64 range list"
  | RbpRangeFull
  | RbpRangeTo usize
  | RbpRangeFrom usize
  | RbpIndices "u32 list"

definition ok_or :: "lance_error \<Rightarrow> 'a option \<Rightarrow> 'a res" where
  "ok_or e r = (case r of Some x \<Rightarrow> Inr x | None \<Rightarrow> Inl e)"

definition slice_vals :: "row_id_sequence \<Rightarrow> usize \<Rightarrow> usize \<Rightarrow> u64 list res" where
  "slice_vals sq offset len = bindr (sequence_slice sq offset len) slice_iter"

fun select_row_ids :: "row_id_sequence \<Rightarrow> read_batch_params \<Rightarrow> u64 list res" where
  "select_row_ids sq (RbpIndices indices) =
     (if list_all (\<lambda>(a, b). a \<le> b) (pairs2 indices) then
        bindr (sequence_len sq)
          (\<lambda>n. if indices \<noteq> [] \<and> ucast (last indices) \<ge> n then Inl InvalidInput
               else sequence_select sq (map unat indices))
      else mapr (\<lambda>index. bindr (sequence_get sq (unat index)) (ok_or InvalidInput)) indices)"
| "select_row_ids sq (RbpRange r) =
     bindr (sequence_len sq)
       (\<lambda>n. if snd r > unat n then Inl InvalidInput else slice_vals sq (fst r) (usize_sub (snd r) (fst r)))"
| "select_row_ids sq (RbpRanges rs) =
     bindr (mapr (\<lambda>r. bindr (sequence_len sq)
                        (\<lambda>n. if snd r > n then Inl InvalidInput else slice_vals sq (unat (fst r)) (unat (snd r - fst r)))) rs)
       (\<lambda>vals. Inr (concat vals))"
| "select_row_ids sq RbpRangeFull = sequence_iter sq"
| "select_row_ids sq (RbpRangeTo to) =
     bindr (sequence_len sq) (\<lambda>n. if to > unat n then Inl InvalidInput else slice_vals sq 0 to)"
| "select_row_ids sq (RbpRangeFrom from) =
     bindr (sequence_len sq) (\<lambda>n. slice_vals sq from (usize_sub (unat n) from))"

end
