(* ===== verification/Sequence_Reading.thy ===== *)
theory Sequence_Reading
  imports Sequence
begin

text \<open>
  Reading a \<open>RowIdSequence\<close>: its values are the concatenation of the values of its segments, and
  \<open>get\<close>, \<open>select\<close>, the resumable cursor, slices and \<open>select_row_ids\<close> all read that list.
\<close>

definition seq_vals :: "row_id_sequence \<Rightarrow> u64 list" where
  "seq_vals sq = concat (map segment_vals sq)"

definition seq_wf :: "row_id_sequence \<Rightarrow> bool" where
  "seq_wf sq \<longleftrightarrow> list_all segment_wf sq"

lemma seq_vals_simps [simp]:
  "seq_vals [] = []"
  "seq_vals (seg # sq) = segment_vals seg @ seq_vals sq"
  "seq_vals (xs @ ys) = seq_vals xs @ seq_vals ys"
  by (simp_all add: seq_vals_def)

lemma seq_wf_simps [simp]:
  "seq_wf []"
  "seq_wf (seg # sq) \<longleftrightarrow> segment_wf seg \<and> seq_wf sq"
  "seq_wf (xs @ ys) \<longleftrightarrow> seq_wf xs \<and> seq_wf ys"
  by (simp_all add: seq_wf_def)

lemma seq_wf_nth: "seq_wf sq \<Longrightarrow> i < length sq \<Longrightarrow> segment_wf (sq ! i)"
  by (simp add: seq_wf_def list_all_length)

lemma seq_wf_take_drop: "seq_wf sq \<Longrightarrow> seq_wf (take n sq)" "seq_wf sq \<Longrightarrow> seq_wf (drop n sq)"
  by (auto simp: seq_wf_def list_all_set dest: in_set_takeD in_set_dropD)

lemma seq_wf_iff: "seq_wf sq \<longleftrightarrow> (\<forall>seg \<in> set sq. segment_wf seg)"
  by (simp add: seq_wf_def list_all_set)

lemma mapr_segment_len: "seq_wf sq \<Longrightarrow> mapr segment_len sq = Inr (map (\<lambda>s. length (segment_vals s)) sq)"
  by (rule mapr_Inr) (simp add: segment_len_eq seq_wf_iff)

lemma sequence_iter_eq: "seq_wf sq \<Longrightarrow> sequence_iter sq = Inr (seq_vals sq)"
  unfolding sequence_iter_def seq_vals_def
  by (subst mapr_Inr[where g = segment_vals]) (simp_all add: segment_iter_eq seq_wf_iff)

lemma length_seq_vals: "length (seq_vals sq) = sum_list (map (\<lambda>s. length (segment_vals s)) sq)"
  by (simp add: seq_vals_def length_concat comp_def)

lemma sequence_len_eq: "seq_wf sq \<Longrightarrow> sequence_len sq = Inr (word_of_nat (length (seq_vals sq)))"
proof -
  assume wf: "seq_wf sq"
  have "sum_list (map word_of_nat ns) = (word_of_nat (sum_list ns) :: u64)" for ns
    by (induction ns) simp_all
  then show ?thesis by (simp add: sequence_len_def mapr_segment_len[OF wf] length_seq_vals)
qed

lemma unat_seq_len: "length (seq_vals sq) < 2 ^ 64 \<Longrightarrow> unat (word_of_nat (length (seq_vals sq)) :: u64) = length (seq_vals sq)"
  by (simp add: unat_of_nat)

subsection \<open>Construction\<close>

lemma windows_less_sorted: "list_all (\<lambda>(a, b). a < b) (pairs2 xs) \<longleftrightarrow> sorted_wrt (<) xs"
  for xs :: "'a::linorder list"
  by (induction xs rule: induct_list012) (auto simp: pairs2_def dest: order.strict_trans)

lemma windows_le_sorted: "list_all (\<lambda>(a, b). a \<le> b) (pairs2 xs) \<longleftrightarrow> sorted xs"
  for xs :: "'a::linorder list"
  by (induction xs rule: induct_list012) (auto simp: pairs2_def dest: order.trans)

lemma find_equal_pair: "sorted xs \<Longrightarrow> find (\<lambda>(a, b). a = b) (pairs2 xs) = None \<longleftrightarrow> distinct xs"
  for xs :: "'a::linorder list"
proof (induction xs rule: induct_list012)
  case (3 x y zs)
  then have "find (\<lambda>(a, b). a = b) (pairs2 (y # zs)) = None \<longleftrightarrow> distinct (y # zs)" by simp
  with 3 show ?case by (auto simp: pairs2_def order.antisym)
qed (simp_all add: pairs2_def)

lemma find_duplicate_None: "find_duplicate xs = None \<longleftrightarrow> distinct xs"
proof (cases "list_all (\<lambda>(a, b). a < b) (pairs2 xs)")
  case True
  then have "distinct xs" by (simp add: windows_less_sorted strict_sorted_distinct)
  with True show ?thesis by (simp add: find_duplicate_def)
next
  case False
  then show ?thesis by (simp add: find_duplicate_def find_equal_pair[of "sort xs", simplified])
qed

lemma count_list_pair: "(d, d) \<in> set (pairs2 xs) \<Longrightarrow> 2 \<le> count_list xs d"
proof (induction xs rule: induct_list012)
  case (3 x y zs)
  then have "x = d \<and> y = d \<or> (d, d) \<in> set (pairs2 (y # zs))" by (auto simp: pairs2_def)
  then show ?case using "3.IH"(2) by (elim disjE) auto
qed (simp_all add: pairs2_def)

lemma find_duplicate_Some: "find_duplicate xs = Some d \<Longrightarrow> 2 \<le> count_list xs d"
proof -
  assume dup: "find_duplicate xs = Some d"
  then obtain p where "find (\<lambda>(a, b). a = b) (pairs2 (sort xs)) = Some p" "fst p = d"
    by (auto simp: find_duplicate_def split: if_splits)
  then have "(d, d) \<in> set (pairs2 (sort xs))" by (cases p) (auto simp: find_Some_iff in_set_conv_nth)
  then have "2 \<le> count_list (sort xs) d" by (rule count_list_pair)
  then show ?thesis by (simp add: count_list_eq_length_filter filter_sort)
qed

lemma set_map_filter: "set (List.map_filter f xs) = {y. \<exists>x \<in> set xs. f x = Some y}"
  by (induction xs) (auto simp: List.map_filter_simps split: option.splits)

lemma try_from_iter_eq:
  assumes "length xs < 2 ^ 64"
  shows "if distinct xs then \<exists>sq. try_from_iter xs = Inr sq \<and> seq_wf sq \<and> seq_vals sq = xs
    else try_from_iter xs = Inl InvalidInput"
proof (cases "distinct xs")
  case True
  then show ?thesis using segment_from_slice_eq[OF True assms] find_duplicate_None[of xs]
    by (cases "xs = []") (auto simp: try_from_iter_def)
next
  case False
  moreover from False have "xs \<noteq> []" by auto
  ultimately show ?thesis using find_duplicate_None[of xs] by (auto simp: try_from_iter_def split: option.splits)
qed

lemma row_id_range_bounds:
  assumes "seq_wf sq"
  shows "case row_id_range sq of None \<Rightarrow> seq_vals sq = [] | Some (lo, hi) \<Rightarrow> \<forall>v \<in> set (seq_vals sq). lo \<le> v \<and> v \<le> hi"
proof (cases "List.map_filter segment_range sq = []")
  case True
  then have "segment_range seg = None" if "seg \<in> set sq" for seg
    using that set_map_filter[of segment_range sq] by (cases "segment_range seg") auto
  then have "seq_vals sq = []"
    using assms by (auto simp: seq_vals_def seq_wf_iff segment_range_None)
  then show ?thesis by (auto split: option.splits)
next
  case False
  let ?rs = "List.map_filter segment_range sq"
  have rng: "row_id_range sq = Some (Min (fst ` set ?rs), Max (snd ` set ?rs))"
    using False by (simp add: row_id_range_def option_pair_def list_min_eq list_max_eq)
  have "Min (fst ` set ?rs) \<le> v \<and> v \<le> Max (snd ` set ?rs)" if "v \<in> set (seq_vals sq)" for v
  proof -
    from that have "\<exists>seg \<in> set sq. v \<in> set (segment_vals seg)" by (simp add: seq_vals_def)
    then obtain seg where seg: "seg \<in> set sq" "v \<in> set (segment_vals seg)" by blast
    then obtain lo hi where r: "segment_range seg = Some (lo, hi)"
      using assms segment_range_None by (fastforce simp: seq_wf_iff)
    then have "(lo, hi) \<in> set ?rs" using seg by (force simp: List.map_filter_def image_iff)
    then have "Min (fst ` set ?rs) \<le> lo" "hi \<le> Max (snd ` set ?rs)" by (force intro: Min_le Max_ge)+
    with segment_range_bounds[OF _ r seg(2)] seg(1) assms show ?thesis by (auto simp: seq_wf_iff)
  qed
  with rng show ?thesis by simp
qed

subsection \<open>Random access\<close>

definition nth_opt :: "'a list \<Rightarrow> nat \<Rightarrow> 'a option" where
  "nth_opt xs i = (if i < length xs then Some (xs ! i) else None)"

lemma nth_opt_append: "nth_opt (xs @ ys) i = (if i < length xs then nth_opt xs i else nth_opt ys (i - length xs))"
  by (auto simp: nth_opt_def nth_append)

lemmas segment_get_nth = segment_get_eq[folded nth_opt_def]
lemmas cursor_get_nth = cursor_get_eq[folded nth_opt_def]

lemma sequence_get_loop_eq:
  "seq_wf sq \<Longrightarrow> offset \<le> index \<Longrightarrow> index < 2 ^ 64 \<Longrightarrow>
   sequence_get_loop sq index offset = Inr (nth_opt (seq_vals sq) (index - offset))"
proof (induction sq arbitrary: offset)
  case Nil
  then show ?case by (simp add: nth_opt_def)
next
  case (Cons seg sq)
  let ?n = "length (segment_vals seg)"
  show ?case
  proof (cases "index < offset + ?n")
    case True
    then have "index - offset < ?n" using Cons.prems by linarith
    then show ?thesis using Cons.prems True by (simp add: segment_len_eq segment_get_nth nth_opt_append)
  next
    case False
    then have "\<not> index - offset < ?n" "offset + ?n \<le> index" using Cons.prems by linarith+
    then show ?thesis using Cons.prems Cons.IH[of "offset + ?n"] False by (simp add: segment_len_eq nth_opt_append)
  qed
qed

lemma sequence_get_eq: "seq_wf sq \<Longrightarrow> index < 2 ^ 64 \<Longrightarrow> sequence_get sq index = Inr (nth_opt (seq_vals sq) index)"
  by (simp add: sequence_get_def sequence_get_loop_eq)

subsection \<open>The resumable reader\<close>

definition sequence_cursor_inv :: "row_id_sequence \<Rightarrow> sequence_cursor \<Rightarrow> bool" where
  "sequence_cursor_inv sq c \<longleftrightarrow>
     rc_segment_idx c \<le> length sq \<and>
     rc_rows_passed c = length (seq_vals (take (rc_segment_idx c) sq)) \<and>
     (if rc_segment_idx c < length sq
      then (rc_segment_len c = None \<or> rc_segment_len c = Some (length (segment_vals (sq ! rc_segment_idx c)))) \<and>
           segment_cursor_inv (sq ! rc_segment_idx c) (rc_segment_cursor c)
      else rc_segment_len c = None)"

lemma sequence_cursor_inv_default [simp]: "sequence_cursor_inv sq sequence_cursor_default"
  by (simp add: sequence_cursor_inv_def sequence_cursor_default_def)

lemma sequence_cursor_inv_last_index [simp]: "sequence_cursor_inv sq (c\<lparr>rc_last_index := x\<rparr>) \<longleftrightarrow> sequence_cursor_inv sq c"
  by (simp add: sequence_cursor_inv_def)

lemma rows_passed_default [simp]: "rc_rows_passed sequence_cursor_default = 0"
  by (simp add: sequence_cursor_default_def)

lemma rewind_sequence_inv:
  assumes "sequence_cursor_inv sq c"
  shows "sequence_cursor_inv sq (rewind_sequence index c)" "rc_rows_passed (rewind_sequence index c) \<le> index"
  using assms by (auto simp: rewind_sequence_def)

lemma seq_vals_split_at: "i < length sq \<Longrightarrow> seq_vals sq = seq_vals (take i sq) @ segment_vals (sq ! i) @ seq_vals (drop (Suc i) sq)"
  by (metis append_take_drop_id Cons_nth_drop_Suc seq_vals_simps(2,3))

lemma seq_vals_take_Suc: "i < length sq \<Longrightarrow> seq_vals (take (Suc i) sq) = seq_vals (take i sq) @ segment_vals (sq ! i)"
  by (simp add: take_Suc_conv_app_nth)

text \<open>The segment length is cached on the first visit of a segment.\<close>

definition at_segment :: "row_id_sequence \<Rightarrow> sequence_cursor \<Rightarrow> sequence_cursor" where
  "at_segment sq c = c\<lparr>rc_segment_len := Some (length (segment_vals (sq ! rc_segment_idx c)))\<rparr>"

lemma cursor_segment_len_eq:
  assumes "seq_wf sq" "sequence_cursor_inv sq c" "rc_segment_idx c < length sq"
  shows "cursor_segment_len (sq ! rc_segment_idx c) c = Inr (length (segment_vals (sq ! rc_segment_idx c)))"
  using assms by (auto simp: cursor_segment_len_def sequence_cursor_inv_def segment_len_eq seq_wf_nth)

lemma advance_segment_inv:
  assumes "sequence_cursor_inv sq c" "rc_segment_idx c < length sq"
  shows "sequence_cursor_inv sq (advance_segment (at_segment sq c))"
    "rc_rows_passed (advance_segment (at_segment sq c)) = rc_rows_passed c + length (segment_vals (sq ! rc_segment_idx c))"
    "rc_segment_idx (advance_segment (at_segment sq c)) = Suc (rc_segment_idx c)"
  using assms by (auto simp: sequence_cursor_inv_def advance_segment_def at_segment_def seq_vals_take_Suc)

lemma at_segment_inv:
  assumes "sequence_cursor_inv sq c" "rc_segment_idx c < length sq" "segment_cursor_inv (sq ! rc_segment_idx c) st"
  shows "sequence_cursor_inv sq ((at_segment sq c)\<lparr>rc_segment_cursor := st\<rparr>)"
  using assms by (simp add: sequence_cursor_inv_def at_segment_def)

lemma at_segment_cursor_commute: "(at_segment sq c)\<lparr>rc_segment_cursor := st\<rparr> = at_segment sq (c\<lparr>rc_segment_cursor := st\<rparr>)"
  by (simp add: at_segment_def)

lemma at_segment_fields [simp]:
  "rc_rows_passed (at_segment sq c) = rc_rows_passed c" "rc_segment_idx (at_segment sq c) = rc_segment_idx c"
  "rc_segment_cursor (at_segment sq c) = rc_segment_cursor c"
  by (simp_all add: at_segment_def)

lemma cursor_inv_exhausted:
  "sequence_cursor_inv sq c \<Longrightarrow> \<not> rc_segment_idx c < length sq \<Longrightarrow> rc_rows_passed c = length (seq_vals sq)"
  by (auto simp: sequence_cursor_inv_def)

lemma nth_opt_at_segment:
  assumes "sequence_cursor_inv sq c" "rc_segment_idx c < length sq" "rc_rows_passed c \<le> index"
    "index - rc_rows_passed c < length (segment_vals (sq ! rc_segment_idx c))"
  shows "nth_opt (seq_vals sq) index = nth_opt (segment_vals (sq ! rc_segment_idx c)) (index - rc_rows_passed c)"
  using assms by (subst seq_vals_split_at[of "rc_segment_idx c"])
    (auto simp: sequence_cursor_inv_def nth_opt_append)

lemma sequence_cursor_loop_eq:
  assumes "seq_wf sq" "index < 2 ^ 64"
  shows "sequence_cursor_inv sq c \<Longrightarrow> rc_rows_passed c \<le> index \<Longrightarrow>
    \<exists>c'. sequence_cursor_loop sq c index = Inr (nth_opt (seq_vals sq) index, c') \<and> sequence_cursor_inv sq c'"
proof (induction "length sq - rc_segment_idx c" arbitrary: c rule: less_induct)
  case less
  let ?seg = "sq ! rc_segment_idx c"
  let ?local = "index - rc_rows_passed c"
  show ?case
  proof (cases "rc_segment_idx c < length sq")
    case False
    then have "rc_rows_passed c = length (seq_vals sq)" using less.prems(1) by (intro cursor_inv_exhausted)
    then show ?thesis using False less.prems by (simp add: sequence_cursor_loop.simps nth_opt_def)
  next
    case True
    then have seg: "segment_wf ?seg" "segment_cursor_inv ?seg (rc_segment_cursor c)"
      using assms less.prems by (auto simp: seq_wf_nth sequence_cursor_inv_def)
    note unfold = sequence_cursor_loop.simps[of sq c] cursor_segment_len_eq[OF assms(1) less.prems(1) True]
      at_segment_def[symmetric] usize_sub_le[OF less.prems(2)]
    show ?thesis
    proof (cases "?local < length (segment_vals ?seg)")
      case in_seg: True
      obtain st' where "cursor_get ?seg (rc_segment_cursor c) ?local = Inr (nth_opt (segment_vals ?seg) ?local, st')"
        "segment_cursor_inv ?seg st'"
        using cursor_get_nth[OF seg less_imp_diff_less[OF assms(2)]] by blast
      then show ?thesis using True in_seg less.prems
        by (simp add: unfold Let_def nth_opt_at_segment at_segment_inv)
    next
      case False
      note adv = advance_segment_inv[OF less.prems(1) True]
      have "\<exists>c'. sequence_cursor_loop sq (advance_segment (at_segment sq c)) index =
          Inr (nth_opt (seq_vals sq) index, c') \<and> sequence_cursor_inv sq c'"
        using False True less.prems by (intro less.hyps adv(1)) (auto simp: adv)
      then show ?thesis using True False by (simp add: unfold Let_def)
    qed
  qed
qed

lemma sequence_cursor_get_eq:
  assumes "seq_wf sq" "sequence_cursor_inv sq c" "index < 2 ^ 64"
  shows "\<exists>c'. sequence_cursor_get sq c index = Inr (nth_opt (seq_vals sq) index, c') \<and> sequence_cursor_inv sq c'"
  unfolding sequence_cursor_get_def using assms rewind_sequence_inv[OF assms(2), of index]
  by (intro sequence_cursor_loop_eq) simp_all

lemma map_filter_nth_opt_Cons:
  "List.map_filter (nth_opt xs) (i # is') =
     (case nth_opt xs i of Some x \<Rightarrow> x # List.map_filter (nth_opt xs) is' | None \<Rightarrow> List.map_filter (nth_opt xs) is')"
  by (simp add: List.map_filter_simps split: option.splits)

lemma select_with_cursor_eq:
  assumes "seq_wf sq"
  shows "sequence_cursor_inv sq c \<Longrightarrow> (\<And>i. i \<in> set sel \<Longrightarrow> i < 2 ^ 64) \<Longrightarrow>
    \<exists>c'. select_with_cursor sq c sel = Inr (List.map_filter (nth_opt (seq_vals sq)) sel, c') \<and> sequence_cursor_inv sq c'"
proof (induction sel arbitrary: c)
  case Nil
  then show ?case by (simp add: List.map_filter_simps)
next
  case (Cons i sel)
  obtain c1 where c1: "sequence_cursor_get sq c i = Inr (nth_opt (seq_vals sq) i, c1)" "sequence_cursor_inv sq c1"
    using sequence_cursor_get_eq[OF assms Cons.prems(1)] Cons.prems(2) by fastforce
  obtain c2 where "select_with_cursor sq c1 sel = Inr (List.map_filter (nth_opt (seq_vals sq)) sel, c2)"
    "sequence_cursor_inv sq c2"
    using Cons.IH[OF c1(2)] Cons.prems(2) by fastforce
  with c1 show ?case by (simp add: map_filter_nth_opt_Cons split: option.splits)
qed

lemma select_loop_eq:
  assumes "seq_wf sq"
  shows "sequence_cursor_inv sq c \<Longrightarrow> (\<And>i. i \<in> set sel \<Longrightarrow> i < 2 ^ 64) \<Longrightarrow>
    select_loop sq c prev sel =
      (if sorted ((case prev of Some p \<Rightarrow> [p] | None \<Rightarrow> []) @ sel)
       then Inr (List.map_filter (nth_opt (seq_vals sq)) sel) else Inl Panic)"
proof (induction sel arbitrary: c prev)
  case Nil
  then show ?case by (simp add: List.map_filter_simps split: option.splits)
next
  case (Cons i sel)
  obtain c1 where c1: "sequence_cursor_get sq c i = Inr (nth_opt (seq_vals sq) i, c1)" "sequence_cursor_inv sq c1"
    using sequence_cursor_get_eq[OF assms Cons.prems(1)] Cons.prems(2) by fastforce
  have "select_loop sq c1 (Some i) sel =
      (if sorted (i # sel) then Inr (List.map_filter (nth_opt (seq_vals sq)) sel) else Inl Panic)"
    using Cons.IH[OF c1(2), of "Some i"] Cons.prems(2) by simp
  with c1 show ?case
    by (cases prev) (auto simp: map_filter_nth_opt_Cons split: option.splits)
qed

lemma sequence_select_eq:
  assumes "seq_wf sq" "\<And>i. i \<in> set sel \<Longrightarrow> i < 2 ^ 64"
  shows "sequence_select sq sel =
    (if sorted sel then Inr (List.map_filter (nth_opt (seq_vals sq)) sel) else Inl Panic)"
  using select_loop_eq[OF assms(1), of sequence_cursor_default sel None] assms(2) by (simp add: sequence_select_def)

text \<open>
  The two bulk readers differ only in the segment reader they call; both segment readers append the
  values at the requested positions and keep the segment cursor in step.
\<close>

definition extends_segment :: "segment_extend \<Rightarrow> bool" where
  "extends_segment ext \<longleftrightarrow>
     (\<forall>seg st s e vals. segment_wf seg \<longrightarrow> segment_cursor_inv seg st \<longrightarrow> e \<le> 2 ^ 64 \<longrightarrow>
       (\<exists>st'. ext seg st (s, e) vals = Inr (st', vals @ drop s (take e (segment_vals seg))) \<and> segment_cursor_inv seg st'))"

lemma extends_segment_readers: "extends_segment cursor_extend_range" "extends_segment cursor_extend_dense_range"
  unfolding extends_segment_def using cursor_extend_range_eq cursor_extend_dense_range_eq by blast+

lemma drop_take_at_segment:
  assumes inv: "sequence_cursor_inv sq c" and idx: "rc_segment_idx c < length sq" and "rc_rows_passed c \<le> index"
    "index < end"
  defines "loc \<equiv> index - rc_rows_passed c" and "seg \<equiv> sq ! rc_segment_idx c"
  assumes "loc < length (segment_vals seg)"
  defines "count \<equiv> min (end - index) (length (segment_vals seg) - loc)"
  shows "drop index (take end (seq_vals sq)) =
    drop loc (take (loc + count) (segment_vals seg)) @ drop (index + count) (take end (seq_vals sq))"
proof -
  let ?p = "rc_rows_passed c"
  let ?pre = "seq_vals (take (rc_segment_idx c) sq)"
  let ?post = "seq_vals (drop (Suc (rc_segment_idx c)) sq)"
  have p: "length ?pre = ?p" using inv by (simp add: sequence_cursor_inv_def)
  have split: "seq_vals sq = ?pre @ segment_vals seg @ ?post"
    unfolding seg_def by (rule seq_vals_split_at[OF idx])
  have "drop index (take end (seq_vals sq)) = take count (drop index (take end (seq_vals sq))) @ drop (index + count) (take end (seq_vals sq))"
    by (metis append_take_drop_id drop_drop add.commute)
  moreover have "take count (drop index (take end (seq_vals sq))) = take count (drop index (seq_vals sq))"
    by (simp add: take_drop min_def count_def assms(4)) (use assms(4) in linarith)
  moreover have "take count (drop index (seq_vals sq)) = drop loc (take (loc + count) (segment_vals seg))"
    unfolding split using assms p by (simp add: take_drop add.commute)
  ultimately show ?thesis by simp
qed

lemma sequence_extend_loop_eq:
  assumes "seq_wf sq" "extends_segment ext" "end \<le> 2 ^ 64"
  shows "sequence_cursor_inv sq c \<Longrightarrow> rc_rows_passed c \<le> index \<Longrightarrow>
    \<exists>c'. sequence_extend_loop ext sq end c index vals = Inr (c', vals @ drop index (take end (seq_vals sq))) \<and>
      sequence_cursor_inv sq c'"
proof (induction "(length sq - rc_segment_idx c) + (end - index)" arbitrary: c index vals rule: less_induct)
  case less
  let ?seg = "sq ! rc_segment_idx c"
  let ?loc = "index - rc_rows_passed c"
  let ?n = "length (segment_vals ?seg)"
  consider "\<not> index < end" | "index < end" "\<not> rc_segment_idx c < length sq"
    | "index < end" "rc_segment_idx c < length sq" "?n \<le> ?loc"
    | "index < end" "rc_segment_idx c < length sq" "?loc < ?n"
    by linarith
  then show ?case
  proof cases
    case 1
    then show ?thesis using less.prems by (simp add: sequence_extend_loop.simps)
  next
    case 2
    then show ?thesis using less.prems cursor_inv_exhausted[OF less.prems(1)] by (simp add: sequence_extend_loop.simps)
  next
    case 3
    note unfold = sequence_extend_loop.simps[of ext sq "end" c] cursor_segment_len_eq[OF assms(1) less.prems(1) 3(2)]
      at_segment_def[symmetric] usize_sub_le[OF less.prems(2)]
    note adv = advance_segment_inv[OF less.prems(1) 3(2)]
    have "\<exists>c'. sequence_extend_loop ext sq end (advance_segment (at_segment sq c)) index vals =
        Inr (c', vals @ drop index (take end (seq_vals sq))) \<and> sequence_cursor_inv sq c'"
      using 3 less.prems by (intro less.hyps adv(1)) (auto simp: adv)
    then show ?thesis using 3 by (simp add: unfold Let_def)
  next
    case 4
    note unfold = sequence_extend_loop.simps[of ext sq "end" c] cursor_segment_len_eq[OF assms(1) less.prems(1) 4(2)]
      at_segment_def[symmetric] usize_sub_le[OF less.prems(2)]
    define count where "count = min (end - index) (?n - ?loc)"
    have count: "0 < count" "count \<le> end - index" "?loc + count \<le> ?n" using 4 by (auto simp: count_def)
    have "segment_wf ?seg" "segment_cursor_inv ?seg (rc_segment_cursor c)"
      using 4 assms less.prems by (auto simp: seq_wf_nth sequence_cursor_inv_def)
    moreover have "?loc + count \<le> 2 ^ 64" using count(2) assms(3) 4(1) by linarith
    ultimately obtain st' where st': "ext ?seg (rc_segment_cursor c) (?loc, ?loc + count) vals =
        Inr (st', vals @ drop ?loc (take (?loc + count) (segment_vals ?seg)))" "segment_cursor_inv ?seg st'"
      using assms(2) unfolding extends_segment_def by blast
    define c1 where "c1 = (at_segment sq c)\<lparr>rc_segment_cursor := st'\<rparr>"
    define c2 where "c2 = (if ?loc + count = ?n then advance_segment c1 else c1)"
    have inv1: "sequence_cursor_inv sq (c\<lparr>rc_segment_cursor := st'\<rparr>)"
      using less.prems(1) st'(2) 4(2) by (simp add: sequence_cursor_inv_def)
    have c1: "c1 = at_segment sq (c\<lparr>rc_segment_cursor := st'\<rparr>)" by (simp add: c1_def at_segment_def)
    have inv2: "sequence_cursor_inv sq c2" "rc_rows_passed c2 \<le> index + count" "rc_segment_idx c \<le> rc_segment_idx c2"
      using advance_segment_inv[OF inv1] at_segment_inv[OF less.prems(1) 4(2) st'(2)] 4(2) less.prems(2)
      by (auto simp: c2_def c1[symmetric] c1_def)
    have "\<exists>c'. sequence_extend_loop ext sq end c2 (index + count) (vals @ drop ?loc (take (?loc + count) (segment_vals ?seg))) =
        Inr (c', (vals @ drop ?loc (take (?loc + count) (segment_vals ?seg))) @ drop (index + count) (take end (seq_vals sq))) \<and>
        sequence_cursor_inv sq c'"
      using count inv2 4 by (intro less.hyps) auto
    moreover have "sequence_extend_loop ext sq end c index vals =
        sequence_extend_loop ext sq end c2 (index + count) (vals @ drop ?loc (take (?loc + count) (segment_vals ?seg)))"
      using 4 st'(1) by (simp add: unfold Let_def count_def[symmetric] c1_def[symmetric] c2_def)
    moreover have "drop index (take end (seq_vals sq)) =
        drop ?loc (take (?loc + count) (segment_vals ?seg)) @ drop (index + count) (take end (seq_vals sq))"
      unfolding count_def using less.prems 4 by (intro drop_take_at_segment)
    ultimately show ?thesis by simp
  qed
qed

lemma cursor_extend_with_eq:
  assumes "seq_wf sq" "extends_segment ext" "e \<le> 2 ^ 64" "sequence_cursor_inv sq c"
  shows "\<exists>c'. cursor_extend_with ext sq c (s, e) vals = Inr (c', vals @ drop s (take e (seq_vals sq))) \<and>
    sequence_cursor_inv sq c'"
proof (cases "s < e")
  case True
  then show ?thesis
    unfolding cursor_extend_with_def using assms rewind_sequence_inv[OF assms(4), of s]
      sequence_extend_loop_eq[OF assms(1,2,3)]
    by (simp add: range_is_empty_def)
next
  case False
  then show ?thesis using assms by (simp add: cursor_extend_with_def range_is_empty_def)
qed

lemma sequence_extend_range_eq:
  assumes "seq_wf sq" "e \<le> 2 ^ 64" "sequence_cursor_inv sq c"
  shows "\<exists>c'. sequence_extend_range sq c (s, e) vals = Inr (c', vals @ drop s (take e (seq_vals sq))) \<and> sequence_cursor_inv sq c'"
    "\<exists>c'. sequence_extend_dense_range sq c (s, e) vals = Inr (c', vals @ drop s (take e (seq_vals sq))) \<and> sequence_cursor_inv sq c'"
  unfolding sequence_extend_range_def sequence_extend_dense_range_def
  using cursor_extend_with_eq[OF assms(1) _ assms(2,3)] extends_segment_readers by blast+

lemma cursor_with_dense_range_expansion_eq:
  assumes "seq_wf sq"
  shows "\<exists>c dense. cursor_with_dense_range_expansion sq = Inr (c, dense) \<and> sequence_cursor_inv sq c"
proof (cases "\<exists>r bm. sq = [SegRangeWithBitmap r bm]")
  case True
  then obtain r bm where sq: "sq = [SegRangeWithBitmap r bm]" by blast
  then have "segment_len (SegRangeWithBitmap r bm) = Inr (length (segment_vals (SegRangeWithBitmap r bm)))"
    using assms by (intro segment_len_eq) simp
  then show ?thesis unfolding sq
    by (simp add: cursor_with_dense_range_expansion_def sequence_cursor_inv_def sequence_cursor_default_def
      cursor_inv_def cursor_default_def del: segment_len.simps segment_vals.simps)
next
  case False
  then have "cursor_with_dense_range_expansion sq = Inr (sequence_cursor_default, False)"
    by (auto simp: cursor_with_dense_range_expansion_def split: list.splits u64_segment.splits)
  then show ?thesis by auto
qed

subsection \<open>Properties\<close>

text \<open>
  C12. \<open>RowIdSequence::try_from_iter\<close> accepts exactly the duplicate-free inputs, and the sequence it
  builds iterates over the input; a repeated id is an error instead of a silently shorter sequence.
\<close>

theorem try_from_iter_correct:
  assumes "length xs < 2 ^ 64"
  shows "if distinct xs then \<exists>sq. try_from_iter xs = Inr sq \<and> seq_wf sq \<and> sequence_iter sq = Inr xs
    else try_from_iter xs = Inl InvalidInput"
  using try_from_iter_eq[OF assms] sequence_iter_eq by (auto split: if_splits)

theorem try_from_iter_correct_witness:
  "if distinct [4, 9, 4 :: u64] then \<exists>sq. try_from_iter [4, 9, 4] = Inr sq \<and> seq_wf sq \<and> sequence_iter sq = Inr [4, 9, 4]
   else try_from_iter [4, 9, 4] = Inl InvalidInput"
  by (rule try_from_iter_correct) simp

text \<open>
  C13. The resumable sequence reader: from every reachable cursor state, reading one index or a range
  of indices, forwards or after moving backwards, gives the row ids \<open>get\<close> gives, with the sparse and
  with the dense decoder, and leaves a reachable cursor state.
\<close>

theorem sequence_cursor_correct:
  assumes "seq_wf sq" "sequence_cursor_inv sq c" "i < 2 ^ 64" "e \<le> 2 ^ 64"
  shows "(\<exists>v c'. sequence_cursor_get sq c i = Inr (v, c') \<and> sequence_get sq i = Inr v \<and> sequence_cursor_inv sq c') \<and>
    (\<exists>c'. select_range_with_cursor sq c (s, e) = Inr (c', drop s (take e (seq_vals sq))) \<and> sequence_cursor_inv sq c') \<and>
    (\<exists>c'. select_dense_range_with_cursor sq c (s, e) = Inr (c', drop s (take e (seq_vals sq))) \<and> sequence_cursor_inv sq c')"
  using sequence_cursor_get_eq[OF assms(1,2,3)] sequence_get_eq[OF assms(1,3)]
    sequence_extend_range_eq[OF assms(1,4,2), of s "[]"]
  by (simp add: select_range_with_cursor_def select_dense_range_with_cursor_def)

theorem sequence_cursor_correct_witness:
  "let sq = [SegRange (0, 5), SegRangeWithHoles (10, 20) (EncU64 [12, 13, 17])]; c = sequence_cursor_default in
    (\<exists>v c'. sequence_cursor_get sq c 6 = Inr (v, c') \<and> sequence_get sq 6 = Inr v \<and> sequence_cursor_inv sq c') \<and>
    (\<exists>c'. select_range_with_cursor sq c (3, 7) = Inr (c', drop 3 (take 7 (seq_vals sq))) \<and> sequence_cursor_inv sq c') \<and>
    (\<exists>c'. select_dense_range_with_cursor sq c (3, 7) = Inr (c', drop 3 (take 7 (seq_vals sq))) \<and> sequence_cursor_inv sq c')"
  unfolding Let_def by (rule sequence_cursor_correct) simp_all

end
