(* ===== verification/Sequence_Slices.thy ===== *)
theory Sequence_Slices
  imports Sequence_Reading
begin

text \<open>
  Slices of a sequence (\<open>RowIdSequence::slice\<close>, \<open>RowIdSeqSlice::iter\<close>) and
  \<open>select_row_ids\<close>: a slice reads the values at the requested positions, announces their exact
  number, and an out-of-bounds request is an error or a panic, never a shorter answer.
\<close>

lemma slice_start_loop_eq:
  "seq_wf sq \<Longrightarrow> \<exists>k \<le> length sq. slice_start_loop sq os so = Inr (os - length (seq_vals (take k sq)), so + k) \<and>
     length (seq_vals (take k sq)) \<le> os \<and> (k < length sq \<longrightarrow> os < length (seq_vals (take (Suc k) sq)))"
proof (induction sq arbitrary: os so)
  case Nil
  then show ?case by simp
next
  case (Cons seg sq)
  let ?n = "length (segment_vals seg)"
  show ?case
  proof (cases "os < ?n")
    case True
    then show ?thesis using Cons.prems by (intro exI[of _ 0]) (simp add: segment_len_eq)
  next
    case False
    obtain k where "k \<le> length sq" "slice_start_loop sq (os - ?n) (so + 1) = Inr (os - ?n - length (seq_vals (take k sq)), so + 1 + k)"
      "length (seq_vals (take k sq)) \<le> os - ?n" "k < length sq \<longrightarrow> os - ?n < length (seq_vals (take (Suc k) sq))"
      using Cons.IH[of "os - ?n" "so + 1"] Cons.prems by auto
    with False Cons.prems show ?thesis by (intro exI[of _ "Suc k"]) (auto simp: segment_len_eq)
  qed
qed

lemma slice_last_loop_eq:
  "seq_wf sq \<Longrightarrow> 0 < ol \<Longrightarrow> \<exists>k \<le> length sq. slice_last_loop sq ol so = Inr (ol - length (seq_vals (take k sq)), so + k) \<and>
     length (seq_vals (take k sq)) < ol \<and> (k < length sq \<longrightarrow> ol \<le> length (seq_vals (take (Suc k) sq)))"
proof (induction sq arbitrary: ol so)
  case Nil
  then show ?case by simp
next
  case (Cons seg sq)
  let ?n = "length (segment_vals seg)"
  show ?case
  proof (cases "ol \<le> ?n")
    case True
    then show ?thesis using Cons.prems by (intro exI[of _ 0]) (simp add: segment_len_eq)
  next
    case False
    obtain k where "k \<le> length sq" "slice_last_loop sq (ol - ?n) (so + 1) = Inr (ol - ?n - length (seq_vals (take k sq)), so + 1 + k)"
      "length (seq_vals (take k sq)) < ol - ?n" "k < length sq \<longrightarrow> ol - ?n \<le> length (seq_vals (take (Suc k) sq))"
      using Cons.IH[of "ol - ?n" "so + 1"] Cons.prems False by auto
    with False Cons.prems show ?thesis by (intro exI[of _ "Suc k"]) (auto simp: segment_len_eq)
  qed
qed

text \<open>What a slice denotes, and the shape \<open>slice\<close> gives it.\<close>

definition slice_wf :: "row_id_seq_slice \<Rightarrow> bool" where
  "slice_wf s \<longleftrightarrow> seq_wf (sl_segments s) \<and>
     (if sl_segments s = [] then sl_offset_start s = 0 \<and> sl_offset_last s = 0
      else sl_offset_start s \<le> length (segment_vals (hd (sl_segments s))) \<and>
           sl_offset_last s \<le> length (segment_vals (last (sl_segments s))) \<and>
           (length (sl_segments s) = 1 \<longrightarrow> sl_offset_start s \<le> sl_offset_last s))"

definition slice_content :: "row_id_seq_slice \<Rightarrow> u64 list" where
  "slice_content s =
     drop (sl_offset_start s) (take (length (seq_vals (butlast (sl_segments s))) + sl_offset_last s) (seq_vals (sl_segments s)))"

lemma list_first_mid_last: "2 \<le> length xs \<Longrightarrow> \<exists>a mid b. xs = a # mid @ [b]"
  by (cases xs; cases "tl xs" rule: rev_cases) auto

lemma concat_enumerate_middle:
  assumes "\<And>i x. n \<le> i \<Longrightarrow> i < n + length xs \<Longrightarrow> g (i, x) = f x"
  shows "concat (map g (enumerate n xs)) = concat (map f xs)"
proof -
  have "map g (enumerate n xs) = map f (map snd (enumerate n xs))"
    unfolding map_map by (rule map_cong) (auto simp: in_set_enumerate_eq assms)
  then show ?thesis by simp
qed

lemma slice_iter_eq:
  assumes "slice_wf s"
  shows "slice_iter s = Inr (slice_content s)"
proof -
  let ?segs = "sl_segments s"
  let ?g = "\<lambda>(i, seg). if i = 0 \<and> length ?segs = 1
      then take (usize_sub (sl_offset_last s) (sl_offset_start s)) (drop (sl_offset_start s) (segment_vals seg))
      else if i = 0 then drop (sl_offset_start s) (segment_vals seg)
      else if i = length ?segs - 1 then take (sl_offset_last s) (segment_vals seg) else segment_vals seg"
  have "slice_segment_iter s p = Inr (?g p)" if "p \<in> set (enumerate 0 ?segs)" for p
  proof -
    obtain i seg where p: "p = (i, seg)" by fastforce
    have "i < length ?segs" "?segs ! i = seg" using that by (simp_all add: p in_set_enumerate_eq)
    then have "segment_wf seg" using assms seq_wf_nth by (auto simp: slice_wf_def)
    then show ?thesis by (simp add: p slice_segment_iter_def segment_iter_eq)
  qed
  then have iter: "slice_iter s = Inr (concat (map ?g (enumerate 0 ?segs)))"
    by (simp add: slice_iter_def mapr_Inr[where g = ?g])
  have "concat (map ?g (enumerate 0 ?segs)) = slice_content s"
  proof (cases "2 \<le> length ?segs")
    case True
    then obtain a mid b where segs: "?segs = a # mid @ [b]" using list_first_mid_last by blast
    have "concat (map ?g (enumerate (Suc 0) mid)) = seq_vals mid"
      unfolding seq_vals_def by (rule concat_enumerate_middle) (simp add: segs)
    then have "concat (map ?g (enumerate 0 ?segs)) =
        drop (sl_offset_start s) (segment_vals a) @ seq_vals mid @ take (sl_offset_last s) (segment_vals b)"
      by (simp add: segs enumerate_append_eq)
    also have "\<dots> = slice_content s"
      using assms by (simp add: slice_content_def segs slice_wf_def butlast_append)
    finally show ?thesis .
  next
    case False
    then consider "?segs = []" | a where "?segs = [a]" by (cases ?segs; cases "tl ?segs") auto
    then show ?thesis
    proof cases
      case 1
      then show ?thesis by (simp add: slice_content_def)
    next
      case (2 a)
      then show ?thesis using assms by (simp add: slice_content_def slice_wf_def take_drop)
    qed
  qed
  with iter show ?thesis by simp
qed

lemma slice_known_size_eq:
  assumes "slice_wf s"
  shows "slice_known_size s = Inr (length (slice_content s))"
proof (cases "sl_segments s" rule: rev_cases)
  case Nil
  then show ?thesis using assms by (simp add: slice_known_size_def slice_wf_def slice_content_def)
next
  case (snoc ys y)
  then have "mapr segment_len (sl_segments s) = Inr (map (\<lambda>s. length (segment_vals s)) (ys @ [y]))"
    using assms by (simp add: mapr_segment_len slice_wf_def del: map_append)
  moreover have "sl_offset_start s \<le> length (seq_vals ys) + sl_offset_last s"
    using assms snoc by (cases ys) (auto simp: slice_wf_def)
  moreover have "sl_offset_last s \<le> length (segment_vals y)" using assms snoc by (simp add: slice_wf_def)
  ultimately show ?thesis using snoc
    by (simp add: slice_known_size_def slice_content_def length_seq_vals[of ys, symmetric])
qed

lemma seq_vals_take_mono: "j \<le> k \<Longrightarrow> length (seq_vals (take j sq)) \<le> length (seq_vals (take k sq))"
proof -
  assume "j \<le> k"
  then have "take k sq = take j sq @ drop j (take k sq)" by (metis append_take_drop_id min.absorb1 take_take)
  then show ?thesis by (metis length_append le_add1 seq_vals_simps(3))
qed

lemma seq_vals_take_drop: "seq_vals (take k sq) @ seq_vals (drop k sq) = seq_vals sq"
  by (metis append_take_drop_id seq_vals_simps(3))

lemma length_seq_vals_drop: "length (seq_vals (drop k sq)) = length (seq_vals sq) - length (seq_vals (take k sq))"
  by (metis seq_vals_take_drop length_append add_diff_cancel_left')

lemma seq_vals_take_le: "length (seq_vals (take k sq)) \<le> length (seq_vals sq)"
  by (metis seq_vals_take_drop length_append le_add1)

lemma drop_seq_vals: "length (seq_vals (take k sq)) \<le> n \<Longrightarrow>
  drop n (seq_vals sq) = drop (n - length (seq_vals (take k sq))) (seq_vals (drop k sq))"
  by (subst seq_vals_take_drop[of k sq, symmetric]) simp

lemma take_seq_vals: "n \<le> length (seq_vals (take k sq)) \<Longrightarrow> take n (seq_vals (take k sq)) = take n (seq_vals sq)"
  by (subst seq_vals_take_drop[of k sq, symmetric]) simp

lemma slice_bounds:
  assumes "seq_wf sq" "0 < len"
  obtains k os j ol where "slice_start_loop sq offset 0 = Inr (os, k)" "k \<le> length sq"
    "offset = length (seq_vals (take k sq)) + os"
    "k < length sq \<Longrightarrow> os < length (segment_vals (sq ! k))"
    "slice_last_loop (drop k sq) (os + len) k = Inr (ol, k + j)" "k + j \<le> length sq"
    "os + len = length (seq_vals (take j (drop k sq))) + ol" "0 < ol"
    "k + j < length sq \<Longrightarrow> ol \<le> length (segment_vals (sq ! (k + j)))"
proof -
  obtain k where k: "k \<le> length sq" "slice_start_loop sq offset 0 = Inr (offset - length (seq_vals (take k sq)), k)"
    "length (seq_vals (take k sq)) \<le> offset" "k < length sq \<Longrightarrow> offset < length (seq_vals (take (Suc k) sq))"
    using slice_start_loop_eq[OF assms(1), of offset 0] by auto
  define os where "os = offset - length (seq_vals (take k sq))"
  have "0 < os + len" using assms(2) by simp
  then obtain j where j: "j \<le> length (drop k sq)"
    "slice_last_loop (drop k sq) (os + len) k = Inr (os + len - length (seq_vals (take j (drop k sq))), k + j)"
    "length (seq_vals (take j (drop k sq))) < os + len"
    "j < length (drop k sq) \<Longrightarrow> os + len \<le> length (seq_vals (take (Suc j) (drop k sq)))"
    using slice_last_loop_eq[OF seq_wf_take_drop(2)[OF assms(1)], of "os + len" k k] by blast
  show thesis
  proof (rule that[of os k "os + len - length (seq_vals (take j (drop k sq)))" j])
    show "os < length (segment_vals (sq ! k))" if "k < length sq"
      using k(3) k(4)[OF that] that by (simp add: seq_vals_take_Suc os_def)
    show "os + len - length (seq_vals (take j (drop k sq))) \<le> length (segment_vals (sq ! (k + j)))" if "k + j < length sq"
    proof -
      have "j < length (drop k sq)" using that by simp
      with j(4) show ?thesis by (simp add: seq_vals_take_Suc)
    qed
  qed (use k j os_def in auto)
qed

lemma sequence_slice_eq:
  assumes "seq_wf sq" "length (seq_vals sq) < 2 ^ 64" "offset + len \<le> length (seq_vals sq)"
  shows "\<exists>s. sequence_slice sq offset len = Inr s \<and> slice_wf s \<and> slice_content s = take len (drop offset (seq_vals sq))"
proof (cases "len = 0")
  case True
  then show ?thesis by (simp add: sequence_slice_def slice_wf_def slice_content_def)
next
  case False
  then obtain k os j ol where b: "slice_start_loop sq offset 0 = Inr (os, k)" "k \<le> length sq"
    "offset = length (seq_vals (take k sq)) + os"
    "k < length sq \<Longrightarrow> os < length (segment_vals (sq ! k))"
    "slice_last_loop (drop k sq) (os + len) k = Inr (ol, k + j)" "k + j \<le> length sq"
    "os + len = length (seq_vals (take j (drop k sq))) + ol" "0 < ol"
    "k + j < length sq \<Longrightarrow> ol \<le> length (segment_vals (sq ! (k + j)))"
    using slice_bounds[OF assms(1), of len offset] by (metis neq0_conv)
  have rest: "length (seq_vals (drop k sq)) = length (seq_vals sq) - length (seq_vals (take k sq))"
    by (rule length_seq_vals_drop)
  have "length (seq_vals (take j (drop k sq))) < length (seq_vals (drop k sq))"
    using b(3,7,8) assms(3) by (simp add: rest)
  then have "j < length (drop k sq)" by (rule contrapos_pp) simp
  then have kj: "k < length sq" "k + j < length sq" by auto
  let ?segs = "take (Suc j) (drop k sq)"
  let ?s = "\<lparr>sl_segments = ?segs, sl_offset_start = os, sl_offset_last = ol\<rparr>"
  have add: "usize_add os len = os + len" using assms b(3) by (simp add: usize_add_def)
  have "sequence_slice sq offset len = Inr ?s"
  proof -
    have "Suc (k + j) - k = Suc j" by simp
    then show ?thesis using False kj(2) b(1,5) by (simp add: sequence_slice_def add del: take_Suc)
  qed
  moreover have segs: "?segs = take j (drop k sq) @ [sq ! (k + j)]"
    using kj by (simp add: take_Suc_conv_app_nth)
  have hd: "hd ?segs = sq ! k" "?segs \<noteq> []" using kj by (simp_all add: hd_drop_conv_nth)
  have "slice_wf ?s"
  proof -
    have "os \<le> ol" if "length ?segs = 1"
    proof -
      have "j = 0" using that kj by simp
      then show ?thesis using b(7) by simp
    qed
    moreover have "seq_wf ?segs" using assms(1) by (simp add: seq_wf_take_drop)
    moreover have "last ?segs = sq ! (k + j)" unfolding segs by simp
    ultimately show ?thesis using b(4)[OF kj(1)] b(9)[OF kj(2)] hd
      by (simp add: slice_wf_def del: take_Suc take_eq_Nil)
  qed
  moreover have "slice_content ?s = take len (drop offset (seq_vals sq))"
  proof -
    have le: "os + len \<le> length (seq_vals ?segs)" using b(7,9) kj by (simp add: segs)
    have "butlast ?segs = take j (drop k sq)" by (simp add: segs)
    then have "slice_content ?s = drop os (take (os + len) (seq_vals ?segs))"
      using b(7) by (simp add: slice_content_def)
    also have "\<dots> = drop os (take (os + len) (seq_vals (drop k sq)))"
      by (simp only: take_seq_vals[OF le])
    also have "\<dots> = take len (drop offset (seq_vals sq))"
      using b(3) by (simp add: drop_seq_vals[of k] take_drop add.commute)
    finally show ?thesis .
  qed
  ultimately show ?thesis by blast
qed

lemma sequence_slice_panics:
  assumes "seq_wf sq" "length (seq_vals sq) < offset + len" "offset + len < 2 ^ 64" "0 < len"
  shows "sequence_slice sq offset len = Inl Panic"
proof -
  obtain k os j ol where b: "slice_start_loop sq offset 0 = Inr (os, k)" "k \<le> length sq"
    "offset = length (seq_vals (take k sq)) + os"
    "slice_last_loop (drop k sq) (os + len) k = Inr (ol, k + j)" "k + j \<le> length sq"
    "os + len = length (seq_vals (take j (drop k sq))) + ol"
    "k + j < length sq \<Longrightarrow> ol \<le> length (segment_vals (sq ! (k + j)))"
    using slice_bounds[OF assms(1,4), of offset] by metis
  have "\<not> k + j < length sq"
  proof
    assume kj: "k + j < length sq"
    then have "os + len \<le> length (seq_vals (take (Suc j) (drop k sq)))"
      using b(6,7) by (simp add: take_Suc_conv_app_nth)
    also have "\<dots> \<le> length (seq_vals (drop k sq))" by (rule seq_vals_take_le)
    finally show False using assms(2,4) b(3) seq_vals_take_le[of k sq] by (simp add: length_seq_vals_drop)
  qed
  moreover have "usize_add os len = os + len" using assms b(3) by (simp add: usize_add_def)
  ultimately show ?thesis using assms(4) b(1,4) by (simp add: sequence_slice_def)
qed

lemma sequence_slice_past_end:
  assumes "seq_wf sq" "length (seq_vals sq) \<le> offset" "0 < len"
  shows "sequence_slice sq offset len = Inl Panic"
proof -
  obtain k where k: "k \<le> length sq" "slice_start_loop sq offset 0 = Inr (offset - length (seq_vals (take k sq)), k)"
    "k < length sq \<Longrightarrow> offset < length (seq_vals (take (Suc k) sq))"
    using slice_start_loop_eq[OF assms(1), of offset 0] by auto
  have "k = length sq"
  proof (rule ccontr)
    assume "k \<noteq> length sq"
    then have "offset < length (seq_vals (take (Suc k) sq))" using k by simp
    with seq_vals_take_le[of "Suc k" sq] assms(2) show False by linarith
  qed
  with k(2) assms(3) show ?thesis by (simp add: sequence_slice_def)
qed

subsection \<open>Selection by \<open>ReadBatchParams\<close>\<close>

lemma slice_vals_eq:
  assumes "seq_wf sq" "length (seq_vals sq) < 2 ^ 64" "offset + len \<le> length (seq_vals sq)"
  shows "slice_vals sq offset len = Inr (take len (drop offset (seq_vals sq)))"
  using sequence_slice_eq[OF assms] by (auto simp: slice_vals_def slice_iter_eq)

definition select_indices :: "u64 list \<Rightarrow> u32 list \<Rightarrow> u64 list res" where
  "select_indices vals indices =
     (if \<forall>i \<in> set indices. unat i < length vals then Inr (map (\<lambda>i. vals ! unat i) indices) else Inl InvalidInput)"

definition select_ranges :: "u64 list \<Rightarrow> u64 range list \<Rightarrow> u64 list res" where
  "select_ranges vals rs =
     (if \<forall>r \<in> set rs. unat (snd r) \<le> length vals
      then Inr (concat (map (\<lambda>r. drop (unat (fst r)) (take (unat (snd r)) vals)) rs)) else Inl InvalidInput)"

fun select_spec :: "u64 list \<Rightarrow> read_batch_params \<Rightarrow> u64 list res" where
  "select_spec vals (RbpIndices indices) = select_indices vals indices"
| "select_spec vals (RbpRange (s, e)) = (if e \<le> length vals then Inr (drop s (take e vals)) else Inl InvalidInput)"
| "select_spec vals (RbpRanges rs) = select_ranges vals rs"
| "select_spec vals RbpRangeFull = Inr vals"
| "select_spec vals (RbpRangeTo e) = (if e \<le> length vals then Inr (take e vals) else Inl InvalidInput)"
| "select_spec vals (RbpRangeFrom s) = (if s \<le> length vals then Inr (drop s vals) else Inl Panic)"

fun params_ordered :: "read_batch_params \<Rightarrow> bool" where
  "params_ordered (RbpRange (s, e)) \<longleftrightarrow> s \<le> e"
| "params_ordered (RbpRanges rs) \<longleftrightarrow> list_all (\<lambda>(s, e). s \<le> e) rs"
| "params_ordered _ \<longleftrightarrow> True"

lemma map_filter_in_bounds:
  "(\<And>i. i \<in> set is' \<Longrightarrow> i < length xs) \<Longrightarrow> List.map_filter (nth_opt xs) is' = map (nth xs) is'"
  by (induction is') (auto simp: List.map_filter_simps nth_opt_def)

lemma unat_u32_less_u64: "unat (i :: u32) < 2 ^ 64"
  by (rule less_trans[OF unat_u32_bound]) simp

lemma sorted_le_last: "sorted xs \<Longrightarrow> x \<in> set xs \<Longrightarrow> x \<le> last xs"
  by (induction xs) auto

lemma select_indices_unsorted:
  assumes "seq_wf sq"
  shows "mapr (\<lambda>index. bindr (sequence_get sq (unat index)) (ok_or InvalidInput)) indices = select_indices (seq_vals sq) indices"
proof (induction indices)
  case Nil
  then show ?case by (simp add: select_indices_def)
next
  case (Cons i indices)
  have "bindr (sequence_get sq (unat i)) (ok_or InvalidInput) =
      (if unat i < length (seq_vals sq) then Inr (seq_vals sq ! unat i) else Inl InvalidInput)"
    by (simp add: sequence_get_eq[OF assms unat_u32_less_u64] nth_opt_def ok_or_def)
  with Cons show ?case by (auto simp: select_indices_def)
qed

lemma select_indices_sorted:
  assumes "seq_wf sq" "length (seq_vals sq) < 2 ^ 64" "sorted indices"
  shows "select_row_ids sq (RbpIndices indices) = select_indices (seq_vals sq) indices"
proof (cases "indices = []")
  case True
  then show ?thesis using assms
    by (simp add: pairs2_def sequence_len_eq sequence_select_def select_indices_def)
next
  case False
  let ?n = "length (seq_vals sq)"
  have bound: "(ucast (last indices) :: u64) \<ge> word_of_nat ?n \<longleftrightarrow> ?n \<le> unat (last indices)"
    using assms(2) by (simp add: word_le_nat_alt unat_of_nat unat_ucast_up)
  show ?thesis
  proof (cases "?n \<le> unat (last indices)")
    case True
    then have "select_indices (seq_vals sq) indices = Inl InvalidInput"
      using last_in_set[OF False] by (auto simp: select_indices_def not_less dest!: bspec[of _ _ "last indices"])
    then show ?thesis using True False assms by (simp add: windows_le_sorted sequence_len_eq bound)
  next
    case in_bounds: False
    have all: "unat i < ?n" if "i \<in> set indices" for i
      using sorted_le_last[OF assms(3) that] in_bounds by (simp add: word_le_nat_alt)
    have "sorted (map unat indices)" using assms(3) unfolding sorted_map
      by (rule sorted_wrt_mono_rel[rotated]) (simp add: word_le_nat_alt)
    moreover have "List.map_filter (nth_opt (seq_vals sq)) (map unat indices) = map (nth (seq_vals sq)) (map unat indices)"
      by (rule map_filter_in_bounds) (auto simp: all)
    ultimately have "sequence_select sq (map unat indices) = Inr (map (\<lambda>i. seq_vals sq ! unat i) indices)"
      using assms(1) by (subst sequence_select_eq) (auto simp: unat_u32_less_u64[simplified])
    then show ?thesis using in_bounds False assms all
      by (simp add: windows_le_sorted sequence_len_eq bound select_indices_def)
  qed
qed

lemma select_ranges_eq:
  assumes "seq_wf sq" "length (seq_vals sq) < 2 ^ 64" "list_all (\<lambda>(s, e). s \<le> e) rs"
  shows "select_row_ids sq (RbpRanges rs) = select_ranges (seq_vals sq) rs"
proof -
  let ?n = "length (seq_vals sq)"
  let ?f = "\<lambda>r. bindr (sequence_len sq) (\<lambda>n. if snd r > n then Inl InvalidInput else slice_vals sq (unat (fst r)) (unat (snd r - fst r)))"
  have step: "?f r = (if unat (snd r) \<le> ?n then Inr (drop (unat (fst r)) (take (unat (snd r)) (seq_vals sq))) else Inl InvalidInput)"
    if "fst r \<le> snd r" for r
  proof -
    have "unat (snd r - fst r) = unat (snd r) - unat (fst r)" "unat (fst r) \<le> unat (snd r)"
      using that by (simp_all add: unat_diff_word word_le_nat_alt)
    moreover have "(word_of_nat ?n < snd r) \<longleftrightarrow> \<not> unat (snd r) \<le> ?n"
      using assms(2) by (simp add: word_less_nat_alt unat_of_nat not_le)
    ultimately show ?thesis using assms by (simp add: sequence_len_eq slice_vals_eq take_drop)
  qed
  have "bindr (mapr ?f rs) (\<lambda>vals. Inr (concat vals)) = select_ranges (seq_vals sq) rs"
    using assms(3)
  proof (induction rs)
    case Nil
    then show ?case by (simp add: select_ranges_def)
  next
    case (Cons r rs)
    then have r: "fst r \<le> snd r" and IH: "bindr (mapr ?f rs) (\<lambda>vals. Inr (concat vals)) = select_ranges (seq_vals sq) rs"
      by auto
    have "bindr (mapr ?f (r # rs)) (\<lambda>vals. Inr (concat vals)) =
        bindr (?f r) (\<lambda>v. bindr (bindr (mapr ?f rs) (\<lambda>vals. Inr (concat vals))) (\<lambda>vals. Inr (v @ vals)))"
      by (cases "?f r"; cases "mapr ?f rs") (simp_all add: bindr_def)
    then show ?case unfolding IH step[OF r] by (auto simp: select_ranges_def bindr_def)
  qed
  then show ?thesis by simp
qed

lemma select_row_ids_eq:
  assumes "seq_wf sq" "length (seq_vals sq) < 2 ^ 64" "params_ordered params"
    "\<And>s. params = RbpRangeFrom s \<Longrightarrow> s < 2 ^ 64"
  shows "select_row_ids sq params = select_spec (seq_vals sq) params"
proof (cases params)
  case (RbpIndices indices)
  then show ?thesis
    using assms select_indices_sorted select_indices_unsorted[OF assms(1)]
    by (cases "sorted indices") (simp_all add: windows_le_sorted)
next
  case (RbpRange r)
  then show ?thesis using assms
    by (cases r) (simp add: sequence_len_eq unat_seq_len slice_vals_eq take_drop not_less)
next
  case (RbpRanges rs)
  then show ?thesis using assms by (simp add: select_ranges_eq del: select_row_ids.simps)
next
  case (RbpRangeFrom s)
  then show ?thesis
  proof (cases "s \<le> length (seq_vals sq)")
    case False
    have "0 < usize_sub (length (seq_vals sq)) s" using False assms(4)[OF RbpRangeFrom] by (simp add: usize_sub_def)
    then show ?thesis using False RbpRangeFrom assms
      by (simp add: sequence_len_eq unat_seq_len slice_vals_def sequence_slice_past_end)
  qed (use assms RbpRangeFrom in \<open>simp add: sequence_len_eq unat_seq_len slice_vals_eq\<close>)
qed (use assms in \<open>simp_all add: sequence_iter_eq sequence_len_eq unat_seq_len slice_vals_eq not_less\<close>)

subsection \<open>Properties\<close>

text \<open>
  C14. A slice inside the sequence reads exactly the row ids at its positions and announces their
  exact number; a slice reaching past the end panics.
\<close>

theorem slice_exact:
  assumes "seq_wf sq" "length (seq_vals sq) < 2 ^ 64" "offset + n < 2 ^ 64" "0 < n"
  shows "if offset + n \<le> length (seq_vals sq)
    then \<exists>s. sequence_slice sq offset n = Inr s \<and> slice_known_size s = Inr n \<and>
      slice_iter s = Inr (take n (drop offset (seq_vals sq)))
    else sequence_slice sq offset n = Inl Panic"
proof (cases "offset + n \<le> length (seq_vals sq)")
  case True
  then show ?thesis
    using sequence_slice_eq[OF assms(1,2) True] slice_iter_eq slice_known_size_eq by fastforce
next
  case False
  then show ?thesis using sequence_slice_panics[OF assms(1) _ assms(3,4)] by simp
qed

theorem slice_exact_witness:
  "\<exists>s. sequence_slice [SegRange (0, 5), SegRange (7, 9)] 3 4 = Inr s \<and> slice_known_size s = Inr 4 \<and>
     slice_iter s = Inr (take 4 (drop 3 (seq_vals [SegRange (0, 5), SegRange (7, 9)])))"
  using slice_exact[of "[SegRange (0, 5), SegRange (7, 9)]" 3 4] by simp



end
