(* ===== verification/Sequence_Updates.thy ===== *)
theory Sequence_Updates
  imports Sequence_Slices
begin

text \<open>
  Updates of a \<open>RowIdSequence\<close>: concatenation, deletion by row id (with the search
  \<open>find_ids\<close>), deletion by position and re-chunking, each against the list of values.
\<close>

subsection \<open>Concatenation\<close>

lemma sequence_extend_eq:
  assumes "seq_wf sq" "seq_wf other"
  shows "seq_wf (sequence_extend sq other) \<and> seq_vals (sequence_extend sq other) = seq_vals sq @ seq_vals other"
proof (cases "\<exists>sq' r1 r2 other'. sq = sq' @ [SegRange r1] \<and> other = SegRange r2 # other' \<and> snd r1 = fst r2")
  case True
  then obtain sq' r1 r2 other' where eq: "sq = sq' @ [SegRange r1]" "other = SegRange r2 # other'" "snd r1 = fst r2" by blast
  then have "sequence_extend sq other = sq' @ [SegRange (fst r1, snd r2)] @ other'"
    by (simp add: sequence_extend_def)
  moreover have "fst r1 \<le> snd r1" "snd r1 \<le> snd r2" using assms eq by simp_all
  moreover from this have "range_vals (fst r1, snd r2) = range_vals r1 @ range_vals r2"
    using range_vals_append[of "fst r1" "snd r1" "snd r2"] eq(3) by (cases r1, cases r2) simp
  ultimately show ?thesis using assms eq by simp
next
  case False
  have "sequence_extend sq other = sq @ other"
  proof (cases sq rule: rev_cases)
    case (snoc sq' s)
    then show ?thesis using False by (auto simp: sequence_extend_def split: list.splits u64_segment.splits)
  qed (simp add: sequence_extend_def)
  with assms show ?thesis by simp
qed

subsection \<open>Searching row ids\<close>

definition positions_of :: "u64 list \<Rightarrow> u64 list \<Rightarrow> nat list" where
  "positions_of row_ids vals = List.map_filter (\<lambda>v. find_position (\<lambda>x. x = v) vals) row_ids"

lemma segment_match_eq:
  assumes "segment_wf seg"
  shows "segment_match v seg m =
    Inr (case find_position (\<lambda>x. x = v) (segment_vals seg) of Some off \<Rightarrow> m @ [off] | None \<Rightarrow> m)"
proof (cases "v \<in> set (segment_vals seg)")
  case True
  then obtain lo hi where r: "segment_range seg = Some (lo, hi)" using segment_range_None[OF assms] by fastforce
  with segment_range_bounds[OF assms r True] show ?thesis
    by (simp add: segment_match_def segment_position_eq[OF assms])
next
  case False
  then have none: "find_position (\<lambda>x. x = v) (segment_vals seg) = None" by (auto simp: find_position_None)
  then show ?thesis by (auto simp: segment_match_def segment_position_eq[OF assms] split: option.splits)
qed

lemma find_matches_eq:
  assumes "seq_wf sq"
  shows "find_matches sq row_ids = Inr (map (\<lambda>seg. positions_of row_ids (segment_vals seg)) sq)"
proof -
  let ?f = "\<lambda>row_id matches. mapr (\<lambda>(seg, m). segment_match row_id seg m) (zip sq matches)"
  have "foldr_res ?f row_ids (map g sq) = Inr (map (\<lambda>seg. g seg @ positions_of row_ids (segment_vals seg)) sq)" for g
  proof (induction row_ids arbitrary: g)
    case Nil
    then show ?case by (simp add: positions_of_def List.map_filter_simps)
  next
    case (Cons v row_ids)
    let ?g' = "\<lambda>seg. case find_position (\<lambda>x. x = v) (segment_vals seg) of Some off \<Rightarrow> g seg @ [off] | None \<Rightarrow> g seg"
    have "mapr (\<lambda>(seg, m). segment_match v seg m) (zip sq (map g sq)) = Inr (map ?g' sq)"
      using assms by (induction sq) (simp_all add: segment_match_eq)
    then have "foldr_res ?f (v # row_ids) (map g sq) =
        Inr (map (\<lambda>seg. ?g' seg @ positions_of row_ids (segment_vals seg)) sq)"
      using Cons.IH[of ?g'] by simp
    also have "\<dots> = Inr (map (\<lambda>seg. g seg @ positions_of (v # row_ids) (segment_vals seg)) sq)"
      by (auto simp: positions_of_def List.map_filter_simps split: option.splits)
    finally show ?case .
  qed
  from this[of "\<lambda>_. []"] show ?thesis by (simp add: find_matches_def map_replicate_const)
qed

text \<open>The matches of a segment are the positions of its deleted values; sorted and read back they
  are these values in the segment's order.\<close>

lemma set_positions_of: "set (positions_of row_ids vals) = {i. i < length vals \<and> vals ! i \<in> set row_ids}"
  if "distinct vals"
proof -
  have "find_position (\<lambda>x. x = v) vals = Some i \<longleftrightarrow> i < length vals \<and> vals ! i = v" for v i
    using find_position_nth[OF that] find_position_Some[of "\<lambda>x. x = v" vals i] by auto
  then show ?thesis by (auto simp: positions_of_def set_map_filter)
qed

lemma distinct_positions_of: "distinct row_ids \<Longrightarrow> distinct (positions_of row_ids vals)"
proof (induction row_ids)
  case (Cons v row_ids)
  have "i \<notin> set (positions_of row_ids vals)" if "find_position (\<lambda>x. x = v) vals = Some i" for i
  proof
    assume "i \<in> set (positions_of row_ids vals)"
    then obtain w where w: "w \<in> set row_ids" "find_position (\<lambda>x. x = w) vals = Some i"
      by (auto simp: positions_of_def set_map_filter)
    have "v = w" using find_position_Some[OF that] find_position_Some[OF w(2)] by simp
    with w(1) Cons.prems show False by simp
  qed
  with Cons show ?case by (auto simp: positions_of_def List.map_filter_simps split: option.splits)
qed (simp add: positions_of_def List.map_filter_simps)

lemma sort_positions_of:
  assumes "distinct vals" "distinct row_ids"
  shows "sort (positions_of row_ids vals) = filter (\<lambda>i. vals ! i \<in> set row_ids) [0..<length vals]"
proof (rule strict_sorted_list_unique)
  show "sorted_wrt (<) (sort (positions_of row_ids vals))"
    using distinct_positions_of[OF assms(2)] by (simp add: strict_sorted_iff)
  show "sorted_wrt (<) (filter (\<lambda>i. vals ! i \<in> set row_ids) [0..<length vals])"
    by (simp add: sorted_wrt_filter)
qed (auto simp: set_positions_of[OF assms(1)])

lemma map_nth_filter_upt: "map (nth xs) (filter (\<lambda>i. P (xs ! i)) [0..<length xs]) = filter P xs"
  by (metis (no_types, lifting) comp_def filter_cong filter_map map_nth)

definition segment_hits :: "u64 list \<Rightarrow> u64_segment \<Rightarrow> u64 list" where
  "segment_hits row_ids seg = filter (\<lambda>v. v \<in> set row_ids) (segment_vals seg)"

definition segment_hit_positions :: "u64 list \<Rightarrow> u64_segment \<Rightarrow> nat list" where
  "segment_hit_positions row_ids seg = filter (\<lambda>i. segment_vals seg ! i \<in> set row_ids) [0..<length (segment_vals seg)]"

lemma map_nth_hit_positions: "map (nth (segment_vals seg)) (segment_hit_positions row_ids seg) = segment_hits row_ids seg"
  unfolding segment_hit_positions_def segment_hits_def by (rule map_nth_filter_upt)

lemma length_hit_positions: "length (segment_hit_positions row_ids seg) = length (segment_hits row_ids seg)"
  by (metis map_nth_hit_positions length_map)

lemma segment_read_back:
  assumes "segment_wf seg" "length (segment_vals seg) < 2 ^ 64"
  shows "mapr (\<lambda>off. bindr (segment_get seg off) unwrap) (segment_hit_positions row_ids seg) = Inr (segment_hits row_ids seg)"
proof -
  have "mapr (\<lambda>off. bindr (segment_get seg off) unwrap) (segment_hit_positions row_ids seg) =
      Inr (map (nth (segment_vals seg)) (segment_hit_positions row_ids seg))"
    using assms by (intro mapr_Inr) (auto simp: segment_hit_positions_def segment_get_eq)
  then show ?thesis by (simp only: map_nth_hit_positions)
qed

lemma segment_vals_le_seq: "seg \<in> set sq \<Longrightarrow> length (segment_vals seg) \<le> length (seq_vals sq)"
  by (auto simp: in_set_conv_decomp)

lemma find_ids_eq:
  assumes "seq_wf sq" "length (seq_vals sq) < 2 ^ 64" "distinct row_ids"
  shows "find_ids sq row_ids =
    Inr (concat (map (segment_hits row_ids) sq), match_ranges 0 0 (map (segment_hit_positions row_ids) sq))"
proof -
  have sorted: "map sort (map (\<lambda>seg. positions_of row_ids (segment_vals seg)) sq) = map (segment_hit_positions row_ids) sq"
    using assms(1,3) by (auto simp: seq_wf_iff segment_hit_positions_def sort_positions_of segment_vals_distinct)
  have "mapr (\<lambda>(seg, m). mapr (\<lambda>off. bindr (segment_get seg off) unwrap) m) (zip sq (map (segment_hit_positions row_ids) sq)) =
      Inr (map (segment_hits row_ids) sq)"
    using assms(1,2) by (induction sq) (simp_all add: segment_read_back)
  then show ?thesis by (simp add: find_ids_def find_matches_eq[OF assms(1)] sorted del: map_map)
qed

subsection \<open>Deleting by row id\<close>

lemma segment_delete_hits:
  assumes "segment_wf seg" "length (segment_vals seg) < 2 ^ 64"
  shows "\<exists>seg'. segment_delete seg (segment_hits row_ids seg) = Inr seg' \<and> segment_wf seg' \<and>
    segment_vals seg' = filter (\<lambda>v. v \<notin> set row_ids) (segment_vals seg)"
proof -
  have "segment_hits row_ids seg = filter (\<lambda>v. v \<in> set (segment_hits row_ids seg)) (segment_vals seg)"
    unfolding segment_hits_def by (rule filter_cong) auto
  from segment_delete_eq[OF assms this] obtain seg' where seg': "segment_delete seg (segment_hits row_ids seg) = Inr seg'"
    "segment_wf seg'" "segment_vals seg' = filter (\<lambda>v. v \<notin> set (segment_hits row_ids seg)) (segment_vals seg)" by blast
  have "filter (\<lambda>v. v \<notin> set (segment_hits row_ids seg)) (segment_vals seg) = filter (\<lambda>v. v \<notin> set row_ids) (segment_vals seg)"
    by (rule filter_cong) (auto simp: segment_hits_def)
  with seg' show ?thesis by auto
qed

lemma delete_fold:
  assumes "seq_wf C" "length (seq_vals C) < 2 ^ 64" "seq_wf B" "seq_wf out" "old = A @ B @ C"
    "ids = I @ concat (map (segment_hits row_ids) C)"
  shows "\<exists>out' rem. foldr_res (delete_step old ids)
      (match_ranges (length (A @ B)) (length I) (map (segment_hit_positions row_ids) C)) (out, B @ C) = Inr (out', rem) \<and>
    seq_wf (out' @ rem) \<and>
    seq_vals (out' @ rem) = seq_vals out @ seq_vals B @ filter (\<lambda>v. v \<notin> set row_ids) (seq_vals C)"
  using assms
proof (induction C arbitrary: A B out I)
  case Nil
  then show ?case by simp
next
  case (Cons c C)
  let ?hits = "segment_hits row_ids c"
  have c: "segment_wf c" "length (segment_vals c) < 2 ^ 64" "length (seq_vals C) < 2 ^ 64" using Cons.prems by simp_all
  show ?case
  proof (cases "?hits = []")
    case True
    then have "segment_hit_positions row_ids c = []" using length_hit_positions[of row_ids c] by simp
    moreover have "filter (\<lambda>v. v \<notin> set row_ids) (segment_vals c) = segment_vals c"
      using True by (simp add: segment_hits_def filter_empty_conv)
    ultimately show ?thesis
      using Cons.IH[of "B @ [c]" out A I] Cons.prems c True by simp
  next
    case False
    then have "segment_hit_positions row_ids c \<noteq> []" using length_hit_positions[of row_ids c] by auto
    then have ranges: "match_ranges (length (A @ B)) (length I) (map (segment_hit_positions row_ids) (c # C)) =
        (length (A @ B), length I, length (I @ ?hits)) #
        match_ranges (length (A @ B @ [c])) (length (I @ ?hits)) (map (segment_hit_positions row_ids) C)"
      by (simp add: length_hit_positions)
    obtain c' where c': "segment_delete c ?hits = Inr c'" "segment_wf c'"
      "segment_vals c' = filter (\<lambda>v. v \<notin> set row_ids) (segment_vals c)"
      using segment_delete_hits[OF c(1,2)] by blast
    have "delete_step old ids (length (A @ B), length I, length (I @ ?hits)) (out, B @ c # C) = Inr (out @ B @ [c'], C)"
      using Cons.prems(5,6) c'(1) by (simp add: delete_step_def)
    then show ?thesis
      using Cons.IH[of "[]" "out @ B @ [c']" "A @ B @ [c]" "I @ ?hits"] Cons.prems c c' unfolding ranges by simp
  qed
qed

lemma sequence_delete_eq:
  assumes "seq_wf sq" "length (seq_vals sq) < 2 ^ 64" "distinct row_ids"
  shows "\<exists>sq'. sequence_delete sq row_ids = Inr sq' \<and> seq_wf sq' \<and> seq_vals sq' = filter (\<lambda>v. v \<notin> set row_ids) (seq_vals sq)"
  using delete_fold[OF assms(1,2), of "[]" "[]" sq "[]" "concat (map (segment_hits row_ids) sq)" "[]" row_ids]
  by (auto simp: sequence_delete_def find_ids_eq[OF assms])

subsection \<open>Deleting by position\<close>

text \<open>A segment takes the positions below its end from the front of the sorted position list.\<close>

lemma take_positions_eq:
  "sorted_wrt (<) ps \<Longrightarrow> take_positions cutoff offset ps =
     (map (\<lambda>p. p - offset) (filter (\<lambda>p. p < cutoff) ps), filter (\<lambda>p. cutoff \<le> p) ps)"
proof (induction ps)
  case (Cons p ps)
  show ?case
  proof (cases "cutoff \<le> p")
    case True
    then have "\<forall>q \<in> set ps. cutoff \<le> q" using Cons.prems by auto
    then show ?thesis using True by (simp add: not_less filter_empty_conv)
  qed (use Cons in \<open>simp add: not_le\<close>)
qed simp

lemma nths_cong: "(\<And>i. i < length xs \<Longrightarrow> i \<in> A \<longleftrightarrow> i \<in> B) \<Longrightarrow> nths xs A = nths xs B"
  unfolding nths_def by (rule arg_cong[where f = "map fst"], rule filter_cong) (auto simp: set_zip)

lemma segment_mask_local:
  assumes "segment_wf seg" "sorted_wrt (<) ps" "offset + length (segment_vals seg) < 2 ^ 32"
    "\<And>p. p \<in> set ps \<Longrightarrow> offset \<le> unat p"
  defines "cutoff \<equiv> word_of_nat (offset + length (segment_vals seg)) :: u32"
  defines "loc \<equiv> map (\<lambda>p. p - word_of_nat offset) (filter (\<lambda>p. p < cutoff) ps)"
  shows "\<exists>seg'. (if loc = [] then Inr seg else segment_mask seg loc) = Inr seg' \<and> segment_wf seg' \<and>
    segment_vals seg' = nths (segment_vals seg) {i. i + offset \<notin> unat ` set ps}"
proof -
  let ?n = "length (segment_vals seg)"
  have cut: "unat cutoff = offset + ?n" "unat (word_of_nat offset :: u32) = offset"
    using assms(3) by (simp_all add: cutoff_def unat_of_nat del: of_nat_add)
  have diff: "unat (p - word_of_nat offset) = unat p - offset" if "p \<in> set ps" for p
    using assms(4)[OF that] cut(2) by (simp add: unat_diff_word word_le_nat_alt)
  have hit: "i \<in> unat ` set loc \<longleftrightarrow> i + offset \<in> unat ` set ps" if "i < ?n" for i
  proof
    assume "i \<in> unat ` set loc"
    then obtain p where p: "p \<in> set ps" "i = unat (p - word_of_nat offset)" by (auto simp: loc_def)
    with diff assms(4) have "unat p = i + offset" by fastforce
    with p(1) show "i + offset \<in> unat ` set ps" by (metis imageI)
  next
    assume "i + offset \<in> unat ` set ps"
    then obtain p where p: "p \<in> set ps" "unat p = i + offset" by auto
    then have "p < cutoff" using that cut by (simp add: word_less_nat_alt)
    then have "p - word_of_nat offset \<in> set loc" using p(1) by (auto simp: loc_def)
    moreover have "unat (p - word_of_nat offset) = i" using diff[OF p(1)] p(2) by simp
    ultimately show "i \<in> unat ` set loc" by (metis imageI)
  qed
  then have kept: "nths (segment_vals seg) {i. i \<notin> unat ` set loc} = nths (segment_vals seg) {i. i + offset \<notin> unat ` set ps}"
    by (intro nths_cong) auto
  have "sorted_wrt (\<lambda>a b. a - word_of_nat offset < b - word_of_nat offset) (filter (\<lambda>p. p < cutoff) ps)"
  proof (rule sorted_wrt_mono_rel[OF _ sorted_wrt_filter[OF assms(2)]])
    fix a b assume "a \<in> set (filter (\<lambda>p. p < cutoff) ps)" "b \<in> set (filter (\<lambda>p. p < cutoff) ps)" "a < b"
    then show "a - word_of_nat offset < b - word_of_nat offset"
      using diff assms(4) by (auto simp: word_less_nat_alt) (metis diff_less_mono)
  qed
  then have sorted: "sorted_wrt (<) loc" by (simp add: loc_def sorted_wrt_map)
  have less: "unat p < ?n" if "p \<in> set loc" for p
  proof -
    obtain q where q: "q \<in> set ps" "q < cutoff" "p = q - word_of_nat offset" using \<open>p \<in> set loc\<close> by (auto simp: loc_def)
    then show ?thesis using diff[OF q(1)] assms(4)[OF q(1)] cut by (simp add: word_less_nat_alt)
  qed
  show ?thesis
  proof (cases "loc = []")
    case True
    then show ?thesis using assms(1) kept by (simp add: nths_all)
  next
    case False
    obtain seg' where "segment_mask seg loc = Inr seg'" "segment_wf seg'" "segment_vals seg' = mask_kept (segment_vals seg) loc"
      using segment_mask_eq[OF assms(1) sorted _ less] assms(3) by auto
    with False kept show ?thesis by (simp add: mask_kept_def)
  qed
qed

lemma sequence_mask_loop_eq:
  assumes "seq_wf sq" "offset + length (seq_vals sq) < 2 ^ 32" "sorted_wrt (<) ps" "\<And>p. p \<in> set ps \<Longrightarrow> offset \<le> unat p"
  shows "\<exists>sq'. sequence_mask_loop sq ps (word_of_nat offset) = Inr sq' \<and> seq_wf sq' \<and>
    seq_vals sq' = nths (seq_vals sq) {i. i + offset \<notin> unat ` set ps}"
  using assms
proof (induction sq arbitrary: ps offset)
  case Nil
  then show ?case by simp
next
  case (Cons seg sq)
  let ?n = "length (segment_vals seg)"
  define cut where "cut = (word_of_nat (offset + ?n) :: u32)"
  let ?loc = "map (\<lambda>p. p - word_of_nat offset) (filter (\<lambda>p. p < cut) ps)"
  let ?rest = "filter (\<lambda>p. cut \<le> p) ps"
  have wf: "segment_wf seg" "seq_wf sq" "offset + ?n < 2 ^ 32" "offset + ?n + length (seq_vals sq) < 2 ^ 32"
    using Cons.prems by simp_all
  have cut: "unat cut = offset + ?n" using wf(3) by (simp add: cut_def unat_of_nat del: of_nat_add)
  obtain seg' where seg': "(if ?loc = [] then Inr seg else segment_mask seg ?loc) = Inr seg'"
    "segment_wf seg'" "segment_vals seg' = nths (segment_vals seg) {i. i + offset \<notin> unat ` set ps}"
    using segment_mask_local[OF wf(1) Cons.prems(3) wf(3) Cons.prems(4)] unfolding cut_def by blast
  have rest: "i + (offset + ?n) \<in> unat ` set ?rest \<longleftrightarrow> i + (offset + ?n) \<in> unat ` set ps" for i
    by (auto simp: image_iff word_le_nat_alt cut)
  have "\<exists>sq'. sequence_mask_loop sq ?rest (word_of_nat (offset + ?n)) = Inr sq' \<and> seq_wf sq' \<and>
      seq_vals sq' = nths (seq_vals sq) {i. i + (offset + ?n) \<notin> unat ` set ?rest}"
    using wf(2,4) sorted_wrt_filter[OF Cons.prems(3)] by (intro Cons.IH) (auto simp: word_le_nat_alt cut)
  then obtain sq' where sq': "sequence_mask_loop sq ?rest cut = Inr sq'" "seq_wf sq'"
    "seq_vals sq' = nths (seq_vals sq) {i. i + (offset + ?n) \<notin> unat ` set ?rest}"
    unfolding cut_def by blast
  have add: "word_of_nat offset + word_of_nat ?n = cut" by (simp add: cut_def)
  have "sequence_mask_loop (seg # sq) ps (word_of_nat offset) = Inr (seg' # sq')"
    unfolding sequence_mask_loop.simps segment_len_eq[OF wf(1)] bindr_simps Let_def add take_positions_eq[OF Cons.prems(3)]
      prod.case seg'(1) sq'(1) ..
  moreover have "seq_vals (seg' # sq') = nths (seq_vals (seg # sq)) {i. i + offset \<notin> unat ` set ps}"
  proof -
    have "{j. j + ?n \<in> {i. i + offset \<notin> unat ` set ps}} = {i. i + (offset + ?n) \<notin> unat ` set ?rest}"
      using rest by (auto simp: ac_simps)
    then show ?thesis using seg'(3) sq'(3) by (simp only: seq_vals_simps nths_append)
  qed
  ultimately show ?case using seg'(2) sq'(2) by auto
qed

lemma seq_vals_nonempty: "seq_vals (filter (\<lambda>seg. segment_vals seg \<noteq> []) sq) = seq_vals sq"
  by (induction sq) auto

lemma sequence_mask_eq:
  assumes "seq_wf sq" "length (seq_vals sq) < 2 ^ 32" "sorted_wrt (<) ps"
  shows "\<exists>sq'. sequence_mask sq ps = Inr sq' \<and> seq_wf sq' \<and> (\<forall>seg \<in> set sq'. segment_vals seg \<noteq> []) \<and>
    seq_vals sq' = nths (seq_vals sq) {i. i \<notin> unat ` set ps}"
proof -
  obtain sq1 where sq1: "sequence_mask_loop sq ps 0 = Inr sq1" "seq_wf sq1" "seq_vals sq1 = nths (seq_vals sq) {i. i \<notin> unat ` set ps}"
    using sequence_mask_loop_eq[OF assms(1), of 0 ps] assms(2,3) by auto
  have "filterr (\<lambda>seg. bindr (segment_is_empty seg) (\<lambda>b. Inr (\<not> b))) sq1 = Inr (filter (\<lambda>seg. segment_vals seg \<noteq> []) sq1)"
    using sq1(2) by (intro filterr_Inr) (simp add: segment_is_empty_def segment_len_eq seq_wf_iff)
  with sq1 show ?thesis by (simp add: sequence_mask_def seq_vals_nonempty) (simp add: seq_wf_iff)
qed

subsection \<open>Properties\<close>

text \<open>
  C16. Deleting a duplicate-free set of row ids from a sequence removes exactly these ids, wherever
  they are and in whatever order they are given, ignores ids the sequence does not hold, and keeps
  the order and the well-formedness of the rest.
\<close>

theorem delete_correct:
  assumes "seq_wf sq" "length (seq_vals sq) < 2 ^ 64" "distinct row_ids"
  shows "\<exists>sq'. sequence_delete sq row_ids = Inr sq' \<and> seq_wf sq' \<and>
    sequence_iter sq' = Inr (filter (\<lambda>v. v \<notin> set row_ids) (seq_vals sq))"
  using sequence_delete_eq[OF assms] sequence_iter_eq by fastforce

theorem delete_correct_witness:
  "\<exists>sq'. sequence_delete [SegRange (0, 5), SegRange (7, 9)] [8, 100, 1] = Inr sq' \<and> seq_wf sq' \<and>
     sequence_iter sq' = Inr (filter (\<lambda>v. v \<notin> set [8, 100, 1]) (seq_vals [SegRange (0, 5), SegRange (7, 9)]))"
  by (rule delete_correct) simp_all

text \<open>
  C17. Deleting by sorted positions removes exactly the ids at these positions across segment
  boundaries and drops segments that became empty.
\<close>

theorem mask_correct:
  assumes "seq_wf sq" "length (seq_vals sq) < 2 ^ 32" "sorted_wrt (<) positions"
  shows "\<exists>sq'. sequence_mask sq positions = Inr sq' \<and> seq_wf sq' \<and> (\<forall>seg \<in> set sq'. segment_vals seg \<noteq> []) \<and>
    sequence_iter sq' = Inr (nths (seq_vals sq) {i. i \<notin> unat ` set positions})"
  using sequence_mask_eq[OF assms] sequence_iter_eq by fastforce

theorem mask_correct_witness:
  "\<exists>sq'. sequence_mask [SegRange (0, 5), SegRange (7, 9)] [1, 5, 6] = Inr sq' \<and> seq_wf sq' \<and>
     (\<forall>seg \<in> set sq'. segment_vals seg \<noteq> []) \<and>
     sequence_iter sq' = Inr (nths (seq_vals [SegRange (0, 5), SegRange (7, 9)]) {i. i \<notin> unat ` set [1, 5, 6 :: u32]})"
  by (rule mask_correct) simp_all

end
