(* ===== verification/Sequence_Rechunk.thy ===== *)
theory Sequence_Rechunk
  imports Sequence_Updates
begin

text \<open>
  \<open>rechunk_sequences\<close>: the row ids of several sequences are cut into chunks of given sizes. The
  loop over the segments is related to cutting the concatenated list of values.
\<close>

fun split_sizes :: "'a list \<Rightarrow> nat list \<Rightarrow> 'a list list" where
  "split_sizes xs [] = []"
| "split_sizes xs (n # ns) = take n xs # split_sizes (drop n xs) ns"

text \<open>What is left to hand out when the loop stands at an offset of the first remaining segment.\<close>

fun pending_vals :: "u64_segment list \<Rightarrow> u64 \<Rightarrow> u64 list" where
  "pending_vals [] off = []"
| "pending_vals (seg # segs) off = drop (unat off) (segment_vals seg) @ seq_vals segs"

fun offset_ok :: "u64_segment list \<Rightarrow> u64 \<Rightarrow> bool" where
  "offset_ok [] off \<longleftrightarrow> True"
| "offset_ok (seg # segs) off \<longleftrightarrow> unat off \<le> length (segment_vals seg)"

text \<open>No segment is exhausted or empty: then nothing is left exactly when no segment is left.\<close>

fun offset_tight :: "u64_segment list \<Rightarrow> u64 \<Rightarrow> bool" where
  "offset_tight [] off \<longleftrightarrow> True"
| "offset_tight (seg # segs) off \<longleftrightarrow>
     unat off < length (segment_vals seg) \<and> (\<forall>s \<in> set segs. segment_vals s \<noteq> [])"

definition short_segments :: "u64_segment list \<Rightarrow> bool" where
  "short_segments segs \<longleftrightarrow> (\<forall>s \<in> set segs. length (segment_vals s) < 2 ^ 64)"

lemma short_segments_simps [simp]:
  "short_segments []" "short_segments (s # segs) \<longleftrightarrow> length (segment_vals s) < 2 ^ 64 \<and> short_segments segs"
  by (simp_all add: short_segments_def)

lemma pending_vals_0 [simp]: "pending_vals segs 0 = seq_vals segs" "offset_ok segs 0"
  by (cases segs; simp)+

lemma offset_tight_0: "(\<forall>s \<in> set segs. segment_vals s \<noteq> []) \<Longrightarrow> offset_tight segs 0"
  by (cases segs) auto

lemma offset_tight_empty: "offset_tight segs off \<Longrightarrow> pending_vals segs off = [] \<Longrightarrow> segs = []"
  by (cases segs) auto

definition chunk_taken :: "u64_segment list \<Rightarrow> u64 \<Rightarrow> nat \<Rightarrow> row_id_sequence \<Rightarrow>
    row_id_sequence \<times> u64_segment list \<times> u64 \<Rightarrow> bool" where
  "chunk_taken segs off n sq = (\<lambda>(sq', segs', off').
     seq_wf sq' \<and> seq_wf segs' \<and> short_segments segs' \<and> offset_ok segs' off' \<and>
     seq_vals sq' = seq_vals sq @ take n (pending_vals segs off) \<and>
     pending_vals segs' off' = drop n (pending_vals segs off) \<and>
     (offset_tight segs off \<longrightarrow> offset_tight segs' off'))"

lemma segment_cut:
  assumes "segment_wf seg" "length (segment_vals seg) < 2 ^ 64" "seq_wf sq"
  obtains s where "segment_slice seg off n = Inr s" "seq_wf (sequence_extend sq [s])"
    "seq_vals (sequence_extend sq [s]) = seq_vals sq @ take n (drop off (segment_vals seg))"
proof -
  obtain s where "segment_slice seg off n = Inr s" "segment_wf s" "segment_vals s = take n (drop off (segment_vals seg))"
    using segment_slice_eq[OF assms(1,2)] by blast
  with sequence_extend_eq[OF assms(3), of "[s]"] that show thesis by simp
qed

lemma segment_cut_cases:
  "(k :: nat) \<le> n \<Longrightarrow> r = 0 \<or> 0 < r \<and> n = k \<or> 0 < r \<and> n - k > r \<or> 0 < r \<and> k < n \<and> n - k \<le> r"
  by linarith

lemma rechunk_loop_eq:
  assumes "seq_wf segs" "short_segments segs" "offset_ok segs off" "seq_wf sq"
  shows "if unat remaining \<le> length (pending_vals segs off) \<or> allow
    then \<exists>r. rechunk_loop allow segs off remaining sq = Inr r \<and> chunk_taken segs off (unat remaining) sq r
    else rechunk_loop allow segs off remaining sq = Inl InvalidInput"
  using assms
proof (induction segs arbitrary: off remaining sq)
  case Nil
  then show ?case by (auto simp: chunk_taken_def word_less_nat_alt)
next
  case (Cons seg segs)
  let ?n = "length (segment_vals seg)"
  have seg: "segment_wf seg" "?n < 2 ^ 64" "unat off \<le> ?n" using Cons.prems by simp_all
  have left: "unat (word_of_nat ?n - off) = ?n - unat off"
    using seg(2,3) by (simp add: unat_diff_word word_le_nat_alt unat_of_nat)
  have IH: "if unat r \<le> length (seq_vals segs) \<or> allow
      then \<exists>x. rechunk_loop allow segs 0 r sq1 = Inr x \<and> chunk_taken segs 0 (unat r) sq1 x
      else rechunk_loop allow segs 0 r sq1 = Inl InvalidInput" if "seq_wf sq1" for r sq1
    using Cons.IH[of 0 sq1 r] Cons.prems that by simp
  have tight0: "offset_tight segs 0" if "offset_tight (seg # segs) off" using that by (simp add: offset_tight_0)
  note [simp del] = rechunk_loop.simps(2) and unfold = rechunk_loop.simps(2) segment_len_eq[OF seg(1)]
  consider "remaining = 0" | "0 < remaining" "?n = unat off" | "0 < remaining" "?n - unat off > unat remaining"
    | "0 < remaining" "unat off < ?n" "?n - unat off \<le> unat remaining"
    using segment_cut_cases[OF seg(3), of "unat remaining"] by (auto simp: unat_eq_0 unat_gt_0 word_gt_0)
  then show ?case
  proof cases
    case 1
    then show ?thesis using Cons.prems by (auto simp: chunk_taken_def unfold)
  next
    case 2
    then have zero: "word_of_nat ?n = off" by simp
    have "rechunk_loop allow (seg # segs) off remaining sq = rechunk_loop allow segs 0 remaining sq"
      using 2(1) by (simp add: unfold zero)
    moreover have "pending_vals (seg # segs) off = seq_vals segs" using 2(2) by simp
    moreover have "\<not> offset_tight (seg # segs) off" using 2(2) by simp
    ultimately show ?thesis using IH[OF Cons.prems(4), of remaining]
      by (auto simp: chunk_taken_def split: if_splits)
  next
    case 3
    obtain s where s: "segment_slice seg (unat off) (unat remaining) = Inr s" "seq_wf (sequence_extend sq [s])"
      "seq_vals (sequence_extend sq [s]) = seq_vals sq @ take (unat remaining) (drop (unat off) (segment_vals seg))"
      by (rule segment_cut[OF seg(1,2) Cons.prems(4)])
    have nz: "word_of_nat ?n - off \<noteq> 0" "remaining < word_of_nat ?n - off"
      using 3 left by (auto simp: word_less_nat_alt)
    have "rechunk_loop allow (seg # segs) off remaining sq = Inr (sequence_extend sq [s], seg # segs, off + remaining)"
      using 3(1) nz s(1) by (simp add: unfold)
    moreover have "unat (off + remaining) = unat off + unat remaining"
      using 3(2) seg(2) by (intro unat_add_lem[THEN iffD1]) simp
    then have "chunk_taken (seg # segs) off (unat remaining) sq (sequence_extend sq [s], seg # segs, off + remaining)"
      using 3(2) s Cons.prems by (auto simp: chunk_taken_def add.commute)
    moreover have "unat remaining \<le> length (pending_vals (seg # segs) off)" using 3(2) by simp
    ultimately show ?thesis by simp
  next
    case 4
    obtain s where s: "segment_slice seg (unat off) (unat (word_of_nat ?n - off)) = Inr s" "seq_wf (sequence_extend sq [s])"
      "seq_vals (sequence_extend sq [s]) = seq_vals sq @ take (?n - unat off) (drop (unat off) (segment_vals seg))"
      using segment_cut[OF seg(1,2) Cons.prems(4), of "unat off" "?n - unat off"] unfolding left by blast
    have nz: "word_of_nat ?n - off \<noteq> 0" "\<not> remaining < word_of_nat ?n - off"
      using 4 left by (auto simp: word_less_nat_alt)
    have step: "rechunk_loop allow (seg # segs) off remaining sq =
        rechunk_loop allow segs 0 (remaining - (word_of_nat ?n - off)) (sequence_extend sq [s])"
      using 4(1) nz s(1) by (simp add: unfold)
    have rem: "unat (remaining - (word_of_nat ?n - off)) = unat remaining - (?n - unat off)"
      using nz(2) left by (simp add: unat_diff_word not_less)
    have "chunk_taken (seg # segs) off (unat remaining) sq r"
      if "chunk_taken segs 0 (unat remaining - (?n - unat off)) (sequence_extend sq [s]) r" for r
      using that s(3) 4(3) tight0 by (auto simp: chunk_taken_def)
    moreover have "unat remaining \<le> length (pending_vals (seg # segs) off) \<longleftrightarrow>
        unat remaining - (?n - unat off) \<le> length (seq_vals segs)"
      using 4(3) by auto
    ultimately show ?thesis unfolding step using IH[OF s(2), of "remaining - (word_of_nat ?n - off)"] unfolding rem
      by (auto split: if_splits)
  qed
qed

lemma rechunk_chunks_eq:
  assumes "seq_wf segs" "short_segments segs" "offset_ok segs off"
  shows "if sum_list (map unat sizes) \<le> length (pending_vals segs off) \<or> allow
    then \<exists>chunks segs'. rechunk_chunks allow sizes segs off = Inr (chunks, segs') \<and> list_all seq_wf chunks \<and>
      map seq_vals chunks = split_sizes (pending_vals segs off) (map unat sizes) \<and>
      (offset_tight segs off \<and> length (pending_vals segs off) \<le> sum_list (map unat sizes) \<longrightarrow> segs' = []) \<and>
      (sum_list (map unat sizes) < length (pending_vals segs off) \<longrightarrow> segs' \<noteq> [])
    else rechunk_chunks allow sizes segs off = Inl InvalidInput"
  using assms
proof (induction sizes arbitrary: segs off)
  case Nil
  then show ?case by (auto dest: offset_tight_empty)
next
  case (Cons n sizes)
  let ?vals = "pending_vals segs off"
  let ?rest = "sum_list (map unat sizes)"
  note loop = rechunk_loop_eq[OF Cons.prems(1-3) seq_wf_simps(1), of n allow]
  show ?case
  proof (cases "unat n \<le> length ?vals \<or> allow")
    case False
    then show ?thesis using loop by simp
  next
    case True
    then obtain sq segs1 off1 where r: "rechunk_loop allow segs off n [] = Inr (sq, segs1, off1)"
      "chunk_taken segs off (unat n) [] (sq, segs1, off1)" using loop by auto
    then have taken: "seq_wf sq" "seq_wf segs1" "short_segments segs1" "offset_ok segs1 off1"
      "seq_vals sq = take (unat n) ?vals" "pending_vals segs1 off1 = drop (unat n) ?vals"
      "offset_tight segs off \<longrightarrow> offset_tight segs1 off1"
      by (simp_all add: chunk_taken_def)
    note IH = Cons.IH[OF taken(2-4), unfolded taken(6)]
    have cond: "(?rest \<le> length (drop (unat n) ?vals) \<or> allow) \<longleftrightarrow> (unat n + ?rest \<le> length ?vals \<or> allow)"
      using True by auto
    show ?thesis
    proof (cases "unat n + ?rest \<le> length ?vals \<or> allow")
      case ok: True
      then obtain chunks segs' where c: "rechunk_chunks allow sizes segs1 off1 = Inr (chunks, segs')" "list_all seq_wf chunks"
        "map seq_vals chunks = split_sizes (drop (unat n) ?vals) (map unat sizes)"
        "offset_tight segs1 off1 \<and> length (drop (unat n) ?vals) \<le> ?rest \<longrightarrow> segs' = []"
        "?rest < length (drop (unat n) ?vals) \<longrightarrow> segs' \<noteq> []"
        using IH cond by auto
      then show ?thesis using ok r(1) taken(1,5,7) by auto
    next
      case bad: False
      then have "rechunk_chunks allow sizes segs1 off1 = Inl InvalidInput" using IH cond by auto
      then show ?thesis using bad r(1) by auto
    qed
  qed
qed

definition rechunk_vals :: "row_id_sequence list \<Rightarrow> u64 list" where
  "rechunk_vals sqs = concat (map seq_vals sqs)"

lemma seq_vals_concat: "seq_vals (concat sqs) = rechunk_vals sqs"
  by (induction sqs) (simp_all add: rechunk_vals_def)

lemma rechunk_sequences_eq:
  assumes "list_all seq_wf sqs" "length (rechunk_vals sqs) < 2 ^ 64" "\<forall>sq \<in> set sqs. \<forall>seg \<in> set sq. segment_vals seg \<noteq> []"
  shows "if length (rechunk_vals sqs) = sum_list (map unat sizes) \<or> length (rechunk_vals sqs) < sum_list (map unat sizes) \<and> allow
    then \<exists>chunks. rechunk_sequences sqs sizes allow = Inr chunks \<and> list_all seq_wf chunks \<and>
      map seq_vals chunks = split_sizes (rechunk_vals sqs) (map unat sizes)
    else rechunk_sequences sqs sizes allow = Inl InvalidInput"
proof -
  have wf: "seq_wf (concat sqs)" using assms(1) by (induction sqs) simp_all
  have short: "short_segments (concat sqs)"
    using assms(2) segment_vals_le_seq[of _ "concat sqs"] unfolding short_segments_def seq_vals_concat[symmetric] by fastforce
  have tight: "offset_tight (concat sqs) 0" using assms(3) by (intro offset_tight_0) auto
  show ?thesis
    using rechunk_chunks_eq[OF wf short pending_vals_0(2), of sizes allow] tight
    by (auto simp: rechunk_sequences_def seq_vals_concat split: if_splits)
qed

subsection \<open>Properties\<close>

lemma rechunk_trailing_empty:
  "rechunk_vals [[SegRange (0, 2), SegRange (0, 0)]] = [0, 1]"
  "rechunk_sequences [[SegRange (0, 2), SegRange (0, 0)]] [2] False = Inl InvalidInput"
proof -
  have "[0..<2] = [0, 1 :: nat]" by (simp add: numeral_2_eq_2)
  then show "rechunk_vals [[SegRange (0, 2), SegRange (0, 0)]] = [0, 1]"
    "rechunk_sequences [[SegRange (0, 2), SegRange (0, 0)]] [2] False = Inl InvalidInput"
    by (simp_all add: rechunk_vals_def range_vals_def rechunk_sequences_def segment_slice_def sequence_extend_def Let_def)
qed

text \<open>
  C18. Re-chunking: when no segment is empty, the chunk sizes add up to the number of row ids (or
  exceed it and incomplete chunks are allowed), the chunks hold the concatenated row ids cut at
  exactly the given sizes; in every other case an error is returned. The restriction is needed: with
  a trailing empty segment, as deleting the last ids of a sequence leaves one, the sizes can add up
  exactly and the code still reports too many segments.
\<close>

theorem rechunk_correct:
  assumes "list_all seq_wf sqs" "length (rechunk_vals sqs) < 2 ^ 64" "\<forall>sq \<in> set sqs. \<forall>seg \<in> set sq. segment_vals seg \<noteq> []"
  shows "(if length (rechunk_vals sqs) = sum_list (map unat sizes) \<or> length (rechunk_vals sqs) < sum_list (map unat sizes) \<and> allow
    then \<exists>chunks. rechunk_sequences sqs sizes allow = Inr chunks \<and>
      mapr sequence_iter chunks = Inr (split_sizes (rechunk_vals sqs) (map unat sizes))
    else rechunk_sequences sqs sizes allow = Inl InvalidInput) \<and>
    rechunk_vals [[SegRange (0, 2), SegRange (0, 0)]] = [0, 1] \<and>
    rechunk_sequences [[SegRange (0, 2), SegRange (0, 0)]] [2] False = Inl InvalidInput"
proof -
  have "mapr sequence_iter chunks = Inr (map seq_vals chunks)" if "list_all seq_wf chunks" for chunks
    using that by (intro mapr_Inr) (simp add: sequence_iter_eq list_all_set)
  then show ?thesis using rechunk_sequences_eq[OF assms, of sizes allow] rechunk_trailing_empty by (auto split: if_splits)
qed

theorem rechunk_correct_witness:
  "\<exists>chunks. rechunk_sequences [[SegRange (0, 5)], [SegRange (7, 9)]] [3, 4] False = Inr chunks \<and>
     mapr sequence_iter chunks = Inr (split_sizes (rechunk_vals [[SegRange (0, 5)], [SegRange (7, 9)]]) (map unat [3, 4 :: u64]))"
  using rechunk_correct[of "[[SegRange (0, 5)], [SegRange (7, 9)]]" "[3, 4]" False]
  by (simp add: rechunk_vals_def range_vals_def)

end
