(* ===== verification/Sequence_Reencode.thy ===== *)
theory Sequence_Reencode
  imports Sequence_Rechunk
begin

text \<open>
  \<open>RowIdSequence::reencode\<close> and its \<open>ChunkEncoder\<close>: whatever encoding each chunk gets, the row ids
  and their order stay the same, and the result never lets a reader fold \<open>Range\<close> runs across a gap
  of more than one chunk.
\<close>

subsection \<open>Separated runs and their complements\<close>

lemma ranges_sep_tl: "ranges_sep (r # rs) \<Longrightarrow> ranges_sep rs"
  by (simp add: ranges_sep_Cons)

lemma ranges_vals_sorted: "ranges_sep rs \<Longrightarrow> sorted_wrt (<) (ranges_vals rs)"
proof (induction rs)
  case (Cons r rs)
  have "x < y" if "x \<in> set (range_vals r)" "y \<in> set (ranges_vals rs)" for x y
  proof -
    obtain q where "q \<in> set rs" "y \<in> set (range_vals q)" using \<open>y \<in> set (ranges_vals rs)\<close> by (auto simp: set_ranges_vals)
    with Cons.prems that(1) show ?thesis by (auto simp: ranges_sep_Cons)
  qed
  with Cons show ?case by (simp add: sorted_wrt_append ranges_sep_Cons)
qed simp

lemma ranges_sep_hd_last:
  assumes "ranges_sep rs" "rs \<noteq> []"
  shows "fst (hd rs) < snd (last rs)" "v \<in> set (ranges_vals rs) \<Longrightarrow> fst (hd rs) \<le> v \<and> v < snd (last rs)"
proof -
  note b = ranges_sep_bounds[OF assms(1)]
  have "unat (fst (hd rs)) < unat (snd (hd rs))" "unat (snd (hd rs)) \<le> unat (snd (last rs))"
    using b(2,3)[of "hd rs"] assms(2) by auto
  then show "fst (hd rs) < snd (last rs)" by (simp add: word_less_nat_alt)
  show "fst (hd rs) \<le> v \<and> v < snd (last rs)" if v: "v \<in> set (ranges_vals rs)"
  proof -
    obtain q where "q \<in> set rs" "v \<in> set (range_vals q)" using v unfolding set_ranges_vals by blast
    with b(1,2)[of q] show ?thesis by (simp add: word_le_nat_alt word_less_nat_alt)
  qed
qed

lemma run_holes_simps:
  "run_holes [] = []" "run_holes [r] = []" "run_holes (r # q # rs) = range_vals (snd r, fst q) @ run_holes (q # rs)"
  by (simp_all add: run_holes_def pairs2_def)

lemma run_holes_eq:
  "ranges_sep rs \<Longrightarrow> rs \<noteq> [] \<Longrightarrow>
   run_holes rs = filter (\<lambda>v. v \<notin> set (ranges_vals rs)) (range_vals (fst (hd rs), snd (last rs)))"
proof (induction rs rule: induct_list012)
  case (2 r)
  then show ?case by (cases r) (auto simp: run_holes_simps filter_empty_conv)
next
  case (3 r q rs)
  let ?L = "snd (last (q # rs))"
  have sep: "fst r < snd r" "snd r < fst q" "ranges_sep (q # rs)" "\<forall>p \<in> set (q # rs). snd r < fst p"
    using "3.prems" by (auto simp: ranges_sep_Cons)
  have L: "fst q < ?L" using ranges_sep_hd_last(1)[OF sep(3)] by simp
  have above: "fst q \<le> v" if "v \<in> set (ranges_vals (q # rs))" for v
    using ranges_sep_hd_last(2)[OF sep(3) _ that] by simp
  have "range_vals (fst r, ?L) = range_vals r @ range_vals (snd r, fst q) @ range_vals (fst q, ?L)"
    using range_vals_append[of "fst r" "snd r" ?L] range_vals_append[of "snd r" "fst q" ?L] sep L by (cases r) simp
  moreover have "filter (\<lambda>v. v \<notin> set (ranges_vals (r # q # rs))) (range_vals r) = []" by (simp add: filter_empty_conv)
  moreover have "filter (\<lambda>v. v \<notin> set (ranges_vals (r # q # rs))) (range_vals (snd r, fst q)) = range_vals (snd r, fst q)"
    using above by (intro filter_True) (fastforce simp del: ranges_vals_simps simp: ranges_vals_simps(2)[of r])
  moreover have "filter (\<lambda>v. v \<notin> set (ranges_vals (r # q # rs))) (range_vals (fst q, ?L)) = run_holes (q # rs)"
    using "3.IH"(2)[OF sep(3)] sep(2) by (auto intro!: filter_cong)
  ultimately show ?case by (simp add: run_holes_simps(3) del: ranges_vals_simps)
qed simp

lemma holes_chunk:
  assumes "ranges_sep rs" "rs \<noteq> []"
  defines "seg \<equiv> SegRangeWithHoles (fst (hd rs), snd (last rs)) (enc_from_vec (run_holes rs))"
  shows "segment_wf seg" "segment_vals seg = ranges_vals rs"
proof -
  note b = ranges_sep_hd_last[OF assms(1,2)]
  show "segment_wf seg"
    using b(1) by (auto simp: seg_def run_holes_eq[OF assms(1,2)] sorted_wrt_filter list_all_set)
  have "segment_vals seg = filter (\<lambda>v. v \<in> set (ranges_vals rs)) (range_vals (fst (hd rs), snd (last rs)))"
    by (auto simp: seg_def run_holes_eq[OF assms(1,2)] intro!: filter_cong)
  then show "segment_vals seg = ranges_vals rs"
    using filter_range_vals[OF ranges_vals_sorted[OF assms(1)], of "(fst (hd rs), snd (last rs))"] b(2)
    by (auto simp: subset_iff)
qed

lemma foldr_res_clear_range:
  "bitmap_wf bm \<Longrightarrow> (\<And>p. p \<in> set ps \<Longrightarrow> g p \<le> bm_len bm) \<Longrightarrow>
   \<exists>bm'. foldr_res (\<lambda>p bm. bitmap_clear_range bm (f p, g p)) ps bm = Inr bm' \<and> bitmap_wf bm' \<and> bm_len bm' = bm_len bm \<and>
     (\<forall>j < bm_len bm. bitmap_bits bm' ! j \<longleftrightarrow> bitmap_bits bm ! j \<and> \<not> (\<exists>p \<in> set ps. f p \<le> j \<and> j < g p))"
proof (induction ps arbitrary: bm)
  case (Cons p ps)
  obtain bm1 where bm1: "bitmap_clear_range bm (f p, g p) = Inr bm1" "bitmap_wf bm1" "bm_len bm1 = bm_len bm"
    "\<And>j. j < bm_len bm \<Longrightarrow> bitmap_bits bm1 ! j \<longleftrightarrow> bitmap_bits bm ! j \<and> \<not> (f p \<le> j \<and> j < g p)"
    using bitmap_clear_range_eq[of bm "g p" "f p"] Cons.prems by auto
  then show ?case using Cons.IH[of bm1] Cons.prems(2) by auto
qed simp

lemma pairs2_members: "(a, b) \<in> set (pairs2 xs) \<Longrightarrow> a \<in> set xs \<and> b \<in> set xs"
  unfolding pairs2_def using set_zip_leftD[of a b xs "tl xs"] set_zip_rightD[of a b xs "tl xs"] by (cases xs) auto

lemma set_run_holes: "v \<in> set (run_holes rs) \<longleftrightarrow> (\<exists>p \<in> set (pairs2 rs). snd (fst p) \<le> v \<and> v < fst (snd p))"
  by (simp add: run_holes_def case_prod_beta)

lemma bitmap_chunk:
  assumes "ranges_sep rs" "rs \<noteq> []"
  shows "\<exists>bm. run_bitmap rs = Inr bm \<and> segment_wf (SegRangeWithBitmap (fst (hd rs), snd (last rs)) bm) \<and>
    segment_vals (SegRangeWithBitmap (fst (hd rs), snd (last rs)) bm) = ranges_vals rs"
proof -
  define F where "F = fst (hd rs)"
  define L where "L = snd (last rs)"
  note b = ranges_sep_hd_last[OF assms, folded F_def L_def] and bounds = ranges_sep_bounds[OF assms(1), folded F_def L_def]
  have n: "unat (L - F) = unat L - unat F" using b(1) by (simp add: unat_diff_word)
  let ?f = "\<lambda>(a, b). unat (snd a - F)" and ?g = "\<lambda>(a, b). unat (fst b - F)"
  have off: "unat (x - F) = unat x - unat F" if "F \<le> x" for x using that by (simp add: unat_diff_word)
  have pair: "?f p = unat (snd (fst p)) - unat F \<and> F \<le> snd (fst p) \<and> ?g p = unat (fst (snd p)) - unat F \<and> F \<le> fst (snd p) \<and> ?g p \<le> unat L - unat F"
    if "p \<in> set (pairs2 rs)" for p
  proof -
    obtain a c where p: "p = (a, c)" by (cases p)
    then have "a \<in> set rs" "c \<in> set rs" using pairs2_members[of a c rs] that by simp_all
    with bounds[of a] bounds[of c] have "F \<le> snd a" "F \<le> fst c" "unat (fst c) \<le> unat L" by (simp_all add: word_le_nat_alt)
    then show ?thesis by (simp add: p off diff_le_mono)
  qed
  let ?full = "bitmap_new_full (unat (L - F))"
  have full: "bitmap_wf ?full" "bm_len ?full = unat (L - F)" "bitmap_bits ?full = replicate (unat (L - F)) True"
    using bitmap_new_full_eq[of "unat (L - F)"] by simp_all
  have "?g p \<le> bm_len ?full" if "p \<in> set (pairs2 rs)" for p using pair[OF that] full(2) n by simp
  from foldr_res_clear_range[where f = ?f and g = ?g, OF full(1) this] obtain bm where
    bm: "foldr_res (\<lambda>p bm. bitmap_clear_range bm (?f p, ?g p)) (pairs2 rs) ?full = Inr bm" "bitmap_wf bm" "bm_len bm = unat (L - F)"
    and bits: "\<forall>j < unat (L - F). bitmap_bits bm ! j \<longleftrightarrow> bitmap_bits ?full ! j \<and> \<not> (\<exists>p \<in> set (pairs2 rs). ?f p \<le> j \<and> j < ?g p)"
    unfolding full(2) by blast
  have wf: "segment_wf (SegRangeWithBitmap (F, L) bm)" using bm(2,3) b(1) n by (simp add: range_span_def)
  have bit: "bitmap_bits bm ! unat (v - F) \<longleftrightarrow> v \<notin> set (run_holes rs)" if "v \<in> set (range_vals (F, L))" for v
  proof -
    have v: "F \<le> v" "v < L" using that by simp_all
    then have less: "unat (v - F) < unat (L - F)" using n by (simp add: off word_le_nat_alt word_less_nat_alt diff_less_mono)
    have "?f p \<le> unat (v - F) \<and> unat (v - F) < ?g p \<longleftrightarrow> snd (fst p) \<le> v \<and> v < fst (snd p)" if "p \<in> set (pairs2 rs)" for p
      using pair[OF that] v(1) by (auto simp: off word_le_nat_alt word_less_nat_alt)
    then have "(\<exists>p \<in> set (pairs2 rs). ?f p \<le> unat (v - F) \<and> unat (v - F) < ?g p) \<longleftrightarrow> v \<in> set (run_holes rs)"
      unfolding set_run_holes by (intro bex_cong refl)
    moreover have "bitmap_bits ?full ! unat (v - F)" using less by (simp add: full(3))
    ultimately show ?thesis using bits less by blast
  qed
  have "segment_vals (SegRangeWithBitmap (F, L) bm) = filter (\<lambda>v. bitmap_bits bm ! unat (v - F)) (range_vals (F, L))"
    using bitmap_filter_vals[OF wf] by simp
  also have "\<dots> = filter (\<lambda>v. v \<notin> set (run_holes rs)) (range_vals (F, L))" using bit by (rule filter_cong[OF refl])
  also have "\<dots> = ranges_vals rs" using holes_chunk(2)[OF assms] by (simp add: F_def L_def)
  finally have "segment_vals (SegRangeWithBitmap (F, L) bm) = ranges_vals rs" .
  moreover have "run_bitmap rs = Inr bm" using bm(1) by (simp add: run_bitmap_def Let_def case_prod_unfold F_def L_def)
  ultimately show ?thesis using wf unfolding F_def L_def by blast
qed

lemma segment_runs_cover:
  assumes "segment_wf seg" "- 1 \<notin> set (segment_vals seg)"
  shows "\<exists>rs. segment_runs seg = Inr rs \<and> ranges_vals rs = segment_vals seg"
proof (cases "segment_vals seg = []")
  case False
  then show ?thesis using segment_runs_eq[OF assms(1)] value_runs_covers[OF assms(2)] by blast
next
  case True
  show ?thesis
  proof (cases seg)
    case (SegRangeWithHoles r holes)
    then show ?thesis using assms(1) hole_bounds_runs_eq[of "enc_iter holes" "fst r" "snd r"] by (auto simp: list_all_set)
  next
    case (SegSortedArray array)
    then show ?thesis using True by (cases array) (auto simp: sorted_runs_def)
  next
    case (SegRanges r runs)
    then show ?thesis using segment_runs_ranges[of r runs] assms(1) by blast
  next
    case (SegRangeWithBitmap r bm)
    then show ?thesis using segment_runs_bitmap[of r bm] assms(1) by blast
  qed (use True in simp_all)
qed

subsection \<open>The encoder state\<close>

definition pending_run :: "chunk_encoder \<Rightarrow> u64 range list" where
  "pending_run ce = (case ce_pending ce of None \<Rightarrow> [] | Some (r, _) \<Rightarrow> [r])"

definition ce_vals :: "chunk_encoder \<Rightarrow> u64 list" where
  "ce_vals ce = seq_vals (ce_segments ce) @ ranges_vals (pending_run ce) @ ranges_vals (ce_chunk ce)"

text \<open>The runs gathered lie in the chunk of 64K ids the first one starts in.\<close>

definition chunk_limit :: "u64 \<Rightarrow> nat" where
  "chunk_limit x = unat x div 65536 * 65536 + 65536"

definition chunk_ok :: "u64 range list \<Rightarrow> bool" where
  "chunk_ok rs \<longleftrightarrow> ranges_sep rs \<and> (rs \<noteq> [] \<longrightarrow> unat (snd (last rs)) \<le> chunk_limit (fst (hd rs)))"

definition ce_ok :: "chunk_encoder \<Rightarrow> bool" where
  "ce_ok ce \<longleftrightarrow> seq_wf (ce_segments ce) \<and> (\<forall>r \<in> set (pending_run ce). fst r < snd r) \<and> chunk_ok (ce_chunk ce)"

lemma chunk_limit_bound: "unat x < chunk_limit x" "chunk_limit x \<le> unat x + 65536"
proof -
  have "unat x = unat x div 65536 * 65536 + unat x mod 65536" "unat x mod 65536 < 65536" by simp_all
  then show "unat x < chunk_limit x" "chunk_limit x \<le> unat x + 65536" unfolding chunk_limit_def by linarith+
qed

lemma ce_push_simps [simp]:
  "ce_segments (ce_push seg ce) = ce_segments ce @ [seg]" "ce_pending (ce_push seg ce) = ce_pending ce"
  "ce_chunk (ce_push seg ce) = ce_chunk ce" "ce_last_end (ce_push seg ce) = ce_last_end ce"
  "ce_new_piece (ce_push seg ce) = ce_new_piece ce"
  by (simp_all add: ce_push_def)

lemma piece_breaker_eq:
  assumes "a < b"
  shows "segment_wf (piece_breaker a)" "segment_vals (piece_breaker a) = [a]" "\<not> range_kind (piece_breaker a)"
    "range_vals (a, b) = a # range_vals (a + 1, b)"
  using assms range_vals_Cons[OF assms] range_vals_Cons[of a "a + 1"] unat_add_1[OF assms]
  by (simp_all add: piece_breaker_def range_vals_empty word_le_nat_alt word_less_nat_alt)

text \<open>Writing the pending run out.\<close>

fun pending_segments :: "u64 range \<times> bool \<Rightarrow> u64_segment list" where
  "pending_segments (r, opens) =
     (if opens then piece_breaker (fst r) # (if fst r + 1 < snd r then [SegRange (fst r + 1, snd r)] else [])
      else if fst r < snd r then [SegRange r] else [])"

lemma flush_pending_eq:
  "flush_pending ce = ce\<lparr>ce_segments := ce_segments ce @ (case ce_pending ce of None \<Rightarrow> [] | Some p \<Rightarrow> pending_segments p),
     ce_pending := None\<rparr>"
  by (auto simp: flush_pending_def Let_def range_is_empty_def ce_push_def split: option.splits)

lemma pending_segments_ok:
  assumes "fst r < snd r"
  shows "seq_wf (pending_segments (r, opens))" "seq_vals (pending_segments (r, opens)) = range_vals r"
proof -
  note pb = piece_breaker_eq[OF assms]
  have "range_vals (fst r + 1, snd r) = []" if "\<not> fst r + 1 < snd r"
    using that by (simp add: range_vals_empty not_less)
  then show "seq_wf (pending_segments (r, opens))" "seq_vals (pending_segments (r, opens)) = range_vals r"
    using pb assms by auto
qed

lemma flush_pending_ok:
  assumes "ce_ok ce"
  shows "ce_ok (flush_pending ce)" "ce_vals (flush_pending ce) = ce_vals ce"
  using assms pending_segments_ok
  by (auto simp: flush_pending_eq ce_ok_def ce_vals_def pending_run_def split: option.splits)

subsection \<open>Gaps between range runs\<close>

definition no_gap :: "u64 option \<Rightarrow> u64 \<Rightarrow> bool" where
  "no_gap p x \<longleftrightarrow> (case p of Some e \<Rightarrow> \<not> (x > e \<and> x - e > REENCODE_CHUNK_IDS) | None \<Rightarrow> True)"

text \<open>Reading the segments from the state \<open>p\<close> finds no gap and ends in the state \<open>q\<close>.\<close>

fun gap_free :: "u64 option \<Rightarrow> u64_segment list \<Rightarrow> u64 option \<Rightarrow> bool" where
  "gap_free p [] q \<longleftrightarrow> p = q"
| "gap_free p (seg # segs) q \<longleftrightarrow>
     (if range_kind seg
      then \<exists>rs p'. segment_runs seg = Inr rs \<and> gap_in_runs p rs = (False, p') \<and> gap_free p' segs q
      else gap_free None segs q)"

lemma gap_free_append: "gap_free p (xs @ ys) r \<longleftrightarrow> (\<exists>q. gap_free p xs q \<and> gap_free q ys r)"
  by (induction xs arbitrary: p) auto

lemma gap_free_span: "gap_free p segs q \<Longrightarrow> span_gap_loop p segs = Inr False"
  by (induction p segs q rule: gap_free.induct) (auto split: if_splits)

lemma unat_chunk_ids: "unat REENCODE_CHUNK_IDS = 65536"
  by (simp add: REENCODE_CHUNK_IDS_def)

lemma no_gap_near: "unat x \<le> unat e + 65536 \<Longrightarrow> no_gap (Some e) x"
  by (auto simp: no_gap_def word_less_nat_alt unat_chunk_ids unat_diff_word word_le_nat_alt)

lemma gap_in_runs_chunk:
  "ranges_sep rs \<Longrightarrow> rs \<noteq> [] \<Longrightarrow> unat (snd (last rs)) \<le> lo + 65536 \<Longrightarrow> lo \<le> unat (fst (hd rs)) \<Longrightarrow>
   no_gap p (fst (hd rs)) \<Longrightarrow> gap_in_runs p rs = (False, Some (snd (last rs)))"
proof (induction rs arbitrary: p rule: induct_list012)
  case (2 r)
  then show ?case by (auto simp: no_gap_def split: option.splits)
next
  case (3 r q rs)
  have sep: "fst r < snd r" "snd r < fst q" "ranges_sep (q # rs)" using "3.prems" by (auto simp: ranges_sep_Cons)
  have "fst q < snd (last (q # rs))" using ranges_sep_hd_last(1)[OF sep(3)] by simp
  then have "no_gap (Some (snd r)) (fst q)"
    using sep(1,2) "3.prems"(3,4) by (intro no_gap_near) (simp add: word_less_nat_alt)
  moreover have "lo \<le> unat (fst q)" using sep "3.prems"(4) by (simp add: word_less_nat_alt)
  ultimately have "gap_in_runs (Some (snd r)) (q # rs) = (False, Some (snd (last (q # rs))))"
    using "3.prems" sep by (intro "3.IH"(2)) simp_all
  then show ?case using "3.prems"(5) by (auto simp: no_gap_def split: option.splits)
qed simp

text \<open>What the encoder writes for the runs of one chunk.\<close>

definition chunk_written :: "u64 range list \<Rightarrow> bool \<Rightarrow> u64_segment list \<Rightarrow> bool" where
  "chunk_written rs opens segs \<longleftrightarrow> seq_wf segs \<and> seq_vals segs = ranges_vals rs \<and>
     (\<forall>p. opens \<or> no_gap p (fst (hd rs)) \<longrightarrow> (\<exists>q. gap_free p segs q \<and> (q = None \<or> q = Some (snd (last rs)))))"

lemma chunk_written_other:
  "segment_wf seg \<Longrightarrow> segment_vals seg = ranges_vals rs \<Longrightarrow> \<not> range_kind seg \<Longrightarrow> chunk_written rs opens [seg]"
  by (simp add: chunk_written_def)

lemma chunk_span: "chunk_ok rs \<Longrightarrow> rs \<noteq> [] \<Longrightarrow> unat (snd (last rs)) \<le> unat (fst (hd rs)) + 65536"
  using chunk_limit_bound(2)[of "fst (hd rs)"] by (auto simp: chunk_ok_def)

lemma ranges_segment:
  assumes "ranges_sep rs" "2 \<le> length rs" "unat (snd (last rs)) \<le> unat (fst (hd rs)) + 65536"
  obtains seg where "segment_from_sorted_ranges rs = Some seg" "segment_wf seg" "segment_vals seg = ranges_vals rs"
    "range_kind seg" "segment_runs seg = Inr rs"
proof -
  have "unat (snd (last rs)) - unat (fst (hd rs)) < 2 ^ 32" using assms(3) by simp
  from from_sorted_ranges_eq[OF assms(1,2) this] obtain runs where
    runs: "segment_from_sorted_ranges rs = Some (SegRanges (fst (hd rs), snd (last rs)) runs)"
      "segment_wf (SegRanges (fst (hd rs), snd (last rs)) runs)"
      "segment_vals (SegRanges (fst (hd rs), snd (last rs)) runs) = ranges_vals rs" by blast
  have "ranges_vals rs \<noteq> []"
    using assms(1,2) range_vals_Cons[of "fst (hd rs)" "snd (hd rs)"] by (cases rs) (auto simp: ranges_sep_Cons)
  then have "segment_runs (SegRanges (fst (hd rs), snd (last rs)) runs) = Inr rs"
    using segment_runs_eq[OF runs(2)] runs(3) value_runs_sep[OF assms(1)] by simp
  with runs that show thesis by simp
qed

lemma chunk_written_ranges:
  assumes "chunk_ok rs" "2 \<le> length rs"
  obtains seg where "segment_from_sorted_ranges rs = Some seg" "chunk_written rs False [seg]"
proof -
  have ne: "rs \<noteq> []" "ranges_sep rs" using assms by (auto simp: chunk_ok_def)
  note span = chunk_span[OF assms(1) ne(1)]
  obtain seg where seg: "segment_from_sorted_ranges rs = Some seg" "segment_wf seg" "segment_vals seg = ranges_vals rs"
    "range_kind seg" "segment_runs seg = Inr rs" by (rule ranges_segment[OF ne(2) assms(2) span])
  have "chunk_written rs False [seg]"
    using seg gap_in_runs_chunk[OF ne(2,1) span order.refl] by (auto simp: chunk_written_def)
  with seg(1) that show thesis by blast
qed

lemma breaker_rest_eq:
  assumes "ranges_sep rs" "2 \<le> length rs"
  shows "ranges_sep (breaker_rest rs)" "breaker_rest rs \<noteq> []" "last (breaker_rest rs) = last rs"
    "fst (hd rs) < fst (hd (breaker_rest rs))" "ranges_vals rs = fst (hd rs) # ranges_vals (breaker_rest rs)"
proof -
  obtain r q rs' where rs: "rs = r # q # rs'" using assms(2) by (cases rs; cases "tl rs") auto
  have sep: "fst r < snd r" "\<forall>p \<in> set (q # rs'). snd r < fst p" "ranges_sep (q # rs')"
    using assms(1) by (auto simp: rs ranges_sep_Cons)
  have u: "unat (fst r + 1) = unat (fst r) + 1" by (rule unat_add_1[OF sep(1)])
  have cons: "range_vals r = fst r # range_vals (fst r + 1, snd r)" using range_vals_Cons[OF sep(1)] by (cases r) simp
  show "ranges_sep (breaker_rest rs)" "breaker_rest rs \<noteq> []" "last (breaker_rest rs) = last rs"
    "fst (hd rs) < fst (hd (breaker_rest rs))" "ranges_vals rs = fst (hd rs) # ranges_vals (breaker_rest rs)"
    using sep u cons
    by (auto simp: rs breaker_rest_def Let_def range_is_empty_def ranges_sep_Cons not_le range_vals_empty word_less_nat_alt)
qed

lemma chunk_written_breaker:
  assumes "chunk_ok rs" "2 \<le> length rs"
  obtains seg where "(case breaker_rest rs of [only] \<Rightarrow> Inr (SegRange only) | _ \<Rightarrow> unwrap (segment_from_sorted_ranges (breaker_rest rs))) = Inr seg"
    "chunk_written rs True [piece_breaker (fst (hd rs)), seg]"
proof -
  have ne: "rs \<noteq> []" "ranges_sep rs" using assms by (auto simp: chunk_ok_def)
  note br = breaker_rest_eq[OF ne(2) assms(2)]
  have lt: "fst (hd rs) < snd (hd rs)" using ne by (auto simp: ranges_sep_def)
  note pb = piece_breaker_eq[OF lt]
  have span: "unat (snd (last (breaker_rest rs))) \<le> unat (fst (hd (breaker_rest rs))) + 65536"
    using chunk_span[OF assms(1) ne(1)] br(3,4) by (simp add: word_less_nat_alt)
  have written: "chunk_written rs True [piece_breaker (fst (hd rs)), seg]"
    if "segment_wf seg" "segment_vals seg = ranges_vals (breaker_rest rs)" "range_kind seg" "segment_runs seg = Inr (breaker_rest rs)" for seg
  proof -
    have "gap_in_runs None (breaker_rest rs) = (False, Some (snd (last rs)))"
      using gap_in_runs_chunk[OF br(1,2) span order.refl, of None] br(3) by (simp add: no_gap_def)
    then show ?thesis using that pb(1-3) br(5) by (simp add: chunk_written_def)
  qed
  show thesis
  proof (cases "2 \<le> length (breaker_rest rs)")
    case True
    then obtain a b c where abc: "breaker_rest rs = a # b # c" by (cases "breaker_rest rs"; cases "tl (breaker_rest rs)") auto
    obtain seg where seg: "segment_from_sorted_ranges (breaker_rest rs) = Some seg" "segment_wf seg"
      "segment_vals seg = ranges_vals (breaker_rest rs)" "range_kind seg" "segment_runs seg = Inr (breaker_rest rs)"
      by (rule ranges_segment[OF br(1) True span])
    have "(case breaker_rest rs of [only] \<Rightarrow> Inr (SegRange only) | _ \<Rightarrow> unwrap (segment_from_sorted_ranges (breaker_rest rs))) = Inr seg"
      unfolding seg(1) by (simp add: abc)
    then show thesis by (rule that[OF _ written[OF seg(2-5)]])
  next
    case False
    then obtain only where only: "breaker_rest rs = [only]" using br(2) by (cases "breaker_rest rs"; cases "tl (breaker_rest rs)") auto
    then have "fst only < snd only" using br(1) by (simp add: ranges_sep_def)
    then show thesis using written[of "SegRange only"] only by (intro that[of "SegRange only"]) simp_all
  qed
qed

lemma flush_chunk_many:
  assumes "chunk_ok (ce_chunk ce)" "2 \<le> length (ce_chunk ce)"
  shows "\<exists>segs. flush_chunk ce = Inr ((flush_pending (ce\<lparr>ce_chunk := []\<rparr>))\<lparr>ce_new_piece := False,
      ce_segments := ce_segments (flush_pending (ce\<lparr>ce_chunk := []\<rparr>)) @ segs\<rparr>) \<and>
    chunk_written (ce_chunk ce) (ce_new_piece ce) segs"
proof -
  obtain r q rs where runs: "ce_chunk ce = r # q # rs" using assms(2) by (cases "ce_chunk ce"; cases "tl (ce_chunk ce)") auto
  have ne: "ce_chunk ce \<noteq> []" "ranges_sep (ce_chunk ce)" using assms by (auto simp: chunk_ok_def)
  let ?runs = "ce_chunk ce"
  define ce1 where "ce1 = (flush_pending (ce\<lparr>ce_chunk := []\<rparr>))\<lparr>ce_new_piece := False\<rparr>"
  obtain rb hb bb ab where costs: "chunk_byte_costs ?runs (ce_new_piece ce) = (rb, hb, bb, ab)" by (metis prod_cases4)
  have np: "ce_new_piece (flush_pending (ce\<lparr>ce_chunk := []\<rparr>)) = ce_new_piece ce" by (simp add: flush_pending_eq)
  let ?small = "min (min (min rb hb) bb) ab"
  have unfold: "flush_chunk ce =
    (if ?small = hb then Inr (ce_push (SegRangeWithHoles (fst (hd ?runs), snd (last ?runs)) (enc_from_vec (run_holes ?runs))) ce1)
     else if ?small = bb then bindr (run_bitmap ?runs) (\<lambda>bm. Inr (ce_push (SegRangeWithBitmap (fst (hd ?runs), snd (last ?runs)) bm) ce1))
     else if ?small = rb then
       if ce_new_piece ce then
         bindr (case breaker_rest ?runs of [only] \<Rightarrow> Inr (SegRange only) | _ \<Rightarrow> unwrap (segment_from_sorted_ranges (breaker_rest ?runs)))
           (\<lambda>seg. Inr (ce_push seg (ce_push (piece_breaker (fst (hd ?runs))) ce1)))
       else bindr (unwrap (segment_from_sorted_ranges ?runs)) (\<lambda>seg. Inr (ce_push seg ce1))
     else Inr (ce_push (SegSortedArray (enc_from_vec (ranges_vals ?runs))) ce1))"
    using costs np unfolding runs
    by (simp add: flush_chunk_def runs Let_def ce1_def ranges_vals_def split: list.splits)
  note hc = holes_chunk[OF ne(2,1)]
  obtain bm where bm: "run_bitmap ?runs = Inr bm" "segment_wf (SegRangeWithBitmap (fst (hd ?runs), snd (last ?runs)) bm)"
    "segment_vals (SegRangeWithBitmap (fst (hd ?runs), snd (last ?runs)) bm) = ranges_vals ?runs"
    using bitmap_chunk[OF ne(2,1)] by blast
  obtain rseg where rseg: "segment_from_sorted_ranges ?runs = Some rseg" "chunk_written ?runs False [rseg]"
    by (rule chunk_written_ranges[OF assms])
  obtain bseg where bseg: "(case breaker_rest ?runs of [only] \<Rightarrow> Inr (SegRange only) | _ \<Rightarrow> unwrap (segment_from_sorted_ranges (breaker_rest ?runs))) = Inr bseg"
    "chunk_written ?runs True [piece_breaker (fst (hd ?runs)), bseg]"
    by (rule chunk_written_breaker[OF assms])
  have arr: "segment_wf (SegSortedArray (enc_from_vec (ranges_vals ?runs)))"
    "segment_vals (SegSortedArray (enc_from_vec (ranges_vals ?runs))) = ranges_vals ?runs"
    using ranges_vals_sorted[OF ne(2)] by simp_all
  define segs where "segs =
    (if ?small = hb then [SegRangeWithHoles (fst (hd ?runs), snd (last ?runs)) (enc_from_vec (run_holes ?runs))]
     else if ?small = bb then [SegRangeWithBitmap (fst (hd ?runs), snd (last ?runs)) bm]
     else if ?small = rb then (if ce_new_piece ce then [piece_breaker (fst (hd ?runs)), bseg] else [rseg])
     else [SegSortedArray (enc_from_vec (ranges_vals ?runs))])"
  have "flush_chunk ce = Inr (ce1\<lparr>ce_segments := ce_segments ce1 @ segs\<rparr>)"
    unfolding unfold bm(1) rseg(1) bseg(1) segs_def by (simp add: ce_push_def)
  moreover have "chunk_written ?runs (ce_new_piece ce) segs"
    using chunk_written_other[OF hc] chunk_written_other[OF bm(2,3)] rseg(2) bseg(2) chunk_written_other[OF arr]
    by (cases "ce_new_piece ce") (simp_all add: segs_def)
  ultimately show ?thesis by (auto simp: ce1_def)
qed

subsection \<open>The encoder invariant\<close>

definition chunk_prev :: "chunk_encoder \<Rightarrow> u64 option \<Rightarrow> bool" where
  "chunk_prev ce q \<longleftrightarrow>
     (if ce_chunk ce = [] then q = None \<or> q = ce_last_end ce
      else (ce_new_piece ce \<or> no_gap q (fst (hd (ce_chunk ce)))) \<and> ce_last_end ce = Some (snd (last (ce_chunk ce))))"

definition ce_gap :: "chunk_encoder \<Rightarrow> bool" where
  "ce_gap ce \<longleftrightarrow> (\<exists>p. gap_free None (ce_segments ce) p \<and>
     (case ce_pending ce of
        None \<Rightarrow> chunk_prev ce p
      | Some (r, opens) \<Rightarrow> (opens \<or> no_gap p (fst r)) \<and> chunk_prev ce (Some (snd r))))"

definition ce_inv :: "chunk_encoder \<Rightarrow> bool" where
  "ce_inv ce \<longleftrightarrow> ce_ok ce \<and> ce_gap ce"

lemma no_gap_None [simp]: "no_gap None x"
  by (simp add: no_gap_def)

lemma chunk_prev_None: "chunk_prev ce q \<Longrightarrow> chunk_prev ce None"
  by (simp add: chunk_prev_def)

lemma pending_segments_gap:
  assumes "fst r < snd r" "opens \<or> no_gap p (fst r)"
  shows "\<exists>q. gap_free p (pending_segments (r, opens)) q \<and> (q = None \<or> q = Some (snd r))"
  using assms piece_breaker_eq(3)[OF assms(1)] by (auto simp: no_gap_def split: option.splits)

lemma flush_pending_gap:
  assumes "ce_ok ce" "ce_gap ce"
  shows "\<exists>p. gap_free None (ce_segments (flush_pending ce)) p \<and> chunk_prev ce p"
proof -
  obtain p where p: "gap_free None (ce_segments ce) p"
    "case ce_pending ce of None \<Rightarrow> chunk_prev ce p | Some (r, opens) \<Rightarrow> (opens \<or> no_gap p (fst r)) \<and> chunk_prev ce (Some (snd r))"
    using assms(2) by (auto simp: ce_gap_def)
  show ?thesis
  proof (cases "ce_pending ce")
    case None
    with p show ?thesis by (auto simp: flush_pending_eq)
  next
    case (Some ro)
    then obtain r opens where ro: "ce_pending ce = Some (r, opens)" by (cases ro) auto
    then have "fst r < snd r" using assms(1) by (simp add: ce_ok_def pending_run_def)
    with p ro pending_segments_gap[of r opens p] obtain q where
      "gap_free p (pending_segments (r, opens)) q" "q = None \<or> q = Some (snd r)" by auto
    then show ?thesis using p ro chunk_prev_None
      by (auto simp: flush_pending_eq gap_free_append simp del: pending_segments.simps)
  qed
qed

lemma push_range_inv:
  assumes "ce_ok ce" "ce_chunk ce = []" "fst run < snd run" "ce_last_end ce = Some (snd run)"
    "gap_free None (ce_segments ce) p"
    "case ce_pending ce of
       None \<Rightarrow> ce_new_piece ce \<or> no_gap p (fst run)
     | Some (r, opens) \<Rightarrow> (opens \<or> no_gap p (fst r)) \<and> (ce_new_piece ce \<or> no_gap (Some (snd r)) (fst run))"
  shows "ce_inv (ce_push_range run ce)" "ce_vals (ce_push_range run ce) = ce_vals ce @ range_vals run"
    "ce_chunk (ce_push_range run ce) = []" "ce_last_end (ce_push_range run ce) = ce_last_end ce"
proof -
  have "ce_inv (ce_push_range run ce) \<and> ce_vals (ce_push_range run ce) = ce_vals ce @ range_vals run \<and>
    ce_chunk (ce_push_range run ce) = [] \<and> ce_last_end (ce_push_range run ce) = ce_last_end ce"
  proof (cases "ce_pending ce")
    case None
    then show ?thesis using assms
      by (auto simp: ce_push_range_def ce_inv_def ce_ok_def ce_gap_def ce_vals_def pending_run_def chunk_prev_def)
  next
    case (Some ro)
    then obtain r opens where ro: "ce_pending ce = Some (r, opens)" by (cases ro) auto
    have r: "fst r < snd r" "opens \<or> no_gap p (fst r)" "ce_new_piece ce \<or> no_gap (Some (snd r)) (fst run)"
      using assms(1,6) ro by (auto simp: ce_ok_def pending_run_def)
    show ?thesis
    proof (cases "snd r = fst run")
      case True
      have "range_vals (fst r, snd run) = range_vals r @ range_vals run"
        using range_vals_append[of "fst r" "snd r" "snd run"] r(1) assms(3) True by (cases r, cases run) simp
      moreover have "fst r < snd run" using r(1) assms(3) True by simp
      ultimately show ?thesis using assms ro r True
        by (auto simp: ce_push_range_def ce_inv_def ce_ok_def ce_gap_def ce_vals_def pending_run_def chunk_prev_def)
    next
      case False
      obtain q where q: "gap_free p (pending_segments (r, opens)) q" "q = None \<or> q = Some (snd r)"
        using pending_segments_gap[OF r(1,2)] by blast
      have "no_gap q (fst run) \<or> ce_new_piece ce" using q(2) r(3) by auto
      then show ?thesis using assms ro r False q pending_segments_ok[OF r(1), of opens]
        by (auto simp: ce_push_range_def ce_inv_def ce_ok_def ce_gap_def ce_vals_def pending_run_def chunk_prev_def
            flush_pending_eq gap_free_append simp del: pending_segments.simps)
    qed
  qed
  then show "ce_inv (ce_push_range run ce)" "ce_vals (ce_push_range run ce) = ce_vals ce @ range_vals run"
    "ce_chunk (ce_push_range run ce) = []" "ce_last_end (ce_push_range run ce) = ce_last_end ce" by simp_all
qed

lemma flush_chunk_inv:
  assumes "ce_inv ce"
  shows "\<exists>ce'. flush_chunk ce = Inr ce' \<and> ce_inv ce' \<and> ce_vals ce' = ce_vals ce \<and> ce_chunk ce' = [] \<and> ce_last_end ce' = ce_last_end ce"
proof -
  have ok: "ce_ok ce" "ce_gap ce" using assms by (auto simp: ce_inv_def)
  consider "ce_chunk ce = []" | only where "ce_chunk ce = [only]" | "2 \<le> length (ce_chunk ce)"
    by (cases "ce_chunk ce"; cases "tl (ce_chunk ce)") auto
  then show ?thesis
  proof cases
    case 1
    then have "flush_chunk ce = Inr ce" by (cases ce) (simp add: flush_chunk_def)
    then show ?thesis using 1 assms by blast
  next
    case (2 only)
    let ?ce = "ce\<lparr>ce_chunk := []\<rparr>"
    obtain p where p: "gap_free None (ce_segments ce) p"
      "case ce_pending ce of None \<Rightarrow> chunk_prev ce p | Some (r, opens) \<Rightarrow> (opens \<or> no_gap p (fst r)) \<and> chunk_prev ce (Some (snd r))"
      using ok(2) by (auto simp: ce_gap_def)
    have run: "fst only < snd only" "ce_last_end ce = Some (snd only)"
      using ok(1) 2 p(2) by (auto simp: ce_ok_def chunk_ok_def ranges_sep_def chunk_prev_def split: option.splits)
    have ok': "ce_ok ?ce" using ok(1) by (simp add: ce_ok_def pending_run_def chunk_ok_def ranges_sep_def)
    have "case ce_pending ?ce of
        None \<Rightarrow> ce_new_piece ?ce \<or> no_gap p (fst only)
      | Some (r, opens) \<Rightarrow> (opens \<or> no_gap p (fst r)) \<and> (ce_new_piece ?ce \<or> no_gap (Some (snd r)) (fst only))"
      using p(2) 2 by (auto simp: chunk_prev_def split: option.splits)
    note pr = push_range_inv[OF ok' _ run(1) _ _ this]
    have "flush_chunk ce = Inr (ce_push_range only ?ce)" using 2 by (simp add: flush_chunk_def)
    moreover have "ce_vals ce = ce_vals ?ce @ range_vals only" using 2 by (simp add: ce_vals_def pending_run_def)
    ultimately show ?thesis using pr run p(1) by simp
  next
    case 3
    let ?ce = "ce\<lparr>ce_chunk := []\<rparr>"
    have chunk: "chunk_ok (ce_chunk ce)" using ok(1) by (simp add: ce_ok_def)
    obtain segs where segs: "flush_chunk ce = Inr ((flush_pending ?ce)\<lparr>ce_new_piece := False, ce_segments := ce_segments (flush_pending ?ce) @ segs\<rparr>)"
      "chunk_written (ce_chunk ce) (ce_new_piece ce) segs"
      using flush_chunk_many[OF chunk 3] by blast
    have fp: "ce_segments (flush_pending ?ce) = ce_segments (flush_pending ce)" by (simp add: flush_pending_eq)
    obtain p where p: "gap_free None (ce_segments (flush_pending ce)) p" "chunk_prev ce p"
      using flush_pending_gap[OF ok] by blast
    have ne: "ce_chunk ce \<noteq> []" using 3 by auto
    from p(2) have prev: "ce_new_piece ce \<or> no_gap p (fst (hd (ce_chunk ce)))" "ce_last_end ce = Some (snd (last (ce_chunk ce)))"
      by (simp_all add: chunk_prev_def ne)
    then obtain q where q: "gap_free p segs q" "q = None \<or> q = Some (snd (last (ce_chunk ce)))"
      using segs(2) unfolding chunk_written_def by blast
    let ?ce' = "(flush_pending ?ce)\<lparr>ce_new_piece := False, ce_segments := ce_segments (flush_pending ?ce) @ segs\<rparr>"
    have fields: "ce_segments ?ce' = ce_segments (flush_pending ce) @ segs" "ce_pending ?ce' = None" "ce_chunk ?ce' = []"
      "ce_last_end ?ce' = ce_last_end ce" by (simp_all add: fp) (simp_all add: flush_pending_eq)
    have "ce_ok ?ce'" using flush_pending_ok(1)[OF ok(1)] segs(2)
      by (simp add: ce_ok_def fields pending_run_def chunk_written_def chunk_ok_def ranges_sep_def)
    moreover have "ce_gap ?ce'" unfolding ce_gap_def fields chunk_prev_def
      using p(1) q prev(2) by (auto simp: gap_free_append)
    moreover have "ce_vals ?ce' = ce_vals ce"
    proof -
      have "ce_pending (flush_pending ce) = None" "ce_chunk (flush_pending ce) = ce_chunk ce" by (simp_all add: flush_pending_eq)
      then show ?thesis using flush_pending_ok(2)[OF ok(1)] segs(2)
        by (simp add: ce_vals_def fields pending_run_def chunk_written_def)
    qed
    ultimately show ?thesis using segs(1) fields by (auto simp: ce_inv_def)
  qed
qed

lemma chunk_limit_eq: "a div REENCODE_CHUNK_IDS = b div REENCODE_CHUNK_IDS \<Longrightarrow> chunk_limit a = chunk_limit b"
proof -
  assume "a div REENCODE_CHUNK_IDS = b div REENCODE_CHUNK_IDS"
  then have "unat a div unat REENCODE_CHUNK_IDS = unat b div unat REENCODE_CHUNK_IDS" by (metis unat_div_distrib)
  then show ?thesis by (simp add: chunk_limit_def unat_chunk_ids)
qed

text \<open>Adding a run to the gathered ones.\<close>

definition add_run :: "u64 range list \<Rightarrow> u64 range \<Rightarrow> u64 range list" where
  "add_run rs run =
     (if rs \<noteq> [] \<and> snd (last rs) = fst run then butlast rs @ [(fst (last rs), snd run)] else rs @ [run])"

lemma ranges_sep_append:
  "ranges_sep (xs @ ys) \<longleftrightarrow> ranges_sep xs \<and> ranges_sep ys \<and> (\<forall>x \<in> set xs. \<forall>y \<in> set ys. snd x < fst y)"
  by (auto simp: ranges_sep_def sorted_wrt_append)

lemma add_run_ok:
  assumes "ranges_sep rs" "fst run < snd run" "rs \<noteq> [] \<Longrightarrow> snd (last rs) \<le> fst run"
  shows "ranges_sep (add_run rs run)" "ranges_vals (add_run rs run) = ranges_vals rs @ range_vals run"
    "add_run rs run \<noteq> []" "last (add_run rs run) = (fst (last (add_run rs run)), snd run)"
    "fst (hd (add_run rs run)) = (if rs = [] then fst run else fst (hd rs))"
proof -
  have "ranges_sep (add_run rs run) \<and> ranges_vals (add_run rs run) = ranges_vals rs @ range_vals run \<and>
    add_run rs run \<noteq> [] \<and> snd (last (add_run rs run)) = snd run \<and>
    fst (hd (add_run rs run)) = (if rs = [] then fst run else fst (hd rs))"
  proof (cases rs rule: rev_cases)
    case Nil
    then show ?thesis using assms by (simp add: add_run_def ranges_sep_def)
  next
    case (snoc ys y)
    have y: "fst y < snd y" "\<forall>x \<in> set ys. snd x < fst y" "ranges_sep ys" "snd y \<le> fst run"
      using assms(1,3) by (auto simp: snoc ranges_sep_append ranges_sep_Cons)
    show ?thesis
    proof (cases "snd y = fst run")
      case True
      have "range_vals (fst y, snd run) = range_vals y @ range_vals run"
        using range_vals_append[of "fst y" "snd y" "snd run"] y(1) assms(2) True by (cases y, cases run) simp
      moreover have "fst y < snd run" using y(1) assms(2) True by simp
      ultimately show ?thesis using True y by (auto simp: snoc add_run_def ranges_sep_append ranges_sep_Cons ranges_sep_def[of "[]"] hd_append)
    next
      case False
      then have "snd y < fst run" using y(4) by simp
      moreover have "\<forall>x \<in> set ys. snd x < fst run" using y calculation by fastforce
      ultimately show ?thesis using False y assms(1,2)
        by (auto simp: snoc add_run_def ranges_sep_append ranges_sep_Cons ranges_sep_def[of "[]"] hd_append)
    qed
  qed
  then show "ranges_sep (add_run rs run)" "ranges_vals (add_run rs run) = ranges_vals rs @ range_vals run"
    "add_run rs run \<noteq> []" "last (add_run rs run) = (fst (last (add_run rs run)), snd run)"
    "fst (hd (add_run rs run)) = (if rs = [] then fst run else fst (hd rs))"
    by (simp_all add: prod_eq_iff)
qed

lemma push_clipped_inv:
  assumes "ce_inv ce" "fst run < snd run" "unat (snd run) \<le> chunk_limit (fst run)"
  shows "\<exists>ce'. push_clipped run ce = Inr ce' \<and> ce_inv ce' \<and> ce_vals ce' = ce_vals ce @ range_vals run"
proof -
  let ?flush = "ce_chunk ce \<noteq> [] \<and>
     (fst (hd (ce_chunk ce)) div REENCODE_CHUNK_IDS \<noteq> fst run div REENCODE_CHUNK_IDS \<or> fst run < snd (last (ce_chunk ce)))"
  have "\<exists>ce1. (if ?flush then flush_chunk ce else Inr ce) = Inr ce1 \<and> ce_inv ce1 \<and> ce_vals ce1 = ce_vals ce \<and>
    (ce_chunk ce1 \<noteq> [] \<longrightarrow> chunk_limit (fst (hd (ce_chunk ce1))) = chunk_limit (fst run) \<and> snd (last (ce_chunk ce1)) \<le> fst run)"
  proof (cases ?flush)
    case True
    obtain ce1 where "flush_chunk ce = Inr ce1" "ce_inv ce1" "ce_vals ce1 = ce_vals ce" "ce_chunk ce1 = []"
      using flush_chunk_inv[OF assms(1)] by blast
    then show ?thesis using True by simp
  next
    case False
    then have "ce_chunk ce \<noteq> [] \<longrightarrow> chunk_limit (fst (hd (ce_chunk ce))) = chunk_limit (fst run) \<and> snd (last (ce_chunk ce)) \<le> fst run"
      by (auto intro: chunk_limit_eq)
    then show ?thesis unfolding if_not_P[OF False] using assms(1) by blast
  qed
  then obtain ce1 where ce1: "(if ?flush then flush_chunk ce else Inr ce) = Inr ce1" "ce_inv ce1" "ce_vals ce1 = ce_vals ce"
    "ce_chunk ce1 \<noteq> [] \<Longrightarrow> chunk_limit (fst (hd (ce_chunk ce1))) = chunk_limit (fst run) \<and> snd (last (ce_chunk ce1)) \<le> fst run"
    by blast
  define opens where "opens = (case ce_last_end ce1 of Some e \<Rightarrow> fst run > e \<and> fst run - e > REENCODE_CHUNK_IDS | None \<Rightarrow> False)"
  have opens: "opens \<longleftrightarrow> \<not> no_gap (ce_last_end ce1) (fst run)" by (simp add: opens_def no_gap_def split: option.splits)
  define rs where "rs = add_run (ce_chunk ce1) run"
  define ce' where "ce' = ce1\<lparr>ce_new_piece := (if opens then True else ce_new_piece ce1), ce_last_end := Some (snd run), ce_chunk := rs\<rparr>"
  have fields: "ce_segments ce' = ce_segments ce1" "ce_pending ce' = ce_pending ce1" "ce_chunk ce' = rs" "ce_last_end ce' = Some (snd run)"
    "ce_new_piece ce' \<longleftrightarrow> opens \<or> ce_new_piece ce1" by (simp_all add: ce'_def)
  have ok: "ce_ok ce1" "ce_gap ce1" "ranges_sep (ce_chunk ce1)" using ce1(2) by (auto simp: ce_inv_def ce_ok_def chunk_ok_def)
  note ar = add_run_ok[OF ok(3) assms(2) conjunct2[OF ce1(4)], folded rs_def]
  have last: "snd (last rs) = snd run" using ar(4) by (metis snd_conv)
  have "push_clipped run ce = Inr ce'"
    unfolding push_clipped_def ce1(1) ce'_def rs_def add_run_def opens_def by (simp add: Let_def)
  moreover have "ce_vals ce' = ce_vals ce @ range_vals run"
    using ce1(3) ar(2) by (simp add: ce_vals_def pending_run_def fields)
  moreover have "ce_ok ce'"
  proof -
    have "chunk_limit (fst (hd rs)) = chunk_limit (fst run)" using ar(5) ce1(4) by simp
    then show ?thesis using ok(1) ar(1) last assms(3) by (simp add: ce_ok_def chunk_ok_def pending_run_def fields)
  qed
  moreover have "chunk_prev ce' q" if q: "chunk_prev ce1 q" for q
  proof (cases "ce_chunk ce1 = []")
    case True
    then have "q = None \<or> q = ce_last_end ce1" using q by (simp add: chunk_prev_def)
    then have "opens \<or> no_gap q (fst run)" using opens by auto
    then show ?thesis using ar(3,5) last True by (auto simp: chunk_prev_def fields)
  next
    case False
    then show ?thesis using q ar(3,5) last by (auto simp: chunk_prev_def fields)
  qed
  then have "ce_gap ce'" using ok(2) unfolding ce_gap_def fields by (fastforce split: option.splits)
  ultimately show ?thesis by (auto simp: ce_inv_def)
qed

lemma or_low_bits: "(n :: nat) OR 65535 = n div 65536 * 65536 + 65535"
proof -
  have "n OR mask 16 = push_bit 16 (drop_bit 16 n) OR mask 16"
    by (rule bit_eqI) (auto simp: bit_simps)
  also have "\<dots> = push_bit 16 (drop_bit 16 n) + mask 16"
    by (rule disjunctive_add_eq_or[symmetric]) (rule bit_eqI, auto simp: bit_simps)
  finally show ?thesis by (simp add: mask_eq_exp_minus_1 push_bit_eq_mult drop_bit_eq_div)
qed

lemma chunk_end_limit: "min (snd run) (chunk_end (fst run)) = e \<Longrightarrow> unat e \<le> chunk_limit (fst run)"
proof -
  assume e: "min (snd run) (chunk_end (fst run)) = e"
  let ?m = "fst run OR (REENCODE_CHUNK_IDS - 1)"
  have "unat ?m = unat (fst run) OR 65535" by (simp add: REENCODE_CHUNK_IDS_def unsigned_or_eq)
  also have "\<dots> = unat (fst run) div 65536 * 65536 + 65535" by (rule or_low_bits)
  finally have m: "unat ?m + 1 = chunk_limit (fst run)" by (simp add: chunk_limit_def)
  have "unat (chunk_end (fst run)) \<le> unat ?m + 1"
  proof (cases "?m = - 1")
    case True
    then show ?thesis by (simp add: chunk_end_def saturating_add_def checked_add_1)
  next
    case False
    then have "chunk_end (fst run) = ?m + 1" by (simp add: chunk_end_def saturating_add_def checked_add_1)
    then show ?thesis using False unat_add_1[of ?m "- 1"] by (simp add: word_order.not_eq_extremum[symmetric])
  qed
  moreover have "unat e \<le> unat (chunk_end (fst run))" using e by (simp add: word_le_nat_alt[symmetric] min_le_iff_disj flip: e)
  ultimately show ?thesis using m by linarith
qed

lemma push_run_inv: "ce_inv ce \<Longrightarrow> \<exists>ce'. push_run run ce = Inr ce' \<and> ce_inv ce' \<and> ce_vals ce' = ce_vals ce @ range_vals run"
proof (induction "unat (snd run) - unat (fst run)" arbitrary: run ce rule: less_induct)
  case less
  show ?case
  proof (cases "fst run < snd run")
    case False
    then have "range_vals run = []" by (simp add: range_vals_empty not_less)
    then show ?thesis using False less.prems by (simp add: push_run.simps)
  next
    case True
    define e where "e = min (snd run) (chunk_end (fst run))"
    have e: "fst run < e" "e \<le> snd run" using chunk_end_greater[OF True] by (simp_all add: e_def)
    obtain ce1 where ce1: "push_clipped (fst run, e) ce = Inr ce1" "ce_inv ce1" "ce_vals ce1 = ce_vals ce @ range_vals (fst run, e)"
      using push_clipped_inv[OF less.prems, of "(fst run, e)"] e chunk_end_limit[OF e_def[symmetric]] by auto
    obtain ce2 where ce2: "push_run (e, snd run) ce1 = Inr ce2" "ce_inv ce2" "ce_vals ce2 = ce_vals ce1 @ range_vals (e, snd run)"
    proof -
      have "unat (snd (e, snd run)) - unat (fst (e, snd run)) < unat (snd run) - unat (fst run)"
        using e True by (simp add: word_less_nat_alt word_le_nat_alt diff_less_mono2)
      then show thesis using less.hyps[of "(e, snd run)" ce1] ce1(2) that by blast
    qed
    have "range_vals (fst run, e) @ range_vals (e, snd run) = range_vals run"
      using range_vals_append[of "fst run" e "snd run"] e by (cases run) simp
    then show ?thesis using True ce1 ce2 by (simp add: push_run.simps[of run] e_def[symmetric] Let_def)
  qed
qed

lemma push_runs_inv:
  "ce_inv ce \<Longrightarrow> \<exists>ce'. foldr_res push_run rs ce = Inr ce' \<and> ce_inv ce' \<and> ce_vals ce' = ce_vals ce @ ranges_vals rs"
proof (induction rs arbitrary: ce)
  case (Cons r rs)
  obtain ce1 where "push_run r ce = Inr ce1" "ce_inv ce1" "ce_vals ce1 = ce_vals ce @ range_vals r"
    using push_run_inv[OF Cons.prems] by blast
  then show ?case using Cons.IH[of ce1] by auto
qed simp

lemma push_verbatim_inv:
  assumes "ce_inv ce" "segment_wf seg" "\<not> range_kind seg"
  shows "\<exists>ce'. push_verbatim seg ce = Inr ce' \<and> ce_inv ce' \<and> ce_vals ce' = ce_vals ce @ segment_vals seg"
proof -
  obtain ce1 where ce1: "flush_chunk ce = Inr ce1" "ce_inv ce1" "ce_vals ce1 = ce_vals ce" "ce_chunk ce1 = []"
    using flush_chunk_inv[OF assms(1)] by blast
  have ok: "ce_ok ce1" "ce_gap ce1" using ce1(2) by (auto simp: ce_inv_def)
  obtain p where p: "gap_free None (ce_segments (flush_pending ce1)) p" using flush_pending_gap[OF ok] by blast
  let ?ce' = "(ce_push seg (flush_pending ce1))\<lparr>ce_last_end := None, ce_new_piece := False\<rparr>"
  have fields: "ce_segments ?ce' = ce_segments (flush_pending ce1) @ [seg]" "ce_pending ?ce' = None" "ce_chunk ?ce' = []"
    "ce_pending (flush_pending ce1) = None" "ce_chunk (flush_pending ce1) = []"
    using ce1(4) by (simp_all add: flush_pending_eq)
  have "ce_ok ?ce'" using flush_pending_ok(1)[OF ok(1)] assms(2)
    by (simp add: ce_ok_def fields pending_run_def)
  moreover have "ce_gap ?ce'" using p assms(3) by (auto simp: ce_gap_def fields chunk_prev_def gap_free_append)
  moreover have "ce_vals ?ce' = ce_vals ce @ segment_vals seg"
    using flush_pending_ok(2)[OF ok(1)] ce1(3) by (simp add: ce_vals_def fields pending_run_def)
  ultimately show ?thesis using ce1(1) by (simp add: push_verbatim_def ce_inv_def)
qed

lemma ce_finish_inv:
  assumes "ce_inv ce"
  shows "\<exists>sq. ce_finish ce = Inr sq \<and> seq_wf sq \<and> seq_vals sq = ce_vals ce \<and> range_runs_span_a_gap sq = Inr False"
proof -
  obtain ce1 where ce1: "flush_chunk ce = Inr ce1" "ce_inv ce1" "ce_vals ce1 = ce_vals ce" "ce_chunk ce1 = []"
    using flush_chunk_inv[OF assms] by blast
  have ok: "ce_ok ce1" "ce_gap ce1" using ce1(2) by (auto simp: ce_inv_def)
  obtain p where p: "gap_free None (ce_segments (flush_pending ce1)) p" using flush_pending_gap[OF ok] by blast
  have fields: "ce_pending (flush_pending ce1) = None" "ce_chunk (flush_pending ce1) = []"
    using ce1(4) by (simp_all add: flush_pending_eq)
  show ?thesis using ce1(1,3) flush_pending_ok[OF ok(1)] gap_free_span[OF p]
    by (simp add: ce_finish_def ce_ok_def ce_vals_def pending_run_def fields range_runs_span_a_gap_def)
qed

lemma reencode_segment_inv:
  assumes "ce_inv ce" "segment_wf seg" "- 1 \<notin> set (segment_vals seg)"
  shows "\<exists>ce'. reencode_segment seg ce = Inr ce' \<and> ce_inv ce' \<and> ce_vals ce' = ce_vals ce @ segment_vals seg"
proof (cases "\<exists>a. seg = SegArray a")
  case True
  then show ?thesis using push_verbatim_inv[OF assms(1,2)] by (auto simp: reencode_segment_def simp del: segment_vals.simps)
next
  case False
  obtain rs where rs: "segment_runs seg = Inr rs" "ranges_vals rs = segment_vals seg" using segment_runs_cover[OF assms(2,3)] by blast
  have "reencode_segment seg ce = foldr_res push_run rs ce"
    using False rs(1) by (cases seg) (simp_all add: reencode_segment_def)
  then show ?thesis using push_runs_inv[OF assms(1), of rs] rs(2) by simp
qed

lemma reencode_eq:
  assumes "seq_wf sq" "\<not> (case row_id_range sq of Some (lo, hi) \<Rightarrow> hi = - 1 | None \<Rightarrow> False)"
  shows "\<exists>sq'. reencode sq = Inr sq' \<and> seq_wf sq' \<and> seq_vals sq' = seq_vals sq \<and> range_runs_span_a_gap sq' = Inr False"
proof -
  have max: "- 1 \<notin> set (seq_vals sq)"
  proof
    assume v: "- 1 \<in> set (seq_vals sq)"
    then obtain lo hi where "row_id_range sq = Some (lo, hi)" "- 1 \<le> hi"
      using row_id_range_bounds[OF assms(1)] by (auto split: option.splits)
    then show False using assms(2) by (simp add: word_order.extremum_unique)
  qed
  have fold: "ce_inv ce \<Longrightarrow> seq_wf segs \<Longrightarrow> - 1 \<notin> set (seq_vals segs) \<Longrightarrow>
    \<exists>ce'. foldr_res reencode_segment segs ce = Inr ce' \<and> ce_inv ce' \<and> ce_vals ce' = ce_vals ce @ seq_vals segs" for segs ce
  proof (induction segs arbitrary: ce)
    case (Cons seg segs)
    then obtain ce1 where "reencode_segment seg ce = Inr ce1" "ce_inv ce1" "ce_vals ce1 = ce_vals ce @ segment_vals seg"
      using reencode_segment_inv[of ce seg] by auto
    with Cons show ?case using Cons.IH[of ce1] by auto
  qed simp
  have init: "ce_inv chunk_encoder_default" "ce_vals chunk_encoder_default = []"
    by (simp_all add: chunk_encoder_default_def ce_inv_def ce_ok_def ce_gap_def ce_vals_def pending_run_def chunk_ok_def ranges_sep_def chunk_prev_def)
  obtain ce where "foldr_res reencode_segment sq chunk_encoder_default = Inr ce" "ce_inv ce" "ce_vals ce = seq_vals sq"
    using fold[OF init(1) assms(1) max] init(2) by auto
  then show ?thesis using ce_finish_inv[of ce] assms(2) by (auto simp: reencode_def)
qed

subsection \<open>Properties\<close>

lemma reencode_keeps_gap_at_max:
  defines "sq \<equiv> [SegRange (0, 1), SegRange (100000, 100001), SegSortedArray (EncU64 [- 1])]"
  shows "reencode sq = Inr sq" "range_runs_span_a_gap sq = Inr True"
  unfolding sq_def
  by (simp_all add: reencode_def row_id_range_def option_pair_def range_inclusive_of_def range_is_empty_def
      list_min_def list_max_def List.map_filter_simps range_runs_span_a_gap_def REENCODE_CHUNK_IDS_def)

lemma reencode_spec:
  assumes "seq_wf sq"
  shows "\<exists>sq'. reencode sq = Inr sq' \<and> seq_wf sq' \<and> sequence_iter sq' = Inr (seq_vals sq) \<and>
    (\<forall>lo hi. row_id_range sq = Some (lo, hi) \<and> hi \<noteq> - 1 \<longrightarrow> range_runs_span_a_gap sq' = Inr False)"
proof (cases "case row_id_range sq of Some (lo, hi) \<Rightarrow> hi = - 1 | None \<Rightarrow> False")
  case True
  then have "reencode sq = Inr sq" by (simp add: reencode_def)
  with True assms show ?thesis by (auto simp: sequence_iter_eq split: option.splits)
next
  case False
  with reencode_eq[OF assms False] sequence_iter_eq show ?thesis by fastforce
qed

text \<open>
  C19. Re-encoding a sequence, with the cheapest encoding per chunk of 64K ids, keeps every row id in
  its place; and unless the sequence holds the largest 64-bit number, a reader of the result never
  finds \<open>Range\<close> runs more than a chunk apart with only \<open>Range\<close> runs in between. The exception is
  real: a sequence that holds the largest 64-bit number is returned unchanged and can span a gap.
\<close>

theorem reencode_correct:
  assumes "seq_wf sq"
  shows "(\<exists>sq'. reencode sq = Inr sq' \<and> seq_wf sq' \<and> sequence_iter sq' = Inr (seq_vals sq) \<and>
      (\<forall>lo hi. row_id_range sq = Some (lo, hi) \<and> hi \<noteq> - 1 \<longrightarrow> range_runs_span_a_gap sq' = Inr False)) \<and>
    (let at_max = [SegRange (0, 1), SegRange (100000, 100001), SegSortedArray (EncU64 [- 1])]
     in reencode at_max = Inr at_max \<and> range_runs_span_a_gap at_max = Inr True)"
  unfolding Let_def by (intro conjI reencode_spec[OF assms] reencode_keeps_gap_at_max)

theorem reencode_correct_witness:
  "\<exists>sq'. reencode [SegRange (5, 9), SegRange (1000000, 1000003)] = Inr sq' \<and> seq_wf sq' \<and>
     sequence_iter sq' = Inr (seq_vals [SegRange (5, 9), SegRange (1000000, 1000003)]) \<and>
     (\<forall>lo hi. row_id_range [SegRange (5, 9), SegRange (1000000, 1000003)] = Some (lo, hi) \<and> hi \<noteq> - 1 \<longrightarrow>
        range_runs_span_a_gap sq' = Inr False)"
  by (rule conjunct1[OF reencode_correct]) simp

end
