(* ===== verification/Roaring.thy ===== *)
theory Roaring
  imports Lance_Prelude
begin

text \<open>
  The interface of the external \<open>roaring\<close> crate. \<open>RoaringBitmap\<close> is not part of the repository, so
  its operations are a parameter \<open>R\<close> of every definition that calls them, and what its documentation
  promises is the locale \<open>roaring\<close>: a bitmap stands for the set of the \<open>u32\<close> values its iterator
  yields in ascending order. The locale \<open>roaring_serde\<close> adds the byte format. Both are interpreted on
  the reference implementation by sets of \<open>u32\<close>, which the witnesses use.
\<close>

subsection \<open>Operations\<close>

record 'b roaring_ops =
  rb_new :: 'b
  rb_full :: 'b
  rb_insert :: "'b \<Rightarrow> u32 \<Rightarrow> 'b \<times> bool"
  rb_insert_range :: "'b \<Rightarrow> u32 \<Rightarrow> u32 \<Rightarrow> 'b \<times> u64"
  rb_remove :: "'b \<Rightarrow> u32 \<Rightarrow> 'b \<times> bool"
  rb_contains :: "'b \<Rightarrow> u32 \<Rightarrow> bool"
  rb_contains_range :: "'b \<Rightarrow> u32 range \<Rightarrow> bool"
  rb_range :: "'b \<Rightarrow> u32 range \<Rightarrow> u32 list"
  rb_range_cardinality :: "'b \<Rightarrow> u32 range \<Rightarrow> u64"
  rb_len :: "'b \<Rightarrow> u64"
  rb_is_empty :: "'b \<Rightarrow> bool"
  rb_is_full :: "'b \<Rightarrow> bool"
  rb_iter :: "'b \<Rightarrow> u32 list"
  rb_runs :: "'b \<Rightarrow> (u32 \<times> u32) list"
  rb_from_sorted_iter :: "u32 list \<Rightarrow> 'b option"
  rb_extend :: "'b \<Rightarrow> u32 list \<Rightarrow> 'b"
  rb_union_all :: "'b list \<Rightarrow> 'b"
  rb_or :: "'b \<Rightarrow> 'b \<Rightarrow> 'b"
  rb_and :: "'b \<Rightarrow> 'b \<Rightarrow> 'b"
  rb_sub :: "'b \<Rightarrow> 'b \<Rightarrow> 'b"
  rb_xor :: "'b \<Rightarrow> 'b \<Rightarrow> 'b"
  rb_eq :: "'b \<Rightarrow> 'b \<Rightarrow> bool"
  rb_is_disjoint :: "'b \<Rightarrow> 'b \<Rightarrow> bool"
  rb_is_subset :: "'b \<Rightarrow> 'b \<Rightarrow> bool"
  rb_union_len :: "'b \<Rightarrow> 'b \<Rightarrow> u64"
  rb_optimize :: "'b \<Rightarrow> 'b"

record 'b roaring_serde_ops = "'b roaring_ops" +
  rb_serialized_size :: "'b \<Rightarrow> usize"
  rb_serialize :: "'b \<Rightarrow> u8 list"
  rb_deserialize :: "u8 list \<Rightarrow> 'b option"

definition rb_bits :: "('b, 'z) roaring_ops_scheme \<Rightarrow> 'b \<Rightarrow> u32 set" where
  "rb_bits R b = set (rb_iter R b)"

fun runs_cover :: "(u32 \<times> u32) list \<Rightarrow> u32 set" where
  "runs_cover [] = {}"
| "runs_cover ((a, z) # rs) = {a..z} \<union> runs_cover rs"

fun runs_separated :: "(u32 \<times> u32) list \<Rightarrow> bool" where
  "runs_separated [] \<longleftrightarrow> True"
| "runs_separated [(a, z)] \<longleftrightarrow> a \<le> z"
| "runs_separated ((a, z) # (a', z') # rs) \<longleftrightarrow>
     a \<le> z \<and> unat z + 1 < unat a' \<and> runs_separated ((a', z') # rs)"

subsection \<open>What the crate promises\<close>

locale roaring =
  fixes R :: "('b, 'z) roaring_ops_scheme"
  assumes iter_sorted: "sorted_wrt (<) (rb_iter R b)"
    and bits_new: "rb_bits R (rb_new R) = {}"
    and bits_full: "rb_bits R (rb_full R) = UNIV"
    and insert_spec: "rb_insert R b v = (b', fresh) \<Longrightarrow>
      rb_bits R b' = insert v (rb_bits R b) \<and> fresh = (v \<notin> rb_bits R b)"
    and insert_range_spec: "rb_insert_range R b lo hi = (b', n) \<Longrightarrow>
      rb_bits R b' = rb_bits R b \<union> {lo..hi} \<and> n = word_of_nat (card ({lo..hi} - rb_bits R b))"
    and remove_spec: "rb_remove R b v = (b', present) \<Longrightarrow>
      rb_bits R b' = rb_bits R b - {v} \<and> present = (v \<in> rb_bits R b)"
    and contains_spec: "rb_contains R b v \<longleftrightarrow> v \<in> rb_bits R b"
    and contains_range_spec: "rb_contains_range R b r \<longleftrightarrow> {fst r..<snd r} \<subseteq> rb_bits R b"
    and range_spec: "rb_range R b r = filter (range_contains r) (rb_iter R b)"
    and range_cardinality_spec: "rb_range_cardinality R b r = word_of_nat (card (rb_bits R b \<inter> {fst r..<snd r}))"
    and len_spec: "rb_len R b = word_of_nat (card (rb_bits R b))"
    and is_empty_spec: "rb_is_empty R b \<longleftrightarrow> rb_bits R b = {}"
    and is_full_spec: "rb_is_full R b \<longleftrightarrow> rb_bits R b = UNIV"
    and runs_spec: "runs_cover (rb_runs R b) = rb_bits R b" "runs_separated (rb_runs R b)"
    and from_sorted_iter_spec: "case rb_from_sorted_iter R xs of
        Some b \<Rightarrow> sorted_wrt (<) xs \<and> rb_bits R b = set xs | None \<Rightarrow> \<not> sorted_wrt (<) xs"
    and extend_spec: "rb_bits R (rb_extend R b xs) = rb_bits R b \<union> set xs"
    and union_all_spec: "rb_bits R (rb_union_all R bs) = \<Union> (rb_bits R ` set bs)"
    and or_spec: "rb_bits R (rb_or R b c) = rb_bits R b \<union> rb_bits R c"
    and and_spec: "rb_bits R (rb_and R b c) = rb_bits R b \<inter> rb_bits R c"
    and sub_spec: "rb_bits R (rb_sub R b c) = rb_bits R b - rb_bits R c"
    and xor_spec: "rb_bits R (rb_xor R b c) = (rb_bits R b - rb_bits R c) \<union> (rb_bits R c - rb_bits R b)"
    and eq_spec: "rb_eq R b c \<longleftrightarrow> rb_bits R b = rb_bits R c"
    and is_disjoint_spec: "rb_is_disjoint R b c \<longleftrightarrow> rb_bits R b \<inter> rb_bits R c = {}"
    and is_subset_spec: "rb_is_subset R b c \<longleftrightarrow> rb_bits R b \<subseteq> rb_bits R c"
    and union_len_spec: "rb_union_len R b c = word_of_nat (card (rb_bits R b \<union> rb_bits R c))"
    and optimize_spec: "rb_bits R (rb_optimize R b) = rb_bits R b"
begin

lemmas specs [simp] = bits_new bits_full contains_spec contains_range_spec is_empty_spec is_full_spec
  extend_spec union_all_spec or_spec and_spec sub_spec xor_spec eq_spec is_disjoint_spec
  is_subset_spec optimize_spec

lemma bits_insert [simp]: "rb_bits R (fst (rb_insert R b v)) = insert v (rb_bits R b)"
  and snd_insert [simp]: "snd (rb_insert R b v) \<longleftrightarrow> v \<notin> rb_bits R b"
  using insert_spec[OF prod.collapse[symmetric], of b v] by blast+

lemma bits_insert_range [simp]: "rb_bits R (fst (rb_insert_range R b lo hi)) = rb_bits R b \<union> {lo..hi}"
  and snd_insert_range: "snd (rb_insert_range R b lo hi) = word_of_nat (card ({lo..hi} - rb_bits R b))"
  using insert_range_spec[OF prod.collapse[symmetric], of b lo hi] by blast+

lemma bits_remove [simp]: "rb_bits R (fst (rb_remove R b v)) = rb_bits R b - {v}"
  and snd_remove [simp]: "snd (rb_remove R b v) \<longleftrightarrow> v \<in> rb_bits R b"
  using remove_spec[OF prod.collapse[symmetric], of b v] by blast+

lemma set_iter: "set (rb_iter R b) = rb_bits R b"
  by (simp add: rb_bits_def)

lemma iter_eq: "rb_iter R b = sorted_list_of_set (rb_bits R b)"
  by (simp add: rb_bits_def strict_sorted_sorted[OF iter_sorted] strict_sorted_distinct[OF iter_sorted]
      sorted_list_of_set_sort_remdups distinct_remdups_id sort_key_id_if_sorted)

lemma length_iter: "length (rb_iter R b) = card (rb_bits R b)"
  by (simp add: rb_bits_def distinct_card strict_sorted_distinct[OF iter_sorted])

lemma from_sorted_iter_strict:
  assumes "sorted_wrt (<) xs"
  obtains b where "rb_from_sorted_iter R xs = Some b" "rb_bits R b = set xs"
  using from_sorted_iter_spec[of xs] assms by (cases "rb_from_sorted_iter R xs") auto

end

locale roaring_serde = roaring R for R :: "('b, 'z) roaring_serde_ops_scheme" +
  assumes serialized_size: "rb_serialized_size R b = length (rb_serialize R b)"
    and serialize_size: "0 < length (rb_serialize R b)" "length (rb_serialize R b) < 2 ^ 32"
    and deserialize_serialize: "\<exists>c. rb_deserialize R (rb_serialize R b) = Some c \<and> rb_bits R c = rb_bits R b"

lemma card_u32_le: "card (S :: u32 set) \<le> 2 ^ 32"
proof -
  have "card S \<le> card (UNIV :: u32 set)" by (rule card_mono) simp_all
  then show ?thesis by (simp add: card_word)
qed

lemma card_u32_UNIV: "card (S :: u32 set) = 2 ^ 32 \<longleftrightarrow> S = UNIV"
  using card_subset_eq[of "UNIV :: u32 set" S] by (auto simp: card_word)

lemma unat_card_u32 [simp]: "unat (word_of_nat (card (S :: u32 set)) :: u64) = card S"
  using card_u32_le[of S] by (simp add: unat_of_nat)

subsection \<open>The reference implementation by sets\<close>

fun list_runs :: "u32 list \<Rightarrow> (u32 \<times> u32) list" where
  "list_runs [] = []"
| "list_runs (x # xs) =
     (case list_runs xs of
        (a, z) # rs \<Rightarrow> if unat x + 1 = unat a then (x, z) # rs else (x, x) # (a, z) # rs
      | [] \<Rightarrow> [(x, x)])"

definition set_size :: nat where
  "set_size = 2 ^ 30"

definition set_byte :: "u32 set \<Rightarrow> nat \<Rightarrow> u8" where
  "set_byte S i = ((if word_of_nat (4 * i) \<in> S then 1 else 0) OR (if word_of_nat (4 * i + 1) \<in> S then 2 else 0)) OR
     ((if word_of_nat (4 * i + 2) \<in> S then 4 else 0) OR (if word_of_nat (4 * i + 3) \<in> S then 8 else 0))"

definition set_serialize :: "u32 set \<Rightarrow> u8 list" where
  "set_serialize S = map (set_byte S) [0..<set_size]"

definition set_deserialize :: "u8 list \<Rightarrow> u32 set option" where
  "set_deserialize bs = (if length bs = set_size
     then Some {w. bit (bs ! (unat w div 4)) (unat w mod 4)} else None)"

definition set_roaring :: "u32 set roaring_serde_ops" where
  "set_roaring = \<lparr>
     rb_new = {}, rb_full = UNIV,
     rb_insert = (\<lambda>S v. (insert v S, v \<notin> S)),
     rb_insert_range = (\<lambda>S lo hi. (S \<union> {lo..hi}, word_of_nat (card ({lo..hi} - S)))),
     rb_remove = (\<lambda>S v. (S - {v}, v \<in> S)),
     rb_contains = (\<lambda>S v. v \<in> S),
     rb_contains_range = (\<lambda>S r. {fst r..<snd r} \<subseteq> S),
     rb_range = (\<lambda>S r. filter (range_contains r) (sorted_list_of_set S)),
     rb_range_cardinality = (\<lambda>S r. word_of_nat (card (S \<inter> {fst r..<snd r}))),
     rb_len = (\<lambda>S. word_of_nat (card S)),
     rb_is_empty = (\<lambda>S. S = {}), rb_is_full = (\<lambda>S. S = UNIV),
     rb_iter = sorted_list_of_set, rb_runs = (\<lambda>S. list_runs (sorted_list_of_set S)),
     rb_from_sorted_iter = (\<lambda>xs. if sorted_wrt (<) xs then Some (set xs) else None),
     rb_extend = (\<lambda>S xs. S \<union> set xs),
     rb_union_all = (\<lambda>Ss. \<Union> (set Ss)),
     rb_or = (\<union>), rb_and = (\<inter>), rb_sub = (-), rb_xor = (\<lambda>S T. (S - T) \<union> (T - S)),
     rb_eq = (=), rb_is_disjoint = (\<lambda>S T. S \<inter> T = {}), rb_is_subset = (\<subseteq>),
     rb_union_len = (\<lambda>S T. word_of_nat (card (S \<union> T))), rb_optimize = id,
     rb_serialized_size = (\<lambda>S. length (set_serialize S)), rb_serialize = set_serialize, rb_deserialize = set_deserialize \<rparr>"

lemma list_runs_spec:
  "sorted_wrt (<) xs \<Longrightarrow> runs_cover (list_runs xs) = set xs \<and> runs_separated (list_runs xs) \<and>
     (case list_runs xs of [] \<Rightarrow> xs = [] | (a, z) # rs \<Rightarrow> xs \<noteq> [] \<and> a = hd xs)"
proof (induction xs)
  case (Cons x xs)
  then have IH: "runs_cover (list_runs xs) = set xs" "runs_separated (list_runs xs)"
    "case list_runs xs of [] \<Rightarrow> xs = [] | (a, z) # rs \<Rightarrow> xs \<noteq> [] \<and> a = hd xs"
    and less: "\<And>y. y \<in> set xs \<Longrightarrow> x < y" by auto
  show ?case
  proof (cases "list_runs xs")
    case Nil
    then show ?thesis using IH by simp
  next
    case (Cons r rs)
    obtain a z where r: "r = (a, z)" by fastforce
    have az: "a \<le> z" using IH(2) by (cases rs) (auto simp: Cons r)
    have "x < a" using IH(3) less by (simp add: Cons r)
    have "{x..z} = insert x {a..z}" if "unat x + 1 = unat a"
      using that az by (auto simp: word_le_nat_alt word_unat_eq_iff)
    moreover have "runs_separated ((x, z) # rs)" if "unat x + 1 = unat a"
      using IH(2) \<open>x < a\<close> az by (cases rs) (auto simp: Cons r)
    moreover have "unat x + 1 < unat a" if "unat x + 1 \<noteq> unat a"
      using that \<open>x < a\<close> by (simp add: word_less_nat_alt)
    ultimately show ?thesis using IH by (auto simp: Cons r)
  qed
qed simp

lemma bits_set_roaring [simp]: "rb_bits set_roaring S = S"
  by (simp add: rb_bits_def set_roaring_def)

interpretation set_roaring: roaring set_roaring
  by unfold_locales
    (simp_all add: set_roaring_def rb_bits_def list_runs_spec)

lemma bit_u8_small:
  "bit (1 :: u8) n \<longleftrightarrow> n = 0" "bit (2 :: u8) n \<longleftrightarrow> n = 1" "bit (4 :: u8) n \<longleftrightarrow> n = 2" "bit (8 :: u8) n \<longleftrightarrow> n = 3"
proof -
  have "(2 :: u8) = push_bit 1 1" "(4 :: u8) = push_bit 2 1" "(8 :: u8) = push_bit 3 1" by simp_all
  then show "bit (1 :: u8) n \<longleftrightarrow> n = 0" "bit (2 :: u8) n \<longleftrightarrow> n = 1" "bit (4 :: u8) n \<longleftrightarrow> n = 2" "bit (8 :: u8) n \<longleftrightarrow> n = 3"
    by (auto simp only: bit_push_bit_iff bit_1_iff) (simp_all add: possible_bit_word)
qed

lemma bit_set_byte: "k < 4 \<Longrightarrow> bit (set_byte S i) k \<longleftrightarrow> word_of_nat (4 * i + k) \<in> S"
proof -
  assume "k < 4"
  then consider "k = 0" | "k = 1" | "k = 2" | "k = 3" by linarith
  then show ?thesis
    by cases (simp_all only: set_byte_def bit_or_iff if_distrib[of "\<lambda>w. bit w _"] bit_u8_small bit_0_eq, simp_all)
qed

lemma bit_set_serialize: "bit (set_serialize S ! (unat w div 4)) (unat w mod 4) \<longleftrightarrow> w \<in> S"
proof -
  have "unat w div 4 < set_size"
    using unat_u32_bound[of w] by (simp add: set_size_def less_mult_imp_div_less)
  then have "set_serialize S ! (unat w div 4) = set_byte S (unat w div 4)" by (simp add: set_serialize_def)
  then show ?thesis using bit_set_byte[of "unat w mod 4" S "unat w div 4"] by simp
qed

lemma set_deserialize_serialize: "set_deserialize (set_serialize S) = Some S"
proof -
  have "length (set_serialize S) = set_size" by (simp add: set_serialize_def)
  then show ?thesis by (simp add: set_deserialize_def bit_set_serialize)
qed

interpretation set_roaring: roaring_serde set_roaring
proof unfold_locales
  have "length (set_serialize b) = set_size" for b by (simp add: set_serialize_def)
  then show "rb_serialized_size set_roaring b = length (rb_serialize set_roaring b)" for b
    by (simp add: set_roaring_def)
  from \<open>\<And>b. length (set_serialize b) = set_size\<close> show "0 < length (rb_serialize set_roaring b)" "length (rb_serialize set_roaring b) < 2 ^ 32" for b
    by (simp_all add: set_roaring_def set_size_def)
  show "\<exists>c. rb_deserialize set_roaring (rb_serialize set_roaring b) = Some c \<and> rb_bits set_roaring c = rb_bits set_roaring b" for b
    by (simp add: set_roaring_def rb_bits_def set_deserialize_serialize)
qed

end
