(* ===== verification/Ordered_Map.thy ===== *)
theory Ordered_Map
  imports Lance_Prelude
begin

text \<open>
  The standard library's \<open>BTreeMap\<close> as the row-address maps use it: the list of its entries in
  ascending key order. \<open>get\<close> is \<open>map_of\<close>, iteration is the list itself, and the
  \<open>for (k, v) in map\<close> loops of the code are left folds over the entries.
\<close>

type_synonym ('k, 'v) btree = "('k \<times> 'v) list"

definition bt_wf :: "('k::linorder, 'v) btree \<Rightarrow> bool" where
  "bt_wf m \<longleftrightarrow> sorted_wrt (<) (map fst m)"

definition bt_get :: "('k, 'v) btree \<Rightarrow> 'k \<Rightarrow> 'v option" where
  "bt_get m k = map_of m k"

fun bt_insert :: "('k::linorder, 'v) btree \<Rightarrow> 'k \<Rightarrow> 'v \<Rightarrow> ('k, 'v) btree" where
  "bt_insert [] k v = [(k, v)]"
| "bt_insert ((k', v') # m) k v =
     (if k < k' then (k, v) # (k', v') # m
      else if k = k' then (k, v) # m
      else (k', v') # bt_insert m k v)"

definition bt_remove :: "('k, 'v) btree \<Rightarrow> 'k \<Rightarrow> ('k, 'v) btree" where
  "bt_remove m k = filter (\<lambda>e. fst e \<noteq> k) m"

definition bt_retain :: "('k \<Rightarrow> 'v \<Rightarrow> bool) \<Rightarrow> ('k, 'v) btree \<Rightarrow> ('k, 'v) btree" where
  "bt_retain p m = filter (\<lambda>(k, v). p k v) m"

definition bt_map :: "('k \<Rightarrow> 'v \<Rightarrow> 'w) \<Rightarrow> ('k, 'v) btree \<Rightarrow> ('k, 'w) btree" where
  "bt_map f m = map (\<lambda>(k, v). (k, f k v)) m"

subsection \<open>Lookup after an update\<close>

lemma bt_get_Nil [simp]: "bt_get [] k = None"
  by (simp add: bt_get_def)

lemma bt_get_insert [simp]: "bt_get (bt_insert m k v) k' = (if k' = k then Some v else bt_get m k')"
  by (induction m k v rule: bt_insert.induct) (auto simp: bt_get_def)

lemma bt_get_remove [simp]: "bt_get (bt_remove m k) k' = (if k' = k then None else bt_get m k')"
  by (induction m) (auto simp: bt_get_def bt_remove_def)

lemma bt_get_map [simp]: "bt_get (bt_map f m) k = map_option (f k) (bt_get m k)"
  by (induction m) (auto simp: bt_get_def bt_map_def)

lemma keys_bt_insert: "set (map fst (bt_insert m k v)) = insert k (set (map fst m))"
  by (induction m k v rule: bt_insert.induct) auto

lemma bt_wf_Nil [simp]: "bt_wf []"
  by (simp add: bt_wf_def)

lemma bt_wf_Cons: "bt_wf ((k, v) # m) \<longleftrightarrow> (\<forall>k' \<in> set (map fst m). k < k') \<and> bt_wf m"
  by (auto simp: bt_wf_def)

lemma bt_wf_distinct: "bt_wf m \<Longrightarrow> distinct (map fst m)"
  unfolding bt_wf_def by (rule strict_sorted_distinct)

lemma bt_wf_insert [simp, intro]: "bt_wf m \<Longrightarrow> bt_wf (bt_insert m k v)"
proof (induction m k v rule: bt_insert.induct)
  case (2 k' v' m k v)
  then show ?case using keys_bt_insert[of m k v] by (auto simp: bt_wf_Cons)
qed (simp add: bt_wf_def)

lemma bt_wf_filter: "bt_wf m \<Longrightarrow> bt_wf (filter p m)"
  by (induction m) (auto simp: bt_wf_def)

lemma bt_wf_remove [simp, intro]: "bt_wf m \<Longrightarrow> bt_wf (bt_remove m k)"
  and bt_wf_retain [simp, intro]: "bt_wf m \<Longrightarrow> bt_wf (bt_retain q m)"
  by (simp_all add: bt_remove_def bt_retain_def bt_wf_filter)

lemma bt_wf_map [simp]: "bt_wf (bt_map f m) \<longleftrightarrow> bt_wf m"
proof -
  have "map fst (bt_map f m) = map fst m" by (simp add: bt_map_def case_prod_beta comp_def)
  then show ?thesis by (simp add: bt_wf_def)
qed

lemma bt_entry_iff: "bt_wf m \<Longrightarrow> (k, v) \<in> set m \<longleftrightarrow> bt_get m k = Some v"
  by (simp add: bt_get_def bt_wf_distinct)

lemma bt_get_retain:
  "bt_wf m \<Longrightarrow> bt_get (bt_retain p m) k =
     (case bt_get m k of None \<Rightarrow> None | Some v \<Rightarrow> if p k v then Some v else None)"
proof (induction m)
  case (Cons e m)
  obtain k0 v0 where e: "e = (k0, v0)" by fastforce
  have "k0 \<notin> set (map fst m)" "bt_wf m" using Cons.prems by (auto simp: e bt_wf_Cons)
  then have "bt_get m k0 = None" by (simp add: bt_get_def map_of_eq_None_iff)
  with Cons.IH[OF \<open>bt_wf m\<close>] show ?case by (auto simp: e bt_get_def bt_retain_def)
qed (simp add: bt_retain_def)

lemma bt_is_Nil_iff: "m = [] \<longleftrightarrow> (\<forall>k. bt_get m k = None)"
  by (cases m) (auto simp: bt_get_def)

subsection \<open>Loops over the entries\<close>

lemma foldl_entries_get:
  assumes step: "\<And>m k s k'. bt_get (f m (k, s)) k' = (if k' = k then g (bt_get m k) s else bt_get m k')"
    and "distinct (map fst es)"
  shows "bt_get (foldl f m es) k = (case bt_get es k of None \<Rightarrow> bt_get m k | Some s \<Rightarrow> g (bt_get m k) s)"
  using assms(2)
proof (induction es arbitrary: m)
  case (Cons e es)
  obtain k0 s0 where e: "e = (k0, s0)" by fastforce
  have "bt_get es k0 = None" using Cons.prems by (simp add: e bt_get_def map_of_eq_None_iff)
  moreover have "bt_get (e # es) k = (if k = k0 then Some s0 else bt_get es k)" by (simp add: e bt_get_def)
  ultimately show ?case using Cons by (auto simp: e step split: option.splits)
qed simp

lemma foldl_invariant:
  assumes "\<And>s x. P s \<Longrightarrow> x \<in> set xs \<Longrightarrow> P (f s x)" "P s"
  shows "P (foldl f s xs)"
  using assms by (induction xs arbitrary: s) auto

end
