(* ===== verification/Row_Address.thy ===== *)
theory Row_Address
  imports Lance_Prelude
begin

text \<open>
  Row addresses (\<open>lance-core/src/utils/address.rs\<close>): a 64-bit address holds the fragment id in
  its upper and the row offset in its lower 32 bits. The lemmas give the numeric value of an
  address and show that packing and unpacking are inverse and keep the order.
\<close>

subsection \<open>Addresses and their parts\<close>

type_synonym row_address = u64

definition fragment_size :: u64 where
  "fragment_size = push_bit 32 1"

definition tombstone_frag :: u32 where
  "tombstone_frag = 0xffffffff"

definition tombstone_row :: u64 where
  "tombstone_row = 0xffffffffffffffff"

definition new_from_parts :: "u32 \<Rightarrow> u32 \<Rightarrow> row_address" where
  "new_from_parts fragment_id row_offset = push_bit 32 (ucast fragment_id) OR ucast row_offset"

definition first_row :: "u32 \<Rightarrow> row_address" where
  "first_row fragment_id = new_from_parts fragment_id 0"

definition address_range :: "u32 \<Rightarrow> u64 range" where
  "address_range fragment_id = (first_row fragment_id, first_row (fragment_id + 1))"

definition addr_fragment_id :: "row_address \<Rightarrow> u32" where
  "addr_fragment_id a = ucast (drop_bit 32 a)"

definition addr_row_offset :: "row_address \<Rightarrow> u32" where
  "addr_row_offset a = ucast a"

subsection \<open>Numeric values\<close>

lemma unat_push_bit_u32: "unat (push_bit 32 (ucast (f :: u32)) :: u64) = unat f * 2 ^ 32"
proof -
  have "unat f * 2 ^ 32 < 2 ^ 32 * 2 ^ 32" using unat_u32_bound[of f] by simp
  then have "unat f * 2 ^ 32 mod 2 ^ 64 = unat f * 2 ^ 32" by simp
  then show ?thesis
    by (simp add: push_bit_eq_mult unat_word_ariths unat_ucast_up)
qed

lemma unat_new_from_parts: "unat (new_from_parts f r) = unat f * 2 ^ 32 + unat r"
proof -
  have "push_bit 32 (ucast f) AND (ucast r :: u64) = 0"
    by (rule bit_word_eqI) (auto simp: bit_and_iff bit_push_bit_iff bit_unsigned_iff dest: bit_imp_le_length)
  then have "new_from_parts f r = push_bit 32 (ucast f) + ucast r"
    unfolding new_from_parts_def by (simp add: disjunctive_add_eq_or)
  moreover have "unat f * 2 ^ 32 + unat r < 2 ^ 64"
    using unat_u32_bound[of f] unat_u32_bound[of r] by (simp add: mult.commute)
  ultimately show ?thesis
    by (simp add: unat_word_ariths unat_push_bit_u32 unat_ucast_up)
qed

lemma unat_fragment_id: "unat (addr_fragment_id a) = unat a div 2 ^ 32"
proof -
  have "unat a div 2 ^ 32 < 2 ^ 32"
    using unat_u64_bound[of a] by (simp add: less_mult_imp_div_less)
  then show ?thesis by (simp add: addr_fragment_id_def unat_ucast unat_drop_bit_eq drop_bit_eq_div unat_div)
qed

lemma unat_row_offset: "unat (addr_row_offset a) = unat a mod 2 ^ 32"
  by (simp add: addr_row_offset_def unat_ucast)

lemma fragment_id_new_from_parts [simp]: "addr_fragment_id (new_from_parts f r) = f"
  and row_offset_new_from_parts [simp]: "addr_row_offset (new_from_parts f r) = r"
  using unat_u32_bound[of r]
  by (simp_all add: word_unat_eq_iff unat_fragment_id unat_row_offset unat_new_from_parts)

lemma new_from_parts_collapse [simp]: "new_from_parts (addr_fragment_id a) (addr_row_offset a) = a"
  by (simp add: word_unat_eq_iff unat_fragment_id unat_row_offset unat_new_from_parts)

lemma row_address_eq_iff:
  "a = b \<longleftrightarrow> addr_fragment_id a = addr_fragment_id b \<and> addr_row_offset a = addr_row_offset b"
  by (metis new_from_parts_collapse)

lemma new_from_parts_inject [simp]: "new_from_parts f r = new_from_parts f' r' \<longleftrightarrow> f = f' \<and> r = r'"
  by (metis fragment_id_new_from_parts row_offset_new_from_parts)

lemma new_from_parts_less:
  "new_from_parts f r < new_from_parts f' r' \<longleftrightarrow> f < f' \<or> f = f' \<and> r < r'"
proof -
  have "unat f * 2 ^ 32 + unat r < unat f' * 2 ^ 32 + unat r' \<longleftrightarrow>
    unat f < unat f' \<or> unat f = unat f' \<and> unat r < unat r'"
    using unat_u32_bound[of r] unat_u32_bound[of r'] by (simp; linarith)
  then show ?thesis by (simp add: word_less_nat_alt unat_new_from_parts word_unat_eq_iff)
qed

lemma row_address_less_iff:
  "a < b \<longleftrightarrow> addr_fragment_id a < addr_fragment_id b \<or>
     addr_fragment_id a = addr_fragment_id b \<and> addr_row_offset a < addr_row_offset b"
  using new_from_parts_less[of "addr_fragment_id a" "addr_row_offset a" "addr_fragment_id b" "addr_row_offset b"]
  by simp

lemma row_address_le_iff:
  "a \<le> b \<longleftrightarrow> addr_fragment_id a < addr_fragment_id b \<or>
     addr_fragment_id a = addr_fragment_id b \<and> addr_row_offset a \<le> addr_row_offset b"
  by (auto simp: le_less row_address_less_iff row_address_eq_iff[of a b])

lemma set_range_vals_new_from_parts:
  "a \<in> new_from_parts f ` S \<longleftrightarrow> addr_fragment_id a = f \<and> addr_row_offset a \<in> S"
  by (metis fragment_id_new_from_parts image_iff new_from_parts_collapse row_offset_new_from_parts)

lemma address_range_contains:
  assumes "f \<noteq> tombstone_frag"
  shows "range_contains (address_range f) a \<longleftrightarrow> addr_fragment_id a = f"
proof -
  have suc: "unat (f + 1) = unat f + 1" using assms unat_add_of_nat[of f 1] unat_u32_bound[of f]
    by (auto simp: tombstone_frag_def word_less_nat_alt word_unat_eq_iff)
  then show ?thesis
    by (auto simp: range_contains_def address_range_def first_row_def row_address_le_iff row_address_less_iff
      word_less_nat_alt word_unat_eq_iff)
qed

end
