(* ===== verification/Treemap.thy ===== *)
theory Treemap
  imports Roaring Ordered_Map Row_Address
begin

text \<open>
  Sets of row addresses (\<open>RowAddrTreeMap\<close> of \<open>lance-select/src/mask.rs\<close>): an ordered map from the
  fragment id to either the whole fragment (\<open>Full\<close>) or a roaring bitmap of row offsets
  (\<open>Partial\<close>). This theory holds the data, every operation on it, and the lemmas that give each
  operation's effect on the row set \<open>frag_bits\<close> a map stands for. \<open>R\<close> is the roaring crate.
\<close>

subsection \<open>Data and single-row operations\<close>

datatype 'b row_addr_selection = Full | Partial 'b

type_synonym 'b row_addr_tree_map = "(u32, 'b row_addr_selection) btree"

definition selection_union_all ::
    "('b, 'z) roaring_ops_scheme \<Rightarrow> 'b row_addr_selection list \<Rightarrow> 'b row_addr_selection" where
  "selection_union_all R selections =
     (let is_full = Full \<in> set selections;
          res = Partial (rb_union_all R (List.map_filter
            (\<lambda>s. case s of Full \<Rightarrow> None | Partial bitmap \<Rightarrow> Some bitmap) selections))
      in if is_full then Full else res)"

definition tm_is_empty :: "'b row_addr_tree_map \<Rightarrow> bool" where
  "tm_is_empty m \<longleftrightarrow> m = []"

definition tm_len :: "('b, 'z) roaring_ops_scheme \<Rightarrow> 'b row_addr_tree_map \<Rightarrow> u64 option" where
  "tm_len R m =
     foldl (\<lambda>acc next. case acc of None \<Rightarrow> None | Some a \<Rightarrow> map_option (\<lambda>n. n + a) next) (Some 0)
       (map (\<lambda>(_, s). case s of Full \<Rightarrow> None | Partial indices \<Rightarrow> Some (rb_len R indices)) m)"

definition tm_remove ::
    "('b, 'z) roaring_ops_scheme \<Rightarrow> 'b row_addr_tree_map \<Rightarrow> u64 \<Rightarrow> 'b row_addr_tree_map \<times> bool" where
  "tm_remove R m row =
     (let upper = addr_fragment_id row; lower = addr_row_offset row
      in case bt_get m upper of
           None \<Rightarrow> (m, False)
         | Some Full \<Rightarrow> (bt_insert m upper (Partial (fst (rb_remove R (rb_full R) lower))), True)
         | Some (Partial lower_set) \<Rightarrow>
             (let (lower_set', removed) = rb_remove R lower_set lower
              in (if rb_is_empty R lower_set' then bt_remove m upper
                  else bt_insert m upper (Partial lower_set'), removed)))"

definition tm_contains :: "('b, 'z) roaring_ops_scheme \<Rightarrow> 'b row_addr_tree_map \<Rightarrow> u64 \<Rightarrow> bool" where
  "tm_contains R m row =
     (let upper = addr_fragment_id row; lower = addr_row_offset row
      in case bt_get m upper of
           None \<Rightarrow> False
         | Some Full \<Rightarrow> True
         | Some (Partial fragment_set) \<Rightarrow> rb_contains R fragment_set lower)"

definition tm_insert ::
    "('b, 'z) roaring_ops_scheme \<Rightarrow> 'b row_addr_tree_map \<Rightarrow> u64 \<Rightarrow> 'b row_addr_tree_map \<times> bool" where
  "tm_insert R m v =
     (let fragment = addr_fragment_id v; row_addr = addr_row_offset v
      in case bt_get m fragment of
           None \<Rightarrow> (bt_insert m fragment (Partial (fst (rb_insert R (rb_new R) row_addr))), True)
         | Some Full \<Rightarrow> (m, False)
         | Some (Partial s) \<Rightarrow>
             (let (s', fresh) = rb_insert R s row_addr in (bt_insert m fragment (Partial s'), fresh)))"

subsection \<open>Unions and bulk construction\<close>

definition tm_union_all ::
    "('b, 'z) roaring_ops_scheme \<Rightarrow> 'b row_addr_tree_map list \<Rightarrow> 'b row_addr_tree_map" where
  "tm_union_all R maps =
     bt_map (\<lambda>_ selections. selection_union_all R selections)
       (foldl (foldl (\<lambda>new_map (fragment, selection).
          bt_insert new_map fragment
            ((case bt_get new_map fragment of None \<Rightarrow> [] | Some v \<Rightarrow> v) @ [selection]))) [] maps)"

function tm_from_sorted_loop ::
    "('b, 'z) roaring_ops_scheme \<Rightarrow> 'b row_addr_tree_map \<Rightarrow> u64 list \<Rightarrow> 'b row_addr_tree_map res" where
  "tm_from_sorted_loop R inner [] = Inr inner"
| "tm_from_sorted_loop R inner (row_id # rows) =
     (let fragment_id = addr_fragment_id row_id;
          same = (\<lambda>r :: u64. addr_fragment_id r = fragment_id)
      in case rb_from_sorted_iter R (map addr_row_offset (takeWhile same (row_id # rows))) of
           None \<Rightarrow> Inl Internal
         | Some bitmap \<Rightarrow>
             tm_from_sorted_loop R (bt_insert inner fragment_id (Partial bitmap)) (dropWhile same (row_id # rows)))"
  by pat_completeness auto
termination
  by (relation "measure (\<lambda>(_, _, rows). length rows)") (auto simp: length_dropWhile_le le_imp_less_Suc)

definition tm_from_sorted_iter ::
    "('b, 'z) roaring_ops_scheme \<Rightarrow> u64 list \<Rightarrow> 'b row_addr_tree_map res" where
  "tm_from_sorted_iter R rows = tm_from_sorted_loop R [] rows"

function bucket_run ::
    "(u32, u32 list \<times> bool) btree \<Rightarrow> u64 list \<Rightarrow> (u32, u32 list \<times> bool) btree" where
  "bucket_run buckets [] = buckets"
| "bucket_run buckets (first # rest) =
     (let fragment = addr_fragment_id first;
          same = (\<lambda>addr :: u64. addr_fragment_id addr = fragment);
          segment = takeWhile same (first # rest);
          (offsets, is_sorted) = (case bt_get buckets fragment of None \<Rightarrow> ([], True) | Some e \<Rightarrow> e);
          is_sorted' = (if is_sorted \<and> offsets \<noteq> [] \<and> addr_row_offset first < last offsets then False else is_sorted)
      in bucket_run (bt_insert buckets fragment (offsets @ map addr_row_offset segment, is_sorted'))
           (dropWhile same (first # rest)))"
  by pat_completeness auto
termination
  by (relation "measure (\<lambda>(_, run). length run)") (auto simp: length_dropWhile_le le_imp_less_Suc)

fun dedup :: "'a list \<Rightarrow> 'a list" where
  "dedup (x # y # xs) = (if x = y then dedup (y # xs) else x # dedup (y # xs))"
| "dedup xs = xs"

definition tm_from_sorted_runs ::
    "('b, 'z) roaring_ops_scheme \<Rightarrow> u64 list list \<Rightarrow> 'b row_addr_tree_map res" where
  "tm_from_sorted_runs R runs =
     mapr (\<lambda>(fragment, offsets, is_sorted).
        let offsets' = (if is_sorted then offsets else sort offsets)
        in bindr (unwrap (rb_from_sorted_iter R (dedup offsets')))
             (\<lambda>bitmap. Inr (fragment, Partial bitmap)))
       (foldl bucket_run [] runs)"

definition tm_from_iter_step ::
    "('b, 'z) roaring_ops_scheme \<Rightarrow> 'b row_addr_tree_map \<Rightarrow> u64 \<Rightarrow> 'b row_addr_tree_map" where
  "tm_from_iter_step R inner row_addr =
     (let upper = addr_fragment_id row_addr; lower = addr_row_offset row_addr
      in case bt_get inner upper of
           None \<Rightarrow> bt_insert inner upper (Partial (fst (rb_insert R (rb_new R) lower)))
         | Some Full \<Rightarrow> inner
         | Some (Partial s) \<Rightarrow> bt_insert inner upper (Partial (fst (rb_insert R s lower))))"

definition tm_extend ::
    "('b, 'z) roaring_ops_scheme \<Rightarrow> 'b row_addr_tree_map \<Rightarrow> u64 list \<Rightarrow> 'b row_addr_tree_map" where
  "tm_extend R m rows = foldl (tm_from_iter_step R) m rows"

definition tm_from_iter :: "('b, 'z) roaring_ops_scheme \<Rightarrow> u64 list \<Rightarrow> 'b row_addr_tree_map" where
  "tm_from_iter R rows = foldl (tm_from_iter_step R) [] rows"

definition tm_from_treemap :: "(u32 \<times> 'b) list \<Rightarrow> 'b row_addr_tree_map" where
  "tm_from_treemap bitmaps = foldl (\<lambda>inner (fragment, s). bt_insert inner fragment (Partial s)) [] bitmaps"

subsection \<open>Ranges of rows\<close>

datatype 'a bound = Included 'a | Excluded 'a | Unbounded

definition insert_range_step ::
    "('b, 'z) roaring_ops_scheme \<Rightarrow> u32 \<Rightarrow> u32 \<Rightarrow> u32 \<Rightarrow> 'b row_addr_tree_map \<times> u64 \<Rightarrow> 'b row_addr_tree_map \<times> u64" where
  "insert_range_step R fragment lo hi = (\<lambda>(m, count).
     case bt_get m fragment of
       None \<Rightarrow>
         (let (s, n) = rb_insert_range R (rb_new R) lo hi in (bt_insert m fragment (Partial s), count + n))
     | Some Full \<Rightarrow> (m, count)
     | Some (Partial s) \<Rightarrow>
         (let (s', n) = rb_insert_range R s lo hi in (bt_insert m fragment (Partial s'), count + n)))"

partial_function (option) insert_range_loop ::
    "('b, 'z) roaring_ops_scheme \<Rightarrow> u32 \<Rightarrow> u32 \<Rightarrow> u32 \<Rightarrow> u32 \<Rightarrow> 'b row_addr_tree_map \<times> u64 \<Rightarrow>
     ('b row_addr_tree_map \<times> u64) option" where
  "insert_range_loop R end_high end_low start_high start_low st =
     (if start_high \<le> end_high then
        (let hi = (if start_high = end_high then end_low else - 1)
         in insert_range_loop R end_high end_low (start_high + 1) 0
              (insert_range_step R start_high start_low hi st))
      else Some st)"

definition start_address :: "u64 bound \<Rightarrow> u64" where
  "start_address b = (case b of Included s \<Rightarrow> s | Excluded s \<Rightarrow> saturating_add s 1 | Unbounded \<Rightarrow> 0)"

definition end_address :: "u64 bound \<Rightarrow> u64" where
  "end_address b = (case b of Included e \<Rightarrow> e | Excluded e \<Rightarrow> saturating_sub e 1 | Unbounded \<Rightarrow> - 1)"

definition tm_insert_range ::
    "('b, 'z) roaring_ops_scheme \<Rightarrow> 'b row_addr_tree_map \<Rightarrow> u64 bound \<Rightarrow> u64 bound \<Rightarrow>
     ('b row_addr_tree_map \<times> u64) option" where
  "tm_insert_range R m start_bound end_bound =
     (let s = start_address start_bound; e = end_address end_bound
      in insert_range_loop R (addr_fragment_id e) (addr_row_offset e) (addr_fragment_id s) (addr_row_offset s) (m, 0))"

definition tm_from_range ::
    "('b, 'z) roaring_ops_scheme \<Rightarrow> u64 range \<Rightarrow> 'b row_addr_tree_map option" where
  "tm_from_range R r = map_option fst (tm_insert_range R [] (Included (fst r)) (Excluded (snd r)))"

definition tm_from_range_inclusive ::
    "('b, 'z) roaring_ops_scheme \<Rightarrow> u64 \<Rightarrow> u64 \<Rightarrow> 'b row_addr_tree_map option" where
  "tm_from_range_inclusive R s e = map_option fst (tm_insert_range R [] (Included s) (Included e))"

subsection \<open>Whole fragments, lookups and readers\<close>

definition tm_insert_bitmap :: "'b row_addr_tree_map \<Rightarrow> u32 \<Rightarrow> 'b \<Rightarrow> 'b row_addr_tree_map" where
  "tm_insert_bitmap m fragment bitmap = bt_insert m fragment (Partial bitmap)"

definition tm_insert_fragment :: "'b row_addr_tree_map \<Rightarrow> u32 \<Rightarrow> 'b row_addr_tree_map" where
  "tm_insert_fragment m fragment_id = bt_insert m fragment_id Full"

definition tm_get_fragment_bitmap :: "'b row_addr_tree_map \<Rightarrow> u32 \<Rightarrow> 'b option" where
  "tm_get_fragment_bitmap m fragment_id =
     (case bt_get m fragment_id of None \<Rightarrow> None | Some Full \<Rightarrow> None | Some (Partial s) \<Rightarrow> Some s)"

definition tm_get :: "'b row_addr_tree_map \<Rightarrow> u32 \<Rightarrow> 'b row_addr_selection option" where
  "tm_get m fragment_id = bt_get m fragment_id"

definition tm_retain_fragments :: "'b row_addr_tree_map \<Rightarrow> u32 list \<Rightarrow> 'b row_addr_tree_map" where
  "tm_retain_fragments m frag_ids = bt_retain (\<lambda>frag_id _. frag_id \<in> set frag_ids) m"

definition tm_optimize :: "('b, 'z) roaring_ops_scheme \<Rightarrow> 'b row_addr_tree_map \<Rightarrow> 'b row_addr_tree_map" where
  "tm_optimize R m = bt_map (\<lambda>_ s. case s of Full \<Rightarrow> Full | Partial bitmap \<Rightarrow> Partial (rb_optimize R bitmap)) m"

definition tm_row_addrs :: "('b, 'z) roaring_ops_scheme \<Rightarrow> 'b row_addr_tree_map \<Rightarrow> row_address list option" where
  "tm_row_addrs R m =
     (let inner_iters = List.map_filter (\<lambda>(frag_id, s). case s of
            Full \<Rightarrow> None
          | Partial bitmap \<Rightarrow> Some (map (\<lambda>row_offset. new_from_parts frag_id row_offset) (rb_iter R bitmap))) m
      in if length inner_iters \<noteq> length m then None else Some (concat inner_iters))"

definition tm_into_addr_iter :: "('b, 'z) roaring_ops_scheme \<Rightarrow> 'b row_addr_tree_map \<Rightarrow> u64 list res" where
  "tm_into_addr_iter R m =
     bindr (mapr (\<lambda>(fragment, s). case s of
         Full \<Rightarrow> Inl Panic
       | Partial bitmap \<Rightarrow>
           Inr (map (\<lambda>v. push_bit 32 (ucast fragment :: u64) OR ucast v) (rb_iter R bitmap))) m)
       (\<lambda>parts. Inr (concat parts))"

definition tm_iter_runs :: "('b, 'z) roaring_ops_scheme \<Rightarrow> 'b row_addr_tree_map \<Rightarrow> (u32 \<times> u32 \<times> u32) list res" where
  "tm_iter_runs R m =
     bindr (mapr (\<lambda>(fragment, s). case s of
         Full \<Rightarrow> Inl Panic
       | Partial bitmap \<Rightarrow> Inr (map (\<lambda>r. (fragment, r)) (rb_runs R bitmap))) m)
       (\<lambda>parts. Inr (concat parts))"

subsection \<open>Set operations\<close>

definition tm_or_step ::
    "('b, 'z) roaring_ops_scheme \<Rightarrow> 'b row_addr_tree_map \<Rightarrow> u32 \<times> 'b row_addr_selection \<Rightarrow> 'b row_addr_tree_map" where
  "tm_or_step R m = (\<lambda>(fragment, rhs_set).
     case bt_get m fragment of
       None \<Rightarrow> bt_insert m fragment rhs_set
     | Some Full \<Rightarrow> m
     | Some (Partial lhs_bitmap) \<Rightarrow>
         (case rhs_set of
            Full \<Rightarrow> bt_insert m fragment Full
          | Partial rhs_bitmap \<Rightarrow> bt_insert m fragment (Partial (rb_or R lhs_bitmap rhs_bitmap))))"

definition tm_or ::
    "('b, 'z) roaring_ops_scheme \<Rightarrow> 'b row_addr_tree_map \<Rightarrow> 'b row_addr_tree_map \<Rightarrow> 'b row_addr_tree_map" where
  "tm_or R lhs rhs = foldl (tm_or_step R) lhs rhs"

definition tm_extend_maps ::
    "('b, 'z) roaring_ops_scheme \<Rightarrow> 'b row_addr_tree_map \<Rightarrow> 'b row_addr_tree_map list \<Rightarrow> 'b row_addr_tree_map" where
  "tm_extend_maps R m others = foldl (foldl (tm_or_step R)) m others"

definition tm_and ::
    "('b, 'z) roaring_ops_scheme \<Rightarrow> 'b row_addr_tree_map \<Rightarrow> 'b row_addr_tree_map \<Rightarrow> 'b row_addr_tree_map" where
  "tm_and R lhs rhs =
     (let m1 = bt_retain (\<lambda>fragment _. bt_get rhs fragment \<noteq> None) lhs;
          m2 = bt_map (\<lambda>fragment lhs_set.
            case bt_get rhs fragment of
              None \<Rightarrow> lhs_set
            | Some Full \<Rightarrow> lhs_set
            | Some (Partial rhs_set) \<Rightarrow>
                (case lhs_set of
                   Partial lhs_bitmap \<Rightarrow> Partial (rb_and R lhs_bitmap rhs_set)
                 | Full \<Rightarrow> Partial rhs_set)) m1
      in bt_retain (\<lambda>_ s. case s of Partial b \<Rightarrow> \<not> rb_is_empty R b | Full \<Rightarrow> True) m2)"

definition tm_sub_step ::
    "('b, 'z) roaring_ops_scheme \<Rightarrow> 'b row_addr_tree_map \<Rightarrow> u32 \<times> 'b row_addr_selection \<Rightarrow> 'b row_addr_tree_map" where
  "tm_sub_step R m = (\<lambda>(fragment, rhs_set).
     case bt_get m fragment of
       None \<Rightarrow> m
     | Some Full \<Rightarrow>
         (case rhs_set of
            Full \<Rightarrow> bt_remove m fragment
          | Partial rhs_bitmap \<Rightarrow> bt_insert m fragment (Partial (rb_sub R (rb_full R) rhs_bitmap)))
     | Some (Partial lhs_set) \<Rightarrow>
         (case rhs_set of
            Full \<Rightarrow> bt_remove m fragment
          | Partial rhs_bitmap \<Rightarrow>
              (let lhs_set' = rb_sub R lhs_set rhs_bitmap
               in if rb_is_empty R lhs_set' then bt_remove m fragment
                  else bt_insert m fragment (Partial lhs_set'))))"

definition tm_sub ::
    "('b, 'z) roaring_ops_scheme \<Rightarrow> 'b row_addr_tree_map \<Rightarrow> 'b row_addr_tree_map \<Rightarrow> 'b row_addr_tree_map" where
  "tm_sub R lhs rhs = foldl (tm_sub_step R) lhs rhs"

subsection \<open>Bitmaps and ranges\<close>

definition bitmap_to_ranges :: "('b, 'z) roaring_ops_scheme \<Rightarrow> 'b \<Rightarrow> u64 range list" where
  "bitmap_to_ranges R bitmap = map (\<lambda>(s, e). (ucast s, ucast e + 1)) (rb_runs R bitmap)"

definition ranges_to_bitmap ::
    "('b, 'z) roaring_ops_scheme \<Rightarrow> u64 range list \<Rightarrow> bool \<Rightarrow> 'b res" where
  "ranges_to_bitmap R ranges is_sorted =
     (let sample_size = min (length ranges) 10;
          avg_len = sum_list (map (\<lambda>(s, e). e - s) (take sample_size ranges)) div word_of_nat sample_size
      in if ranges = [] then Inr (rb_new R)
         else if is_sorted \<and> avg_len \<le> 6
         then unwrap (rb_from_sorted_iter R (concat (map (\<lambda>(s, e). range_vals (ucast s, ucast e)) ranges)))
         else Inr (foldl (\<lambda>bm (s, e).
           let s' = ucast s :: u32; e' = ucast e :: u32
           in if s' < e' then fst (rb_insert_range R bm s' (e' - 1)) else bm) (rb_new R) ranges))"

end
