(* ===== verification/Row_Set.thy ===== *)
theory Row_Set
  imports Lance_Prelude
begin

text \<open>
  The trait \<open>RowSetOps\<close> of \<open>lance-select/src/mask.rs\<close> as an interface: a representation of sets of
  row ids or row addresses with membership, removal, union, size and construction from sorted rows.
  \<open>rows\<close> is the set a value stands for and \<open>wf\<close> its representation invariant. What the callers
  need of any implementation is proved here once.
\<close>

locale row_set =
  fixes wf :: "'s \<Rightarrow> bool" and rows :: "'s \<Rightarrow> u64 set"
    and is_empty :: "'s \<Rightarrow> bool" and size_of :: "'s \<Rightarrow> u64 option"
    and remove :: "'s \<Rightarrow> u64 \<Rightarrow> 's \<times> bool" and contains :: "'s \<Rightarrow> u64 \<Rightarrow> bool"
    and union_all :: "'s list \<Rightarrow> 's" and from_sorted_iter :: "u64 list \<Rightarrow> 's res"
  assumes is_empty_rows: "wf s \<Longrightarrow> is_empty s \<Longrightarrow> rows s = {}"
    and size_of_rows: "wf s \<Longrightarrow> size_of s = Some n \<Longrightarrow> n = word_of_nat (card (rows s))"
    and wf_remove: "wf s \<Longrightarrow> wf (fst (remove s x))"
    and rows_remove: "wf s \<Longrightarrow> rows (fst (remove s x)) = rows s - {x}"
    and remove_found: "wf s \<Longrightarrow> snd (remove s x) \<longleftrightarrow> x \<in> rows s"
    and contains_rows: "wf s \<Longrightarrow> contains s x \<longleftrightarrow> x \<in> rows s"
    and wf_union_all: "list_all wf ss \<Longrightarrow> wf (union_all ss)"
    and rows_union_all: "list_all wf ss \<Longrightarrow> rows (union_all ss) = \<Union> (rows ` set ss)"
    and from_sorted_iter_rows: "sorted_wrt (<) xs \<Longrightarrow> \<exists>s. from_sorted_iter xs = Inr s \<and> wf s \<and> rows s = set xs"
begin

lemma remove_again: "wf s \<Longrightarrow> \<not> snd (remove (fst (remove s x)) x)"
  by (simp add: remove_found wf_remove rows_remove)

lemma contains_remove: "wf s \<Longrightarrow> contains (fst (remove s x)) y \<longleftrightarrow> contains s y \<and> y \<noteq> x"
  by (auto simp: contains_rows wf_remove rows_remove)

lemma contains_union_all:
  "list_all wf ss \<Longrightarrow> contains (union_all ss) x \<longleftrightarrow> (\<exists>s \<in> set ss. contains s x)"
  by (auto simp: contains_rows wf_union_all rows_union_all list_all_iff)

lemma remove_many:
  assumes "wf s"
  shows "wf (foldl (\<lambda>s x. fst (remove s x)) s xs)"
    "rows (foldl (\<lambda>s x. fst (remove s x)) s xs) = rows s - set xs"
  using assms by (induction xs arbitrary: s) (auto simp: wf_remove rows_remove)

lemma remove_counted:
  assumes "wf s" "distinct xs"
  shows "foldl (\<lambda>(s, k) x. let (s', found) = remove s x in (s', if found then k - 1 else k)) (s, k) xs =
    (foldl (\<lambda>s x. fst (remove s x)) s xs, k - word_of_nat (card (rows s \<inter> set xs)) :: u64)"
  using assms
proof (induction xs arbitrary: s k)
  case (Cons x xs)
  have "rows (fst (remove s x)) \<inter> set xs = rows s \<inter> set xs"
    using Cons.prems by (auto simp: rows_remove)
  moreover have "card (rows s \<inter> set (x # xs)) = (if x \<in> rows s then Suc (card (rows s \<inter> set xs)) else card (rows s \<inter> set xs))"
    using Cons.prems by (auto simp: Int_insert_right)
  ultimately show ?case
    using Cons.IH[OF wf_remove[OF Cons.prems(1), of x]] Cons.prems
    by (auto simp: case_prod_beta remove_found algebra_simps)
qed simp

end

end
