(* ===== verification/Treemap_Rows.thy ===== *)
theory Treemap_Rows
  imports Treemap Row_Set
begin

text \<open>
  The rows a \<open>RowAddrTreeMap\<close> stands for. \<open>frag_bits R m f\<close> is the set of row offsets of fragment
  \<open>f\<close> in \<open>m\<close>, \<open>tm_rows\<close> the set of row addresses. Every operation of \<open>Treemap\<close> is related to the
  corresponding operation on these sets, under the laws of the roaring crate; the map implements
  the row-set interface \<open>RowSetOps\<close>.
\<close>

subsection \<open>Abstraction and invariant\<close>

definition sel_bits :: "('b, 'z) roaring_ops_scheme \<Rightarrow> 'b row_addr_selection \<Rightarrow> u32 set" where
  "sel_bits R s = (case s of Full \<Rightarrow> UNIV | Partial b \<Rightarrow> rb_bits R b)"

definition opt_bits :: "('b, 'z) roaring_ops_scheme \<Rightarrow> 'b row_addr_selection option \<Rightarrow> u32 set" where
  "opt_bits R s = (case s of None \<Rightarrow> {} | Some s \<Rightarrow> sel_bits R s)"

definition frag_bits :: "('b, 'z) roaring_ops_scheme \<Rightarrow> 'b row_addr_tree_map \<Rightarrow> u32 \<Rightarrow> u32 set" where
  "frag_bits R m f = opt_bits R (bt_get m f)"

definition tm_rows :: "('b, 'z) roaring_ops_scheme \<Rightarrow> 'b row_addr_tree_map \<Rightarrow> u64 set" where
  "tm_rows R m = {x. addr_row_offset x \<in> frag_bits R m (addr_fragment_id x)}"

definition tm_canonical :: "('b, 'z) roaring_ops_scheme \<Rightarrow> 'b row_addr_tree_map \<Rightarrow> bool" where
  "tm_canonical R m \<longleftrightarrow> (\<forall>s \<in> snd ` set m. sel_bits R s \<noteq> {})"

lemma sel_bits_simps [simp]: "sel_bits R Full = UNIV" "sel_bits R (Partial b) = rb_bits R b"
  by (simp_all add: sel_bits_def)

lemma opt_bits_simps [simp]: "opt_bits R None = {}" "opt_bits R (Some s) = sel_bits R s"
  by (simp_all add: opt_bits_def)

lemma frag_bits_Nil [simp]: "frag_bits R [] f = {}"
  by (simp add: frag_bits_def)

lemma frag_bits_insert [simp]:
  "frag_bits R (bt_insert m f s) f' = (if f' = f then sel_bits R s else frag_bits R m f')"
  by (simp add: frag_bits_def)

lemma frag_bits_remove [simp]: "frag_bits R (bt_remove m f) f' = (if f' = f then {} else frag_bits R m f')"
  by (simp add: frag_bits_def)

lemma frag_bits_get:
  "bt_get m f = None \<Longrightarrow> frag_bits R m f = {}"
  "bt_get m f = Some Full \<Longrightarrow> frag_bits R m f = UNIV"
  "bt_get m f = Some (Partial b) \<Longrightarrow> frag_bits R m f = rb_bits R b"
  by (simp_all add: frag_bits_def)

lemma tm_rows_new_from_parts [simp]: "new_from_parts f r \<in> tm_rows R m \<longleftrightarrow> r \<in> frag_bits R m f"
  by (simp add: tm_rows_def)

lemma tm_rows_Nil [simp]: "tm_rows R [] = {}"
  by (simp add: tm_rows_def)

lemma tm_rows_eq_iff: "tm_rows R m = tm_rows R' m' \<longleftrightarrow> (\<forall>f. frag_bits R m f = frag_bits R' m' f)"
proof
  assume eq: "tm_rows R m = tm_rows R' m'"
  show "\<forall>f. frag_bits R m f = frag_bits R' m' f"
    using eq by (metis subsetI subset_antisym tm_rows_new_from_parts)
qed (simp add: tm_rows_def)

lemma tm_rows_empty_iff: "tm_rows R m = {} \<longleftrightarrow> (\<forall>f. frag_bits R m f = {})"
  using tm_rows_eq_iff[of R m R "[]"] by simp

lemma tm_canonical_get:
  "bt_wf m \<Longrightarrow> tm_canonical R m \<longleftrightarrow> (\<forall>f s. bt_get m f = Some s \<longrightarrow> sel_bits R s \<noteq> {})"
  unfolding tm_canonical_def by (auto simp: bt_entry_iff[symmetric] image_iff)

lemma tm_canonical_frag_bits:
  "bt_wf m \<Longrightarrow> tm_canonical R m \<longleftrightarrow> (\<forall>f. bt_get m f \<noteq> None \<longrightarrow> frag_bits R m f \<noteq> {})"
  by (auto simp: tm_canonical_get frag_bits_def)

lemma tm_canonical_is_empty:
  assumes "bt_wf m" "tm_canonical R m"
  shows "tm_is_empty m \<longleftrightarrow> tm_rows R m = {}"
proof -
  have "tm_rows R m = {} \<longleftrightarrow> (\<forall>f. bt_get m f = None)"
    using assms tm_canonical_frag_bits[of m R] by (auto simp: tm_rows_empty_iff frag_bits_get(1))
  then show ?thesis by (simp add: tm_is_empty_def bt_is_Nil_iff)
qed

lemma tm_is_empty_rows: "tm_is_empty m \<Longrightarrow> tm_rows R m = {}"
  by (simp add: tm_is_empty_def)

lemma u32_not_singleton: "\<not> UNIV \<subseteq> {v :: u32}"
proof
  assume "UNIV \<subseteq> {v}"
  then have "(0 :: u32) = 1" by (metis UNIV_I singletonD subsetD)
  then show False by simp
qed

subsection \<open>Operations on row sets\<close>

context roaring
begin

lemma contains_rows: "tm_contains R m x \<longleftrightarrow> x \<in> tm_rows R m"
  by (auto simp: tm_contains_def tm_rows_def frag_bits_def Let_def  split: option.splits row_addr_selection.splits)

lemma insert_frag_bits:
  "frag_bits R (fst (tm_insert R m x)) f =
     (if f = addr_fragment_id x then insert (addr_row_offset x) (frag_bits R m f) else frag_bits R m f)"
  "snd (tm_insert R m x) \<longleftrightarrow> x \<notin> tm_rows R m"
  "bt_wf m \<Longrightarrow> bt_wf (fst (tm_insert R m x))"
  by (auto simp: tm_insert_def Let_def  tm_rows_def frag_bits_get case_prod_beta split: option.splits row_addr_selection.splits)

lemma insert_rows: "tm_rows R (fst (tm_insert R m x)) = insert x (tm_rows R m)"
  by (auto simp: tm_rows_def insert_frag_bits row_address_eq_iff)

lemma remove_frag_bits:
  "frag_bits R (fst (tm_remove R m x)) f =
     (if f = addr_fragment_id x then frag_bits R m f - {addr_row_offset x} else frag_bits R m f)"
  "snd (tm_remove R m x) \<longleftrightarrow> x \<in> tm_rows R m"
  "bt_wf m \<Longrightarrow> bt_wf (fst (tm_remove R m x))"
  by (auto simp: tm_remove_def Let_def  tm_rows_def frag_bits_get case_prod_beta split: option.splits row_addr_selection.splits)

lemma remove_rows: "tm_rows R (fst (tm_remove R m x)) = tm_rows R m - {x}"
  by (auto simp: tm_rows_def remove_frag_bits row_address_eq_iff)

lemma remove_canonical: "bt_wf m \<Longrightarrow> tm_canonical R m \<Longrightarrow> tm_canonical R (fst (tm_remove R m x))"
  using u32_not_singleton[of "addr_row_offset x"]
  by (auto simp: tm_canonical_get remove_frag_bits(3) tm_remove_def Let_def case_prod_beta
      split: option.splits row_addr_selection.splits if_splits)

lemma from_iter_step_eq: "tm_from_iter_step R m x = fst (tm_insert R m x)"
  by (simp add: tm_from_iter_step_def tm_insert_def Let_def case_prod_beta split: option.splits row_addr_selection.splits)

lemma extend_rows: "tm_rows R (tm_extend R m xs) = tm_rows R m \<union> set xs"
  "bt_wf m \<Longrightarrow> bt_wf (tm_extend R m xs)"
  unfolding tm_extend_def by (induction xs arbitrary: m) (auto simp: from_iter_step_eq insert_rows insert_frag_bits)

lemma from_iter_rows: "tm_rows R (tm_from_iter R xs) = set xs" "bt_wf (tm_from_iter R xs)"
  using extend_rows[of "[]" xs] by (simp_all add: tm_from_iter_def tm_extend_def)

lemma or_frag_bits:
  assumes "bt_wf rhs"
  shows "frag_bits R (tm_or R lhs rhs) f = frag_bits R lhs f \<union> frag_bits R rhs f"
proof -
  define g where "g = (\<lambda>l r. case l of None \<Rightarrow> Some r | Some Full \<Rightarrow> Some Full
    | Some (Partial b) \<Rightarrow> (case r of Full \<Rightarrow> Some Full | Partial c \<Rightarrow> Some (Partial (rb_or R b c))))"
  have "bt_get (tm_or_step R m (k, s)) k' = (if k' = k then g (bt_get m k) s else bt_get m k')" for m k s k'
    by (auto simp: tm_or_step_def g_def split: option.splits row_addr_selection.splits)
  from foldl_entries_get[of "tm_or_step R" g, OF this bt_wf_distinct[OF assms]]
  show ?thesis
    by (auto simp: frag_bits_def tm_or_def g_def split: option.splits row_addr_selection.splits)
qed

lemma or_wf [simp]: "bt_wf lhs \<Longrightarrow> bt_wf (tm_or R lhs rhs)"
  unfolding tm_or_def by (rule foldl_invariant)
    (auto simp: tm_or_step_def split: option.splits row_addr_selection.splits)

lemma or_rows [simp]: "bt_wf rhs \<Longrightarrow> tm_rows R (tm_or R lhs rhs) = tm_rows R lhs \<union> tm_rows R rhs"
  by (auto simp: tm_rows_def or_frag_bits)

lemma sub_get:
  assumes "bt_wf rhs"
  shows "bt_get (tm_sub R lhs rhs) f = (case bt_get rhs f of
      None \<Rightarrow> bt_get lhs f
    | Some Full \<Rightarrow> None
    | Some (Partial c) \<Rightarrow> (case bt_get lhs f of
          None \<Rightarrow> None
        | Some Full \<Rightarrow> Some (Partial (rb_sub R (rb_full R) c))
        | Some (Partial b) \<Rightarrow> if rb_bits R b \<subseteq> rb_bits R c then None else Some (Partial (rb_sub R b c))))"
proof -
  define g where "g = (\<lambda>l r. case l of None \<Rightarrow> None
    | Some Full \<Rightarrow> (case r of Full \<Rightarrow> None | Partial c \<Rightarrow> Some (Partial (rb_sub R (rb_full R) c)))
    | Some (Partial b) \<Rightarrow> (case r of Full \<Rightarrow> None | Partial c \<Rightarrow>
        if rb_is_empty R (rb_sub R b c) then None else Some (Partial (rb_sub R b c))))"
  have "bt_get (tm_sub_step R m (k, s)) k' = (if k' = k then g (bt_get m k) s else bt_get m k')" for m k s k'
    by (auto simp: tm_sub_step_def g_def Let_def split: option.splits row_addr_selection.splits)
  from foldl_entries_get[of "tm_sub_step R" g, OF this bt_wf_distinct[OF assms]]
  show ?thesis
    by (auto simp: tm_sub_def g_def split: option.splits row_addr_selection.splits if_splits)
qed

lemma sub_frag_bits:
  "bt_wf rhs \<Longrightarrow> frag_bits R (tm_sub R lhs rhs) f = frag_bits R lhs f - frag_bits R rhs f"
  by (auto simp: frag_bits_def sub_get split: option.splits row_addr_selection.splits if_splits)

lemma sub_wf [simp]: "bt_wf lhs \<Longrightarrow> bt_wf (tm_sub R lhs rhs)"
  unfolding tm_sub_def by (rule foldl_invariant)
    (auto simp: tm_sub_step_def Let_def split: option.splits row_addr_selection.splits)

lemma sub_rows [simp]: "bt_wf rhs \<Longrightarrow> tm_rows R (tm_sub R lhs rhs) = tm_rows R lhs - tm_rows R rhs"
  by (auto simp: tm_rows_def sub_frag_bits)

lemma and_get:
  assumes "bt_wf lhs"
  shows "bt_get (tm_and R lhs rhs) f = (case (bt_get lhs f, bt_get rhs f) of
      (Some Full, Some (Partial c)) \<Rightarrow> if rb_bits R c = {} then None else Some (Partial c)
    | (Some (Partial b), Some (Partial c)) \<Rightarrow>
        if rb_bits R b \<inter> rb_bits R c = {} then None else Some (Partial (rb_and R b c))
    | (Some (Partial b), Some Full) \<Rightarrow> if rb_bits R b = {} then None else Some (Partial b)
    | (Some Full, Some Full) \<Rightarrow> Some Full
    | _ \<Rightarrow> None)"
  using assms by (auto simp: tm_and_def Let_def bt_get_retain split: option.splits row_addr_selection.splits)

lemma and_wf [simp]: "bt_wf lhs \<Longrightarrow> bt_wf (tm_and R lhs rhs)"
  by (simp add: tm_and_def)

lemma and_frag_bits:
  "bt_wf lhs \<Longrightarrow> frag_bits R (tm_and R lhs rhs) f = frag_bits R lhs f \<inter> frag_bits R rhs f"
  by (auto simp: frag_bits_def and_get split: option.splits row_addr_selection.splits)

lemma and_rows [simp]: "bt_wf lhs \<Longrightarrow> tm_rows R (tm_and R lhs rhs) = tm_rows R lhs \<inter> tm_rows R rhs"
  by (auto simp: tm_rows_def and_frag_bits)

lemma and_canonical: "bt_wf lhs \<Longrightarrow> tm_canonical R (tm_and R lhs rhs)"
  by (auto simp: tm_canonical_get and_get split: option.splits row_addr_selection.splits if_splits)

end

end
