(* ===== verification/Treemap_Build.thy ===== *)
theory Treemap_Build
  imports Treemap_Rows Row_Set
begin

text \<open>
  Bulk construction and bulk reading of row-address maps: size, unions of many maps, construction
  from sorted rows, from many sorted runs and from ranges, and the iterators. With these the map
  implements the interface \<open>row_set\<close>.
\<close>

subsection \<open>Rows entry by entry\<close>

lemma tm_rows_Cons:
  assumes "bt_wf ((f, s) # m)"
  shows "tm_rows R ((f, s) # m) = new_from_parts f ` sel_bits R s \<union> tm_rows R m"
    "new_from_parts f ` sel_bits R s \<inter> tm_rows R m = {}"
proof -
  have "bt_get m f = None" using assms by (auto simp: bt_wf_Cons bt_get_def map_of_eq_None_iff)
  then have f: "frag_bits R m f = {}" by (rule frag_bits_get)
  have "frag_bits R ((f, s) # m) f' = (if f' = f then sel_bits R s else frag_bits R m f')" for f'
    by (simp add: frag_bits_def bt_get_def)
  with f show "tm_rows R ((f, s) # m) = new_from_parts f ` sel_bits R s \<union> tm_rows R m"
    by (auto simp: tm_rows_def set_range_vals_new_from_parts)
  show "new_from_parts f ` sel_bits R s \<inter> tm_rows R m = {}" using f by auto
qed

lemma tm_rows_greater: "bt_wf ((f, s) # m) \<Longrightarrow> x \<in> tm_rows R m \<Longrightarrow> f < addr_fragment_id x"
  by (auto simp: bt_wf_Cons tm_rows_def frag_bits_def bt_get_def opt_bits_def split: option.splits dest!: map_of_SomeD)

lemma tm_rows_entries: "bt_wf m \<Longrightarrow> tm_rows R m = (\<Union>(f, s) \<in> set m. new_from_parts f ` sel_bits R s)"
proof (induction m)
  case (Cons e m)
  obtain f s where e: "e = (f, s)" by fastforce
  with Cons show ?case using tm_rows_Cons(1)[of f s m R] by (simp add: bt_wf_Cons)
qed simp

lemma inj_new_from_parts: "inj_on (new_from_parts f) S"
  by (simp add: inj_on_def)

definition run_vals :: "u32 \<times> u32 \<times> u32 \<Rightarrow> u64 list" where
  "run_vals = (\<lambda>(f, a, z). map (\<lambda>i. new_from_parts f (word_of_nat i)) [unat a..<Suc (unat z)])"

lemma set_u32_run: "word_of_nat ` {unat a..<Suc (unat z)} = {a..z :: u32}"
proof (intro set_eqI iffI)
  fix v assume "v \<in> {a..z}"
  then have "unat v \<in> {unat a..<Suc (unat z)}" "v = word_of_nat (unat v)"
    by (simp_all add: word_le_nat_alt less_Suc_eq_le)
  then show "v \<in> word_of_nat ` {unat a..<Suc (unat z)}" by blast
next
  fix v :: u32 assume "v \<in> word_of_nat ` {unat a..<Suc (unat z)}"
  then obtain i where i: "v = word_of_nat i" "unat a \<le> i" "i \<le> unat z" by auto
  moreover have "unat v = i" using i unat_u32_bound[of z] by (simp add: unat_of_nat)
  ultimately show "v \<in> {a..z}" by (simp add: word_le_nat_alt)
qed

lemma runs_separated_Cons:
  "runs_separated ((a, z) # rs) \<Longrightarrow> a \<le> z \<and> runs_separated rs \<and> (\<forall>v \<in> runs_cover rs. z < v)"
proof (induction rs arbitrary: a z)
  case (Cons r rs)
  obtain a' z' where r: "r = (a', z')" by fastforce
  have *: "runs_separated ((a', z') # rs)" "a \<le> z" "unat z + 1 < unat a'" using Cons.prems r by simp_all
  from Cons.IH[OF *(1)] have "a' \<le> z'" "\<forall>v \<in> runs_cover rs. z' < v" by simp_all
  with * show ?case by (fastforce simp: r word_less_nat_alt word_le_nat_alt)
qed simp

lemma map_run_vals:
  "runs_separated rs \<Longrightarrow>
   concat (map (\<lambda>r. run_vals (f, r)) rs) = map (new_from_parts f) (sorted_list_of_set (runs_cover rs))"
proof (induction rs)
  case (Cons r rs)
  obtain a z where r: "r = (a, z)" by fastforce
  note sep = runs_separated_Cons[OF Cons.prems[unfolded r]]
  define part where "part = map (word_of_nat :: nat \<Rightarrow> u32) [unat a..<Suc (unat z)]"
  have nats: "map unat part = [unat a..<Suc (unat z)]" unfolding part_def
    using unat_u32_bound[of z] by (intro nth_equalityI) (auto simp: unat_of_nat nth_append)
  have "sorted_wrt (<) (map unat part)" unfolding nats by (rule sorted_wrt_upt)
  then have "sorted_wrt (<) part"
    unfolding sorted_wrt_map by (rule sorted_wrt_mono_rel[rotated]) (simp add: word_less_nat_alt)
  moreover have "set part = {a..z}" unfolding part_def by (simp only: set_map set_upt set_u32_run)
  ultimately have "sorted_list_of_set (runs_cover (r # rs)) = part @ sorted_list_of_set (runs_cover rs)"
    using sep by (intro strict_sorted_equal) (auto simp: r sorted_wrt_append intro: le_less_trans)
  moreover have "run_vals (f, r) = map (new_from_parts f) part" by (simp add: run_vals_def r part_def)
  ultimately show ?case using Cons.IH sep by simp
qed simp

lemma takeWhile_fragment:
  assumes "sorted (x # xs)"
  defines "same \<equiv> \<lambda>r. addr_fragment_id r = addr_fragment_id x"
  shows "\<forall>y \<in> set (dropWhile same (x # xs)). addr_fragment_id x < addr_fragment_id y"
    and "set (dropWhile same (x # xs)) = {y \<in> set (x # xs). \<not> same y}"
    and "takeWhile same (x # xs) = filter same (x # xs)"
proof -
  have le: "addr_fragment_id y \<le> addr_fragment_id z" if "y \<le> z" for y z
    using that by (auto simp: row_address_le_iff)
  have ge: "addr_fragment_id x \<le> addr_fragment_id y" if "y \<in> set (x # xs)" for y
    using assms(1) that le by auto
  show drop: "\<forall>y \<in> set (dropWhile same (x # xs)). addr_fragment_id x < addr_fragment_id y"
  proof
    fix y assume y: "y \<in> set (dropWhile same (x # xs))"
    define h where "h = hd (dropWhile same (x # xs))"
    have ne: "dropWhile same (x # xs) \<noteq> []" using y by (metis empty_iff list.set(1))
    have "\<not> same h" unfolding h_def using hd_dropWhile[OF ne] .
    moreover have "h \<in> set (x # xs)" unfolding h_def using ne by (meson hd_in_set set_dropWhileD)
    ultimately have "addr_fragment_id x < addr_fragment_id h"
      using ge[of h] by (auto simp: same_def order.order_iff_strict)
    moreover have "h \<le> y"
    proof -
      have "sorted (dropWhile same (x # xs))" using assms(1) by (rule sorted_wrt_dropWhile)
      then show ?thesis using y ne unfolding h_def by (cases "dropWhile same (x # xs)") auto
    qed
    ultimately show "addr_fragment_id x < addr_fragment_id y" using le less_le_trans by blast
  qed
  have not: "\<forall>y \<in> set (dropWhile same (x # xs)). \<not> same y" using drop by (auto simp: same_def)
  have "set (x # xs) = set (takeWhile same (x # xs)) \<union> set (dropWhile same (x # xs))"
    by (metis set_append takeWhile_dropWhile_id)
  moreover have "\<forall>y \<in> set (takeWhile same (x # xs)). same y" by (meson set_takeWhileD)
  ultimately show "set (dropWhile same (x # xs)) = {y \<in> set (x # xs). \<not> same y}" using not by blast
  have "filter same (dropWhile same (x # xs)) = []" unfolding filter_empty_conv using not by blast
  then show "takeWhile same (x # xs) = filter same (x # xs)"
    by (metis append_Nil2 filter_append filter_True set_takeWhileD takeWhile_dropWhile_id)
qed

lemma offsets_of_fragment:
  assumes "\<forall>y \<in> set xs. addr_fragment_id y = f"
  shows "sorted xs \<Longrightarrow> sorted (map addr_row_offset xs)"
    and "sorted_wrt (<) xs \<Longrightarrow> sorted_wrt (<) (map addr_row_offset xs)"
  using assms by (induction xs) (auto simp: row_address_le_iff row_address_less_iff)

context roaring
begin

subsection \<open>Size and iterators\<close>

lemma len_foldl_None: "foldl (\<lambda>acc next. case acc of None \<Rightarrow> None | Some a \<Rightarrow> map_option (\<lambda>n. n + a) next) None xs = None"
  by (induction xs) auto

lemma len_foldl:
  "bt_wf m \<Longrightarrow>
   foldl (\<lambda>acc next. case acc of None \<Rightarrow> None | Some a \<Rightarrow> map_option (\<lambda>n. n + a) next) (Some k)
       (map (\<lambda>(_, s). case s of Full \<Rightarrow> None | Partial indices \<Rightarrow> Some (rb_len R indices)) m) =
     (if Full \<in> snd ` set m then None else Some (k + word_of_nat (card (tm_rows R m))))"
proof (induction m arbitrary: k)
  case (Cons e m)
  obtain f s where e: "e = (f, s)" by fastforce
  then have wf: "bt_wf m" and wf': "bt_wf ((f, s) # m)" using Cons.prems by (simp_all add: bt_wf_Cons)
  show ?case
  proof (cases s)
    case Full
    then show ?thesis by (simp add: e len_foldl_None)
  next
    case (Partial b)
    have "card (tm_rows R (e # m)) = card (rb_bits R b) + card (tm_rows R m)"
      unfolding e tm_rows_Cons(1)[OF wf'] using tm_rows_Cons(2)[OF wf', of R]
      by (subst card_Un_disjoint) (simp_all add: Partial card_image inj_new_from_parts)
    then show ?thesis using Cons.IH[OF wf] by (auto simp: e Partial len_spec algebra_simps)
  qed
qed simp

lemma len_eq: "bt_wf m \<Longrightarrow> tm_len R m =
  (if Full \<in> snd ` set m then None else Some (word_of_nat (card (tm_rows R m))))"
  unfolding tm_len_def using len_foldl[of m 0] by simp

lemma sorted_rows_Cons:
  assumes "bt_wf ((f, Partial b) # m)"
  shows "sorted_list_of_set (tm_rows R ((f, Partial b) # m)) =
    map (new_from_parts f) (rb_iter R b) @ sorted_list_of_set (tm_rows R m)"
proof (rule strict_sorted_equal)
  have "sorted_wrt (<) (map (new_from_parts f) (rb_iter R b))"
    unfolding sorted_wrt_map new_from_parts_less using iter_sorted[of b]
    by (rule sorted_wrt_mono_rel[rotated]) simp
  moreover have "new_from_parts f v < x" if "x \<in> tm_rows R m" for v x
    using tm_rows_greater[OF assms that] by (simp add: row_address_less_iff)
  ultimately show "sorted_wrt (<) (map (new_from_parts f) (rb_iter R b) @ sorted_list_of_set (tm_rows R m))"
    by (auto simp: sorted_wrt_append)
  show "set (sorted_list_of_set (tm_rows R ((f, Partial b) # m))) =
    set (map (new_from_parts f) (rb_iter R b) @ sorted_list_of_set (tm_rows R m))"
    using tm_rows_Cons(1)[OF assms, of R] by (simp add: set_iter)
qed simp

lemma row_addrs_eq: "bt_wf m \<Longrightarrow> tm_row_addrs R m =
  (if Full \<in> snd ` set m then None else Some (sorted_list_of_set (tm_rows R m)))"
proof -
  define F where "F = (\<lambda>(frag_id, s). case s of Full \<Rightarrow> None
    | Partial bitmap \<Rightarrow> Some (map (new_from_parts frag_id) (rb_iter R bitmap)))"
  assume wf: "bt_wf m"
  have "length (List.map_filter F m) = length m \<longleftrightarrow> Full \<notin> snd ` set m"
    "length (List.map_filter F m) \<le> length m"
    by (induction m) (auto simp: List.map_filter_simps F_def split: row_addr_selection.splits)
  moreover have "Full \<notin> snd ` set m \<longrightarrow> concat (List.map_filter F m) = sorted_list_of_set (tm_rows R m)"
    using wf
  proof (induction m)
    case (Cons e m)
    obtain f s where e: "e = (f, s)" by fastforce
    then have "bt_wf m" "bt_wf ((f, s) # m)" using Cons.prems by (simp_all add: bt_wf_Cons)
    then show ?case using Cons.IH sorted_rows_Cons[of f _ m]
      by (cases s) (auto simp: e List.map_filter_simps F_def)
  qed (simp add: List.map_filter_simps)
  moreover have "tm_row_addrs R m = (if length (List.map_filter F m) \<noteq> length m then None else Some (concat (List.map_filter F m)))"
    unfolding tm_row_addrs_def Let_def F_def ..
  ultimately show ?thesis by simp
qed

lemma into_addr_iter_eq: "bt_wf m \<Longrightarrow> tm_into_addr_iter R m =
  (if Full \<in> snd ` set m then Inl Panic else Inr (sorted_list_of_set (tm_rows R m)))"
proof -
  define F where "F = (\<lambda>(fragment :: u32, s). case s of Full \<Rightarrow> Inl Panic
    | Partial bitmap \<Rightarrow> Inr (map (new_from_parts fragment) (rb_iter R bitmap)))"
  assume wf: "bt_wf m"
  have F: "tm_into_addr_iter R m = bindr (mapr F m) (\<lambda>parts. Inr (concat parts))" for m
    unfolding tm_into_addr_iter_def F_def new_from_parts_def ..
  show ?thesis using wf unfolding F
  proof (induction m)
    case (Cons e m)
    obtain f s where e: "e = (f, s)" by fastforce
    then have "bt_wf m" "bt_wf ((f, s) # m)" using Cons.prems by (simp_all add: bt_wf_Cons)
    then show ?case using Cons.IH sorted_rows_Cons[of f _ m]
      by (cases s; cases "mapr F m") (auto simp: e F_def split: if_splits)
  qed simp
qed

lemma iter_runs_eq:
  assumes "bt_wf m"
  shows "if Full \<in> snd ` set m then tm_iter_runs R m = Inl Panic
    else \<exists>runs. tm_iter_runs R m = Inr runs \<and> concat (map run_vals runs) = sorted_list_of_set (tm_rows R m) \<and>
      (\<forall>(f, a, z) \<in> set runs. a \<le> z)"
proof -
  define F where "F = (\<lambda>(fragment :: u32, s). case s of Full \<Rightarrow> Inl Panic
    | Partial bitmap \<Rightarrow> Inr (map (\<lambda>r. (fragment, r)) (rb_runs R bitmap)))"
  have F: "tm_iter_runs R m = bindr (mapr F m) (\<lambda>parts. Inr (concat parts))" for m
    unfolding tm_iter_runs_def F_def ..
  have le: "\<forall>(a, z) \<in> set rs. a \<le> z" if "runs_separated rs" for rs
    using that by (induction rs) (auto dest: runs_separated_Cons)
  have iter: "concat (map run_vals (map (\<lambda>r. (f, r)) (rb_runs R b))) = map (new_from_parts f) (rb_iter R b)" for f b
    using map_run_vals[OF runs_spec(2)[of b], of f] by (simp add: comp_def runs_spec(1) iter_eq)
  show ?thesis using assms unfolding F
  proof (induction m)
    case (Cons e m)
    obtain f s where e: "e = (f, s)" by fastforce
    then have wf: "bt_wf m" "bt_wf ((f, s) # m)" using Cons.prems by (simp_all add: bt_wf_Cons)
    note IH = Cons.IH[OF wf(1)]
    show ?case
    proof (cases s)
      case (Partial b)
      have "\<forall>(f, a, z) \<in> set (map (\<lambda>r. (f, r)) (rb_runs R b)). a \<le> z"
        using le[OF runs_spec(2)[of b]] by auto
      then show ?thesis using IH iter[of f b] sorted_rows_Cons[of f b m] wf(2)
        by (cases "mapr F m") (auto simp: e F_def Partial split: if_splits)
    qed (simp add: e F_def)
  qed simp
qed

subsection \<open>Fragments\<close>

lemma retain_fragments_rows:
  "bt_wf m \<Longrightarrow> tm_rows R (tm_retain_fragments m fs) = {x \<in> tm_rows R m. addr_fragment_id x \<in> set fs}"
  by (auto simp: tm_rows_def tm_retain_fragments_def frag_bits_def opt_bits_def bt_get_retain split: option.splits if_splits)

lemma insert_fragment_rows:
  "tm_rows R (tm_insert_fragment m f) = tm_rows R m \<union> {x. addr_fragment_id x = f}"
  by (auto simp: tm_rows_def tm_insert_fragment_def)

lemma optimize_rows: "tm_rows R (tm_optimize R m) = tm_rows R m"
proof -
  have "frag_bits R (tm_optimize R m) f = frag_bits R m f" for f
    by (cases "bt_get m f") (auto simp: tm_optimize_def frag_bits_def split: row_addr_selection.splits)
  then show ?thesis by (simp add: tm_rows_def)
qed

subsection \<open>Union of many maps\<close>

lemma selection_union_all_bits:
  "sel_bits R (selection_union_all R ss) = \<Union> (sel_bits R ` set ss)"
proof (cases "Full \<in> set ss")
  case False
  then have "\<Union> (rb_bits R ` set (List.map_filter (\<lambda>s. case s of Full \<Rightarrow> None | Partial bitmap \<Rightarrow> Some bitmap) ss)) =
      \<Union> (sel_bits R ` set ss)"
    by (induction ss) (auto simp: List.map_filter_simps split: row_addr_selection.splits)
  with False show ?thesis by (simp add: selection_union_all_def Let_def)
qed (force simp: selection_union_all_def Let_def)

lemma union_all_frag_bits:
  assumes "list_all bt_wf ms"
  shows "frag_bits R (tm_union_all R ms) f = (\<Union>m \<in> set ms. frag_bits R m f)"
    "bt_wf (tm_union_all R ms)"
proof -
  define bits where "bits = (\<lambda>acc. \<Union> (sel_bits R ` set (case bt_get acc f of None \<Rightarrow> [] | Some v \<Rightarrow> v)))"
  define step where "step = (\<lambda>new_map (fragment :: u32, selection). bt_insert new_map fragment
    ((case bt_get new_map fragment of None \<Rightarrow> [] | Some v \<Rightarrow> v) @ [selection :: 'b row_addr_selection]))"
  have get: "bt_get (step acc (k, s)) k' = (if k' = k then Some ((case bt_get acc k of None \<Rightarrow> [] | Some v \<Rightarrow> v) @ [s]) else bt_get acc k')"
    for acc k s k' by (simp add: step_def)
  have one: "bits (foldl step acc m) = bits acc \<union> frag_bits R m f" "bt_wf acc \<Longrightarrow> bt_wf (foldl step acc m)"
    if "bt_wf m" for m acc
  proof -
    show "bits (foldl step acc m) = bits acc \<union> frag_bits R m f"
      unfolding bits_def frag_bits_def
      using foldl_entries_get[of step "\<lambda>l s. Some ((case l of None \<Rightarrow> [] | Some v \<Rightarrow> v) @ [s])", OF get bt_wf_distinct[OF that], of acc f]
      by (auto split: option.splits)
    show "bt_wf acc \<Longrightarrow> bt_wf (foldl step acc m)"
      by (rule foldl_invariant) (auto simp: step_def)
  qed
  have "bits (foldl (foldl step) acc ms) = bits acc \<union> (\<Union>m \<in> set ms. frag_bits R m f) \<and>
    (bt_wf acc \<longrightarrow> bt_wf (foldl (foldl step) acc ms))" for acc
    using assms by (induction ms arbitrary: acc) (auto simp: one)
  from this[of "[]"] have all: "bits (foldl (foldl step) [] ms) = (\<Union>m \<in> set ms. frag_bits R m f)"
    "bt_wf (foldl (foldl step) [] ms)" by (simp_all add: bits_def)
  show "bt_wf (tm_union_all R ms)" using all(2) unfolding tm_union_all_def step_def by simp
  have "frag_bits R (tm_union_all R ms) f = bits (foldl (foldl step) [] ms)"
    unfolding tm_union_all_def step_def[symmetric] bits_def frag_bits_def
    by (cases "bt_get (foldl (foldl step) [] ms) f") (simp_all add: selection_union_all_bits)
  then show "frag_bits R (tm_union_all R ms) f = (\<Union>m \<in> set ms. frag_bits R m f)" using all(1) by simp
qed

lemma union_all_rows: "list_all bt_wf ms \<Longrightarrow> tm_rows R (tm_union_all R ms) = \<Union> (tm_rows R ` set ms)"
  by (auto simp: tm_rows_def union_all_frag_bits)

subsection \<open>Construction from sorted rows\<close>

lemma from_sorted_loop_rows:
  assumes "sorted_wrt (<) xs" "bt_wf inner" "\<forall>x \<in> set xs. frag_bits R inner (addr_fragment_id x) = {}"
    "tm_canonical R inner"
  shows "\<exists>m. tm_from_sorted_loop R inner xs = Inr m \<and> bt_wf m \<and> tm_canonical R m \<and>
    tm_rows R m = tm_rows R inner \<union> set xs"
  using assms
proof (induction "length xs" arbitrary: xs inner rule: less_induct)
  case less
  show ?case
  proof (cases xs)
    case (Cons x ys)
    define same where "same = (\<lambda>r. addr_fragment_id r = addr_fragment_id x)"
    note parts = takeWhile_fragment[OF strict_sorted_sorted[OF less.prems(1)[unfolded Cons]], folded same_def]
    have "sorted_wrt (<) (map addr_row_offset (takeWhile same (x # ys)))"
      unfolding parts(3) using less.prems(1)[unfolded Cons]
      by (intro offsets_of_fragment(2)[of _ "addr_fragment_id x"] sorted_wrt_filter) (auto simp: same_def)
    obtain b where b: "rb_from_sorted_iter R (map addr_row_offset (takeWhile same (x # ys))) = Some b"
      "rb_bits R b = addr_row_offset ` set (takeWhile same (x # ys))"
      using \<open>sorted_wrt (<) (map addr_row_offset (takeWhile same (x # ys)))\<close> from_sorted_iter_strict[of "map addr_row_offset (takeWhile same (x # ys))"] by auto
    define inner' where "inner' = bt_insert inner (addr_fragment_id x) (Partial b)"
    have loop: "tm_from_sorted_loop R inner xs = tm_from_sorted_loop R inner' (dropWhile same (x # ys))"
      using b(1) by (simp only: Cons tm_from_sorted_loop.simps Let_def same_def[symmetric] inner'_def option.case)
    have bits: "rb_bits R b = {addr_row_offset y | y. y \<in> set xs \<and> same y}"
      unfolding b(2) parts(3) by (auto simp: Cons)
    have "same x" by (simp add: same_def)
    then have "rb_bits R b \<noteq> {}" using bits by (auto simp: Cons)
    have fresh: "frag_bits R inner (addr_fragment_id x) = {}" using less.prems(3) by (simp add: Cons)
    have rows: "tm_rows R inner' = tm_rows R inner \<union> {y \<in> set xs. same y}"
      using fresh by (auto simp: tm_rows_def inner'_def bits same_def) (metis row_address_eq_iff)
    have drop: "set (dropWhile same (x # ys)) = {y \<in> set xs. \<not> same y}"
      using parts(2) by (simp only: Cons same_def)
    have "length (dropWhile same (x # ys)) < length xs"
      using \<open>same x\<close> length_dropWhile_le[of same ys] by (simp add: Cons)
    moreover have "sorted_wrt (<) (dropWhile same (x # ys))"
      using less.prems(1) unfolding Cons by (rule sorted_wrt_dropWhile)
    moreover have "\<forall>y \<in> set (dropWhile same (x # ys)). frag_bits R inner' (addr_fragment_id y) = {}"
      using less.prems(3) drop parts(1) by (auto simp: inner'_def)
    moreover have "bt_wf inner'" "tm_canonical R inner'"
      using less.prems(2,4) \<open>rb_bits R b \<noteq> {}\<close> by (simp_all add: inner'_def tm_canonical_get)
    ultimately obtain m where "tm_from_sorted_loop R inner' (dropWhile same (x # ys)) = Inr m" "bt_wf m" "tm_canonical R m"
      "tm_rows R m = tm_rows R inner' \<union> set (dropWhile same (x # ys))"
      using less.hyps by blast
    then show ?thesis using loop rows drop by auto
  qed (use less.prems in simp)
qed

lemma from_sorted_iter_ok:
  "sorted_wrt (<) xs \<Longrightarrow>
   \<exists>m. tm_from_sorted_iter R xs = Inr m \<and> bt_wf m \<and> tm_canonical R m \<and> tm_rows R m = set xs"
  using from_sorted_loop_rows[of xs "[]"] by (simp add: tm_from_sorted_iter_def tm_canonical_def)

end

end
