(* ===== verification/Treemap_Ranges.thy ===== *)
theory Treemap_Ranges
  imports Treemap_Build
begin

text \<open>
  Row-address maps from many sorted runs (\<open>from_sorted_runs\<close>) and from ranges (\<open>insert_range\<close>),
  and the conversion between bitmaps and lists of ranges. \<open>insert_range\<close> is a loop over fragment
  ids that only ends when the last fragment of the range is not the largest one; the lemmas say
  when it returns and what it returns then.
\<close>

subsection \<open>Many sorted runs\<close>

definition bucket_bits :: "(u32, u32 list \<times> bool) btree \<Rightarrow> u32 \<Rightarrow> u32 set" where
  "bucket_bits b f = (case bt_get b f of None \<Rightarrow> {} | Some (offs, _) \<Rightarrow> set offs)"

definition bucket_rows :: "(u32, u32 list \<times> bool) btree \<Rightarrow> u64 set" where
  "bucket_rows b = {x. addr_row_offset x \<in> bucket_bits b (addr_fragment_id x)}"

definition bucket_ok :: "(u32, u32 list \<times> bool) btree \<Rightarrow> bool" where
  "bucket_ok b \<longleftrightarrow> bt_wf b \<and> (\<forall>f offs fl. bt_get b f = Some (offs, fl) \<longrightarrow> offs \<noteq> [] \<and> (fl \<longrightarrow> sorted offs))"

lemma sorted_le_last_all: "sorted xs \<Longrightarrow> \<forall>v \<in> set xs. v \<le> last xs" for xs :: "'a::linorder list"
  by (induction xs) (auto simp: last_in_set)

lemma sorted_hd_le_all: "sorted xs \<Longrightarrow> \<forall>v \<in> set xs. hd xs \<le> v" for xs :: "'a::linorder list"
  by (cases xs) auto

lemma same_fragment_rows:
  "addr_fragment_id x = f \<Longrightarrow>
   addr_row_offset x \<in> addr_row_offset ` {y \<in> S. addr_fragment_id y = f} \<longleftrightarrow> x \<in> S"
  by (auto simp: image_iff) (metis row_address_eq_iff)

lemma bucket_run_ok:
  assumes "sorted run" "bucket_ok b"
  shows "bucket_ok (bucket_run b run) \<and> bucket_rows (bucket_run b run) = bucket_rows b \<union> set run"
  using assms
proof (induction "length run" arbitrary: b run rule: less_induct)
  case less
  show ?case
  proof (cases run)
    case (Cons x xs)
    define f where "f = addr_fragment_id x"
    define same where "same = (\<lambda>r. addr_fragment_id r = f)"
    obtain offs fl where e: "(case bt_get b f of None \<Rightarrow> ([], True) | Some e \<Rightarrow> e) = (offs, fl)" by fastforce
    define fl' where "fl' = (if fl \<and> offs \<noteq> [] \<and> addr_row_offset x < last offs then False else fl)"
    define seg where "seg = map addr_row_offset (takeWhile same (x # xs))"
    define b' where "b' = bt_insert b f (offs @ seg, fl')"
    have step: "bucket_run b (x # xs) = bucket_run b' (dropWhile same (x # xs))"
      by (simp only: bucket_run.simps Let_def f_def[symmetric] same_def[symmetric] e prod.case seg_def b'_def fl'_def)
    note parts = takeWhile_fragment[OF less.prems(1)[unfolded Cons], folded f_def, folded same_def]
    have "same x" by (simp add: same_def f_def)
    have "sorted seg" unfolding seg_def parts(3) using less.prems(1)[unfolded Cons]
      by (intro offsets_of_fragment(1)[of _ f] sorted_wrt_filter) (auto simp: same_def)
    have "set seg = addr_row_offset ` set (filter same (x # xs))" unfolding seg_def parts(3) by simp
    then have set_seg: "set seg = addr_row_offset ` {y \<in> set run. addr_fragment_id y = f}"
      by (simp only: set_filter Cons same_def)
    have seg: "seg \<noteq> []" "hd seg = addr_row_offset x" using \<open>same x\<close> by (auto simp: seg_def)
    have old: "fl \<longrightarrow> sorted offs" "set offs = bucket_bits b f"
      using e less.prems(2) by (auto simp: bucket_ok_def bucket_bits_def split: option.splits)
    have "sorted (offs @ seg)" if "fl'"
    proof -
      have "fl" "offs = [] \<or> last offs \<le> hd seg" using that by (auto simp: fl'_def seg(2) not_less split: if_splits)
      moreover have "\<forall>v \<in> set offs. v \<le> last offs" if "sorted offs" using that by (rule sorted_le_last_all)
      moreover have "\<forall>v \<in> set seg. hd seg \<le> v" using \<open>sorted seg\<close> by (rule sorted_hd_le_all)
      ultimately show ?thesis using old(1) \<open>sorted seg\<close> by (cases "offs = []") (force simp: sorted_append)+
    qed
    then have ok: "bucket_ok b'" using less.prems(2) seg(1) by (auto simp: bucket_ok_def b'_def)
    have "bucket_bits b' g = (if g = f then bucket_bits b f \<union> set seg else bucket_bits b g)" for g
      unfolding b'_def old(2)[symmetric] by (simp add: bucket_bits_def)
    then have rows: "bucket_rows b' = bucket_rows b \<union> {y \<in> set run. same y}"
      using same_fragment_rows[where S = "set run" and f = f]
      by (auto simp: bucket_rows_def set_seg same_def)
    have "sorted (dropWhile same (x # xs))" using less.prems(1)[unfolded Cons] by (rule sorted_wrt_dropWhile)
    moreover have "length (dropWhile same (x # xs)) < length run"
      using \<open>same x\<close> length_dropWhile_le[of same xs] by (simp add: Cons)
    ultimately have "bucket_ok (bucket_run b' (dropWhile same (x # xs)))"
      "bucket_rows (bucket_run b' (dropWhile same (x # xs))) = bucket_rows b' \<union> set (dropWhile same (x # xs))"
      using less.hyps ok by blast+
    moreover have "bucket_run b run = bucket_run b' (dropWhile same (x # xs))" by (simp only: Cons step)
    moreover have "set (dropWhile same (x # xs)) = {y \<in> set run. \<not> same y}" 
      using parts(2) by (simp only: Cons same_def)
    moreover have "{y \<in> set run. same y} \<union> {y \<in> set run. \<not> same y} = set run" by blast
    ultimately show ?thesis using rows by (simp only: Un_assoc)
  qed (use less.prems in simp)
qed

lemma buckets_ok:
  "list_all sorted runs \<Longrightarrow> bucket_ok b \<Longrightarrow>
   bucket_ok (foldl bucket_run b runs) \<and> bucket_rows (foldl bucket_run b runs) = bucket_rows b \<union> \<Union> (set ` set runs)"
proof (induction runs arbitrary: b)
  case (Cons run runs)
  then show ?case using bucket_run_ok[of run b] by auto
qed simp

lemma dedup_sorted:
  "sorted xs \<Longrightarrow> sorted_wrt (<) (dedup xs) \<and> set (dedup xs) = set xs \<and> (xs \<noteq> [] \<longrightarrow> hd (dedup xs) = hd xs)"
  for xs :: "'a::linorder list"
  by (induction xs rule: dedup.induct) (auto simp: order.order_iff_strict)

definition tm_partial :: "'b row_addr_tree_map \<Rightarrow> bool" where
  "tm_partial m \<longleftrightarrow> (\<forall>f. bt_get m f \<noteq> Some Full)"

lemma tm_partial_entries: "bt_wf m \<Longrightarrow> Full \<in> snd ` set m \<longleftrightarrow> \<not> tm_partial m"
  by (force simp: tm_partial_def simp flip: bt_entry_iff)

context roaring
begin

lemma from_sorted_runs_ok:
  assumes "list_all sorted runs"
  shows "\<exists>m. tm_from_sorted_runs R runs = Inr m \<and> bt_wf m \<and> tm_canonical R m \<and> tm_rows R m = \<Union> (set ` set runs)"
proof -
  define b where "b = foldl bucket_run [] runs"
  have "bucket_ok []" by (simp add: bucket_ok_def)
  with buckets_ok[OF assms this] have ok: "bucket_ok b" "bucket_rows b = \<Union> (set ` set runs)"
    by (simp_all add: b_def bucket_rows_def bucket_bits_def)
  define conv where "conv = (\<lambda>(_ :: u32) (offsets, is_sorted).
    Partial (the (rb_from_sorted_iter R (dedup (if is_sorted then offsets else sort offsets)))))"
  have entry: "\<exists>c. rb_from_sorted_iter R (dedup (if is_sorted then offsets else sort offsets)) = Some c \<and> rb_bits R c = set offsets"
    if "(f, offsets, is_sorted) \<in> set b" for f offsets is_sorted
  proof -
    have "is_sorted \<longrightarrow> sorted offsets" using that ok(1) bt_entry_iff[of b f] by (auto simp: bucket_ok_def)
    then have "sorted (if is_sorted then offsets else sort offsets)" by simp
    from dedup_sorted[OF this]
    have *: "sorted_wrt (<) (dedup (if is_sorted then offsets else sort offsets))"
      "set (dedup (if is_sorted then offsets else sort offsets)) = set offsets" by simp_all
    show ?thesis by (rule from_sorted_iter_strict[OF *(1)]) (use *(2) in blast)
  qed
  have "tm_from_sorted_runs R runs = Inr (bt_map conv b)"
    unfolding tm_from_sorted_runs_def b_def[symmetric] bt_map_def
    by (rule mapr_Inr) (auto simp: conv_def dest!: entry)
  moreover have "frag_bits R (bt_map conv b) f = bucket_bits b f" for f
  proof (cases "bt_get b f")
    case (Some e)
    obtain offsets is_sorted where e: "e = (offsets, is_sorted)" by fastforce
    then have "(f, offsets, is_sorted) \<in> set b" using Some ok(1) by (simp add: bucket_ok_def bt_entry_iff)
    from entry[OF this] obtain c
      where "rb_from_sorted_iter R (dedup (if is_sorted then offsets else sort offsets)) = Some c" "rb_bits R c = set offsets"
      by blast
    then show ?thesis by (simp add: frag_bits_def bucket_bits_def Some e conv_def)
  qed (simp add: frag_bits_def bucket_bits_def)
  moreover have "bucket_bits b f \<noteq> {}" if "bt_get b f \<noteq> None" for f
    using that ok(1) by (auto simp: bucket_ok_def bucket_bits_def)
  ultimately show ?thesis
    using ok by (auto simp: tm_canonical_frag_bits bucket_ok_def tm_rows_def bucket_rows_def)
qed

subsection \<open>Ranges\<close>

lemma insert_range_step_rows:
  assumes "insert_range_step R f lo hi (m, c) = (m', c')"
  shows "tm_rows R m' = tm_rows R m \<union> new_from_parts f ` {lo..hi}"
    "c' = c + word_of_nat (card (new_from_parts f ` {lo..hi} - tm_rows R m))"
    "bt_wf m \<Longrightarrow> bt_wf m'" "tm_partial m \<Longrightarrow> tm_partial m'"
    "bt_get m' f = None \<longleftrightarrow> False" "g \<noteq> f \<Longrightarrow> bt_get m' g = bt_get m g"
proof -
  have bits: "frag_bits R m' g = (if g = f then frag_bits R m f \<union> {lo..hi} else frag_bits R m g)" for g
    using assms by (auto simp: insert_range_step_def frag_bits_get case_prod_beta split: option.splits row_addr_selection.splits)
  then show "tm_rows R m' = tm_rows R m \<union> new_from_parts f ` {lo..hi}"
    by (auto simp: tm_rows_def set_range_vals_new_from_parts)
  have "c' = c + word_of_nat (card ({lo..hi} - frag_bits R m f))"
    using assms by (auto simp: insert_range_step_def frag_bits_get snd_insert_range case_prod_beta split: option.splits row_addr_selection.splits)
  moreover have "new_from_parts f ` {lo..hi} - tm_rows R m = new_from_parts f ` ({lo..hi} - frag_bits R m f)" by auto
  ultimately show "c' = c + word_of_nat (card (new_from_parts f ` {lo..hi} - tm_rows R m))"
    by (simp add: card_image inj_new_from_parts)
  show "bt_wf m \<Longrightarrow> bt_wf m'" "tm_partial m \<Longrightarrow> tm_partial m'" "bt_get m' f = None \<longleftrightarrow> False" "g \<noteq> f \<Longrightarrow> bt_get m' g = bt_get m g"
    using assms by (auto simp: insert_range_step_def tm_partial_def case_prod_beta split: option.splits row_addr_selection.splits if_splits)
qed

lemma insert_range_loop_rows:
  assumes "eh \<noteq> - 1" "bt_wf m"
  shows "\<exists>m'. insert_range_loop R eh el sh sl (m, c) =
      Some (m', c + word_of_nat (card ({new_from_parts sh sl..new_from_parts eh el} - tm_rows R m))) \<and>
    bt_wf m' \<and> (tm_partial m \<longrightarrow> tm_partial m') \<and>
    tm_rows R m' = tm_rows R m \<union> {new_from_parts sh sl..new_from_parts eh el}"
  using assms(2)
proof (induction "Suc (unat eh) - unat sh" arbitrary: sh sl m c rule: less_induct)
  case less
  define hi where "hi = (if sh = eh then el else - 1)"
  obtain m1 c1 where step: "insert_range_step R sh sl hi (m, c) = (m1, c1)" by fastforce
  show ?case
  proof (cases "sh \<le> eh")
    case True
    have suc: "unat (sh + 1) = unat sh + 1"
      using True assms(1) unat_add_of_nat[of sh 1] unat_u32_bound[of eh] unat_minus_1[where ?'a = 32]
      by (auto simp: word_le_nat_alt word_unat_eq_iff)
    define img where "img = new_from_parts sh ` {sl..hi}"
    define rest where "rest = {new_from_parts (sh + 1) 0..new_from_parts eh el}"
    have hi_iff: "unat v \<le> unat hi \<longleftrightarrow> (unat sh = unat eh \<longrightarrow> unat v \<le> unat el)" for v :: u32
      unfolding hi_def using unat_u32_bound[of v] by (simp add: unat_minus_1 word_unat_eq_iff[symmetric])
    have split: "{new_from_parts sh sl..new_from_parts eh el} = img \<union> rest" "img \<inter> rest = {}"
      using True suc unfolding img_def rest_def
      by (auto simp: set_range_vals_new_from_parts row_address_le_iff hi_iff word_less_nat_alt word_le_nat_alt word_unat_eq_iff)
    note st = insert_range_step_rows[OF step, folded img_def]
    have "Suc (unat eh) - unat (sh + 1) < Suc (unat eh) - unat sh"
      using True suc by (simp add: word_le_nat_alt)
    from less.hyps[OF this st(3)[OF less.prems], of 0 c1, folded rest_def] obtain m2 where m2:
      "insert_range_loop R eh el (sh + 1) 0 (m1, c1) = Some (m2, c1 + word_of_nat (card (rest - tm_rows R m1)))"
      "bt_wf m2" "tm_partial m1 \<longrightarrow> tm_partial m2" "tm_rows R m2 = tm_rows R m1 \<union> rest" by blast
    have "rest - tm_rows R m1 = rest - tm_rows R m" using st(1) split(2) by auto
    moreover have "card (img \<union> rest - tm_rows R m) = card (img - tm_rows R m) + card (rest - tm_rows R m)"
      using split(2) by (subst card_Un_disjoint[symmetric]) (auto simp: Un_Diff)
    ultimately have "c1 + word_of_nat (card (rest - tm_rows R m1)) = c + word_of_nat (card (img \<union> rest - tm_rows R m))"
      by (simp add: st(2))
    moreover have "insert_range_loop R eh el sh sl (m, c) = insert_range_loop R eh el (sh + 1) 0 (m1, c1)"
      using True by (subst insert_range_loop.simps) (simp add: Let_def step hi_def[symmetric])
    ultimately show ?thesis using m2 st(1,4) split(1) by auto
  next
    case False
    then have "insert_range_loop R eh el sh sl (m, c) = Some (m, c)" by (subst insert_range_loop.simps) simp
    moreover have "{new_from_parts sh sl..new_from_parts eh el} = {}"
      using False by (auto simp: row_address_le_iff[of "new_from_parts sh sl"] new_from_parts_less not_le less_le)
    ultimately show ?thesis using less.prems by simp
  qed
qed

lemma insert_range_rows:
  assumes "bt_wf m" "addr_fragment_id (end_address e) \<noteq> - 1"
  shows "\<exists>m'. tm_insert_range R m s e = Some (m', word_of_nat (card ({start_address s..end_address e} - tm_rows R m))) \<and>
    bt_wf m' \<and> (tm_partial m \<longrightarrow> tm_partial m') \<and> tm_rows R m' = tm_rows R m \<union> {start_address s..end_address e}"
  using insert_range_loop_rows[OF assms(2,1), of "addr_row_offset (end_address e)"
      "addr_fragment_id (start_address s)" "addr_row_offset (start_address s)" 0]
  by (simp add: tm_insert_range_def Let_def)

end

lemma insert_range_loop_diverges: "insert_range_loop R eh el sh sl st = Some y \<Longrightarrow> eh \<noteq> - 1"
  for R :: "('b, 'z) roaring_ops_scheme"
proof (rule insert_range_loop.raw_induct[where P = "\<lambda>R eh el sh sl st y. eh \<noteq> - 1"])
  fix loop and R :: "('b, 'z) roaring_ops_scheme" and eh el sh sl :: u32 and st y
  assume IH: "\<And>R eh el sh sl st y. loop R eh el sh sl st = Some y \<Longrightarrow> eh \<noteq> - 1"
    and body: "(if sh \<le> eh then let hi = if sh = eh then el else - 1
      in loop R eh el (sh + 1) 0 (insert_range_step R sh sl hi st) else Some st) = Some y"
  show "eh \<noteq> - 1"
    using body by (cases "sh \<le> eh") (auto simp: Let_def dest: IH)
qed

lemma insert_range_diverges:
  "addr_fragment_id (end_address e) = - 1 \<Longrightarrow> tm_insert_range R m s e = None"
  using insert_range_loop_diverges by (fastforce simp: tm_insert_range_def Let_def)

lemma end_address_excluded: "0 < e \<Longrightarrow> end_address (Excluded e) = e - 1"
proof -
  assume "0 < e"
  then have "1 \<le> e" by (simp add: word_le_nat_alt word_less_nat_alt)
  then show ?thesis by (simp add: end_address_def)
qed

lemma atLeastAtMost_word_pred: "0 < e \<Longrightarrow> {s..e - 1} = {s..<e :: 'a::len word}"
proof -
  assume "0 < e"
  then have "1 \<le> e" "0 < unat e" by (simp_all add: word_le_nat_alt word_less_nat_alt)
  then have "unat (e - 1) = unat e - 1" by (simp add: unat_sub)
  with \<open>0 < unat e\<close> show ?thesis by (auto simp: word_le_nat_alt word_less_nat_alt)
qed

context roaring
begin

lemma from_range_rows:
  assumes "fst r < snd r" "addr_fragment_id (snd r - 1) \<noteq> - 1"
  shows "\<exists>m. tm_from_range R r = Some m \<and> bt_wf m \<and> tm_partial m \<and> tm_rows R m = {fst r..<snd r}"
proof -
  have "0 < snd r" using assms(1) by (simp add: word_less_nat_alt)
  then have e: "end_address (Excluded (snd r)) = snd r - 1" "{fst r..snd r - 1} = {fst r..<snd r}"
    by (simp_all add: end_address_excluded atLeastAtMost_word_pred)
  have "tm_partial ([] :: 'b row_addr_tree_map)" by (simp add: tm_partial_def)
  with insert_range_rows[of "[]" "Excluded (snd r)" "Included (fst r)"] show ?thesis
    using assms(2) by (auto simp: tm_from_range_def e start_address_def)
qed

lemma remove_partial: "tm_partial m \<Longrightarrow> tm_partial (fst (tm_remove R m x))"
  by (auto simp: tm_partial_def tm_remove_def Let_def case_prod_beta split: option.splits row_addr_selection.splits if_splits)

lemma and_partial: "bt_wf lhs \<Longrightarrow> tm_partial lhs \<Longrightarrow> tm_partial (tm_and R lhs rhs)"
  unfolding tm_partial_def by (auto simp: and_get split: option.splits row_addr_selection.splits if_splits)

lemma sub_partial: "tm_partial lhs \<Longrightarrow> tm_partial (tm_sub R lhs rhs)"
  unfolding tm_sub_def by (rule foldl_invariant)
    (auto simp: tm_partial_def tm_sub_step_def Let_def split: option.splits row_addr_selection.splits if_splits)

subsection \<open>Bitmaps and lists of ranges\<close>

lemma run_range_u32:
  assumes "e \<noteq> (- 1 :: u32)"
  shows "ucast (ucast e + 1 :: u64) = e + 1" "e < e + 1" "e + 1 - 1 = e"
proof -
  have "unat e + 1 < 2 ^ 32"
    using assms unat_u32_bound[of e] unat_minus_1[where ?'a = 32] by (auto simp: word_unat_eq_iff)
  then have "unat (e + 1) = unat e + 1" "unat (ucast e + 1 :: u64) = unat e + 1"
    using unat_add_of_nat[of e 1] unat_add_of_nat[of "ucast e :: u64" 1] by (simp_all add: unat_ucast_up)
  then show "ucast (ucast e + 1 :: u64) = e + 1" "e < e + 1"
    using \<open>unat e + 1 < 2 ^ 32\<close> by (simp_all add: word_unat_eq_iff unat_ucast word_less_nat_alt)
qed simp

lemma ucast_ucast_u32: "ucast (ucast (a :: u32) :: u64) = a"
  using unat_u32_bound[of a] by (simp add: word_unat_eq_iff unat_ucast)

lemma ranges_to_bitmap_fold:
  assumes "\<forall>(a, z) \<in> set rs. a \<le> z \<and> z \<noteq> - 1"
  shows "rb_bits R (foldl (\<lambda>bm (s, e). let s' = ucast s :: u32; e' = ucast e :: u32
      in if s' < e' then fst (rb_insert_range R bm s' (e' - 1)) else bm) b
      (map (\<lambda>(s, e). (ucast s :: u64, ucast e + 1 :: u64)) rs)) = rb_bits R b \<union> runs_cover rs"
    (is "rb_bits R (foldl ?step b (map ?up rs)) = _")
  using assms
proof (induction rs arbitrary: b)
  case (Cons r rs)
  obtain a z where r: "r = (a, z)" by fastforce
  have az: "a \<le> z" "z \<noteq> - 1" using Cons.prems r by simp_all
  have "a < z + 1" using run_range_u32(2)[OF az(2)] az(1) by simp
  then have "?step b (?up r) = fst (rb_insert_range R b a z)"
    by (simp add: r Let_def ucast_ucast_u32 run_range_u32[OF az(2)])
  then have "rb_bits R (foldl ?step b (map ?up (r # rs))) = rb_bits R (fst (rb_insert_range R b a z)) \<union> runs_cover rs"
    using Cons by (simp only: list.map foldl.simps) simp
  then show ?case by (simp add: r Un_assoc)
qed simp

lemma ranges_concat:
  assumes "runs_separated rs" "\<forall>(a, z) \<in> set rs. z \<noteq> - 1"
  shows "concat (map (\<lambda>(s, e). range_vals (ucast s, ucast e)) (map (\<lambda>(s, e). (ucast s :: u64, ucast e + 1 :: u64)) rs)) =
    sorted_list_of_set (runs_cover rs)"
  using assms
proof (induction rs)
  case (Cons r rs)
  obtain a z where r: "r = (a, z)" by fastforce
  note sep = runs_separated_Cons[OF Cons.prems(1)[unfolded r]]
  have z: "z \<noteq> - 1" using Cons.prems r by simp
  have "{a..<z + 1} = {a..z}"
    using atLeastAtMost_word_pred[of "z + 1" a] run_range_u32(2)[OF z] by (simp add: word_less_nat_alt)
  then have "range_vals (a, z + 1) @ sorted_list_of_set (runs_cover rs) = sorted_list_of_set (runs_cover (r # rs))"
    using sep by (intro strict_sorted_equal) (auto simp: r sorted_wrt_append intro: le_less_trans)
  then show ?case using Cons sep by (simp add: r ucast_ucast_u32 run_range_u32[OF z])
qed simp

lemma bitmap_ranges_roundtrip:
  assumes "- 1 \<notin> rb_bits R b"
  shows "\<exists>c. ranges_to_bitmap R (bitmap_to_ranges R b) is_sorted = Inr c \<and> rb_bits R c = rb_bits R b"
proof -
  note runs = runs_spec[of b]
  have "\<forall>(a, z) \<in> set rs. a \<le> z \<and> z \<in> runs_cover rs" if "runs_separated rs" for rs
    using that by (induction rs) (fastforce dest: runs_separated_Cons)+
  from this[OF runs(2)] have az: "\<forall>(a, z) \<in> set (rb_runs R b). a \<le> z \<and> z \<noteq> - 1"
    using assms by (auto simp: runs(1))
  obtain c where c: "rb_from_sorted_iter R (sorted_list_of_set (rb_bits R b)) = Some c" "rb_bits R c = rb_bits R b"
    using from_sorted_iter_strict[of "sorted_list_of_set (rb_bits R b)"] by auto
  have "rb_runs R b = [] \<Longrightarrow> rb_bits R b = {}" using runs(1) by auto
  moreover have "concat (map (\<lambda>(s, e). range_vals (ucast s, ucast e)) (bitmap_to_ranges R b)) = sorted_list_of_set (rb_bits R b)"
    unfolding bitmap_to_ranges_def using ranges_concat[OF runs(2)] az runs(1) by auto
  ultimately show ?thesis
    using ranges_to_bitmap_fold[OF az, of "rb_new R"] c
    unfolding ranges_to_bitmap_def Let_def by (auto simp: bitmap_to_ranges_def runs(1))
qed

end

sublocale roaring \<subseteq> tm: row_set bt_wf "tm_rows R" tm_is_empty "tm_len R" "tm_remove R" "tm_contains R"
  "tm_union_all R" "tm_from_sorted_iter R"
proof unfold_locales
  show "\<exists>s. tm_from_sorted_iter R xs = Inr s \<and> bt_wf s \<and> tm_rows R s = set xs" if "sorted_wrt (<) xs" for xs
    using from_sorted_iter_ok[OF that] by blast
qed (auto simp: tm_is_empty_rows remove_rows remove_frag_bits contains_rows union_all_rows union_all_frag_bits
    len_eq split: if_splits)

lemma runs_of_max:
  assumes "runs_cover rs = {- 1 :: u32}" "runs_separated rs"
  shows "rs = [(- 1, - 1)]"
proof (cases rs)
  case (Cons r rs')
  obtain a z where r: "r = (a, z)" by fastforce
  note sep = runs_separated_Cons[OF assms(2)[unfolded Cons r]]
  have "{a..z} \<subseteq> {- 1}" using assms(1) by (auto simp: Cons r)
  then have az: "a = - 1" "z = - 1" using sep by (auto simp: subset_iff)
  have "runs_cover rs' = {}" using sep az(2) word_order.extremum_strict by blast
  then have "rs' = []" using sep by (cases rs') (auto dest!: runs_separated_Cons)
  then show ?thesis by (simp add: Cons r az)
qed (use assms in simp)

subsection \<open>Properties\<close>

text \<open>
  C20. The set operations of \<open>RowAddrTreeMap\<close> are the operations on the sets of rows, with whole
  fragments and bitmaps mixed in any way: a row is in the union, intersection or difference of two
  maps exactly when it is in the union, intersection or difference of their rows, inserting and
  removing change exactly one row and report whether it was there, and every result keeps the order
  of the fragments. An intersection never holds an empty bitmap.
\<close>

theorem treemap_set_operations:
  assumes "roaring R" "bt_wf a" "bt_wf b"
  shows "(tm_contains R (tm_or R a b) x \<longleftrightarrow> tm_contains R a x \<or> tm_contains R b x) \<and> bt_wf (tm_or R a b) \<and>
    (tm_contains R (tm_and R a b) x \<longleftrightarrow> tm_contains R a x \<and> tm_contains R b x) \<and> bt_wf (tm_and R a b) \<and>
    tm_canonical R (tm_and R a b) \<and>
    (tm_contains R (tm_sub R a b) x \<longleftrightarrow> tm_contains R a x \<and> \<not> tm_contains R b x) \<and> bt_wf (tm_sub R a b) \<and>
    (tm_contains R (fst (tm_insert R a y)) x \<longleftrightarrow> x = y \<or> tm_contains R a x) \<and>
    snd (tm_insert R a y) = (\<not> tm_contains R a y) \<and> bt_wf (fst (tm_insert R a y)) \<and>
    (tm_contains R (fst (tm_remove R a y)) x \<longleftrightarrow> x \<noteq> y \<and> tm_contains R a x) \<and>
    snd (tm_remove R a y) = tm_contains R a y \<and> bt_wf (fst (tm_remove R a y))"
  using assms(2,3)
  by (simp add: roaring.contains_rows[OF assms(1)] roaring.or_rows[OF assms(1)] roaring.or_wf[OF assms(1)]
      roaring.and_rows[OF assms(1)] roaring.and_wf[OF assms(1)] roaring.and_canonical[OF assms(1)]
      roaring.sub_rows[OF assms(1)] roaring.sub_wf[OF assms(1)] roaring.insert_rows[OF assms(1)]
      roaring.insert_frag_bits[OF assms(1)] roaring.remove_rows[OF assms(1)] roaring.remove_frag_bits[OF assms(1)])
    blast

theorem treemap_set_operations_witness:
  "let R = set_roaring; a = [(1, Full), (2, Partial {3, 4})]; b = [(2, Partial {4, 5}), (7, Full)] in
    (tm_contains R (tm_or R a b) 9 \<longleftrightarrow> tm_contains R a 9 \<or> tm_contains R b 9) \<and> bt_wf (tm_or R a b) \<and>
    (tm_contains R (tm_and R a b) 9 \<longleftrightarrow> tm_contains R a 9 \<and> tm_contains R b 9) \<and> bt_wf (tm_and R a b) \<and>
    tm_canonical R (tm_and R a b) \<and>
    (tm_contains R (tm_sub R a b) 9 \<longleftrightarrow> tm_contains R a 9 \<and> \<not> tm_contains R b 9) \<and> bt_wf (tm_sub R a b) \<and>
    (tm_contains R (fst (tm_insert R a 8)) 9 \<longleftrightarrow> (9 :: u64) = 8 \<or> tm_contains R a 9) \<and>
    snd (tm_insert R a 8) = (\<not> tm_contains R a 8) \<and> bt_wf (fst (tm_insert R a 8)) \<and>
    (tm_contains R (fst (tm_remove R a 8)) 9 \<longleftrightarrow> (9 :: u64) \<noteq> 8 \<and> tm_contains R a 9) \<and>
    snd (tm_remove R a 8) = tm_contains R a 8 \<and> bt_wf (fst (tm_remove R a 8))"
  unfolding Let_def
  by (rule treemap_set_operations) (simp_all add: set_roaring.roaring_axioms bt_wf_def)





text \<open>
  C23. Assembling a map from many sorted runs, which may interleave and repeat addresses, never
  panics and gives exactly the rows of the runs.
\<close>

theorem from_sorted_runs_correct:
  assumes "roaring R" "list_all sorted runs"
  shows "\<exists>m. tm_from_sorted_runs R runs = Inr m \<and> bt_wf m \<and> (\<forall>x. tm_contains R m x \<longleftrightarrow> (\<exists>run \<in> set runs. x \<in> set run))"
  using roaring.from_sorted_runs_ok[OF assms] roaring.contains_rows[OF assms(1)] by fastforce

theorem from_sorted_runs_correct_witness:
  "\<exists>m. tm_from_sorted_runs set_roaring [[3, 8], [1, 3, 4294967297]] = Inr m \<and> bt_wf m \<and>
     (\<forall>x. tm_contains set_roaring m x \<longleftrightarrow> (\<exists>run \<in> set [[3, 8], [1, 3, 4294967297]]. x \<in> set run))"
  by (rule from_sorted_runs_correct) (simp_all add: set_roaring.roaring_axioms)



end
