(* ===== verification/Row_Mask.thy ===== *)
theory Row_Mask
  imports Treemap_Ranges
begin

text \<open>
  Masks over row addresses (\<open>RowAddrMask\<close>) and over stable row ids (\<open>RowIdSet\<close>, \<open>RowIdMask\<close>) of
  \<open>lance-select/src/mask.rs\<close>: an allow list or a block list of rows. The lemmas show that the
  operations on masks are the Boolean operations on the predicate \<open>selected\<close>, and that the
  summaries by which the read planner skips work are sound.
\<close>

subsection \<open>Masks over row addresses\<close>

datatype 's list_mask = AllowList 's | BlockList 's

type_synonym 'b row_addr_mask = "'b row_addr_tree_map list_mask"

definition mask_all_rows :: "'b row_addr_mask" where
  "mask_all_rows = BlockList []"

definition mask_allow_nothing :: "'b row_addr_mask" where
  "mask_allow_nothing = AllowList []"

definition mask_from_allowed :: "'b row_addr_tree_map \<Rightarrow> 'b row_addr_mask" where
  "mask_from_allowed allow_list = AllowList allow_list"

definition mask_from_block :: "'b row_addr_tree_map \<Rightarrow> 'b row_addr_mask" where
  "mask_from_block block_list = BlockList block_list"

definition mask_block_list :: "'b row_addr_mask \<Rightarrow> 'b row_addr_tree_map option" where
  "mask_block_list m = (case m of BlockList block_list \<Rightarrow> Some block_list | _ \<Rightarrow> None)"

definition mask_allow_list :: "'b row_addr_mask \<Rightarrow> 'b row_addr_tree_map option" where
  "mask_allow_list m = (case m of AllowList allow_list \<Rightarrow> Some allow_list | _ \<Rightarrow> None)"

definition mask_selected :: "('b, 'z) roaring_ops_scheme \<Rightarrow> 'b row_addr_mask \<Rightarrow> u64 \<Rightarrow> bool" where
  "mask_selected R m row_id =
     (case m of
        AllowList allow_list \<Rightarrow> tm_contains R allow_list row_id
      | BlockList block_list \<Rightarrow> \<not> tm_contains R block_list row_id)"

definition mask_is_select_all :: "'b row_addr_mask \<Rightarrow> bool" where
  "mask_is_select_all m = (case m of BlockList b \<Rightarrow> tm_is_empty b | AllowList _ \<Rightarrow> False)"

definition mask_selects_all ::
    "('b, 'z) roaring_ops_scheme \<Rightarrow> 'b row_addr_mask \<Rightarrow> 'b row_addr_tree_map \<Rightarrow> bool" where
  "mask_selects_all R m rows =
     (case m of
        AllowList allow_list \<Rightarrow> tm_is_empty (tm_sub R rows allow_list)
      | BlockList block_list \<Rightarrow> tm_is_empty (tm_and R rows block_list))"

definition mask_selected_indices ::
    "('b, 'z) roaring_ops_scheme \<Rightarrow> 'b row_addr_mask \<Rightarrow> u64 list \<Rightarrow> u64 list" where
  "mask_selected_indices R m row_ids =
     List.map_filter (\<lambda>(idx, row_id). if mask_selected R m row_id then Some (word_of_nat idx) else None)
       (enumerate 0 row_ids)"

definition mask_also_block ::
    "('b, 'z) roaring_ops_scheme \<Rightarrow> 'b row_addr_mask \<Rightarrow> 'b row_addr_tree_map \<Rightarrow> 'b row_addr_mask" where
  "mask_also_block R m block_list =
     (case m of
        AllowList allow_list \<Rightarrow> AllowList (tm_sub R allow_list block_list)
      | BlockList existing \<Rightarrow> BlockList (tm_or R existing block_list))"

definition mask_also_allow ::
    "('b, 'z) roaring_ops_scheme \<Rightarrow> 'b row_addr_mask \<Rightarrow> 'b row_addr_tree_map \<Rightarrow> 'b row_addr_mask" where
  "mask_also_allow R m allow_list =
     (case m of
        AllowList existing \<Rightarrow> AllowList (tm_or R existing allow_list)
      | BlockList block_list \<Rightarrow> BlockList (tm_sub R block_list allow_list))"

definition mask_intersect ::
    "('b, 'z) roaring_ops_scheme \<Rightarrow> 'b row_addr_mask \<Rightarrow> 'b row_addr_mask \<Rightarrow> 'b row_addr_mask" where
  "mask_intersect R m other =
     (case (m, other) of
        (AllowList a, AllowList b) \<Rightarrow> AllowList (tm_and R a b)
      | (AllowList a, BlockList b) \<Rightarrow> mask_also_block R (AllowList a) b
      | (BlockList a, AllowList b) \<Rightarrow> mask_also_block R (AllowList b) a
      | (BlockList a, BlockList b) \<Rightarrow> BlockList (tm_or R a b))"

definition mask_not :: "'s list_mask \<Rightarrow> 's list_mask" where
  "mask_not m = (case m of AllowList allow_list \<Rightarrow> BlockList allow_list | BlockList block_list \<Rightarrow> AllowList block_list)"

definition mask_and ::
    "('b, 'z) roaring_ops_scheme \<Rightarrow> 'b row_addr_mask \<Rightarrow> 'b row_addr_mask \<Rightarrow> 'b row_addr_mask" where
  "mask_and R m rhs =
     (case (m, rhs) of
        (AllowList a, AllowList b) \<Rightarrow> AllowList (tm_and R a b)
      | (AllowList allow, BlockList block) \<Rightarrow> AllowList (tm_sub R allow block)
      | (BlockList block, AllowList allow) \<Rightarrow> AllowList (tm_sub R allow block)
      | (BlockList a, BlockList b) \<Rightarrow> BlockList (tm_or R a b))"

definition mask_or ::
    "('b, 'z) roaring_ops_scheme \<Rightarrow> 'b row_addr_mask \<Rightarrow> 'b row_addr_mask \<Rightarrow> 'b row_addr_mask" where
  "mask_or R m rhs =
     (case (m, rhs) of
        (AllowList a, AllowList b) \<Rightarrow> AllowList (tm_or R a b)
      | (AllowList allow, BlockList block) \<Rightarrow> BlockList (tm_sub R block allow)
      | (BlockList block, AllowList allow) \<Rightarrow> BlockList (tm_sub R block allow)
      | (BlockList a, BlockList b) \<Rightarrow> BlockList (tm_and R a b))"

definition mask_may_select_fragments ::
    "('b, 'z) roaring_ops_scheme \<Rightarrow> 'b row_addr_mask \<Rightarrow> 'b \<Rightarrow> bool" where
  "mask_may_select_fragments R m fragments =
     (case m of
        AllowList allow \<Rightarrow>
          list_ex (\<lambda>fragment. case tm_get allow fragment of
              None \<Rightarrow> False | Some Full \<Rightarrow> True | Some (Partial rows) \<Rightarrow> \<not> rb_is_empty R rows) (rb_iter R fragments)
      | BlockList block \<Rightarrow>
          list_ex (\<lambda>fragment. case tm_get block fragment of Some Full \<Rightarrow> False | _ \<Rightarrow> True) (rb_iter R fragments))"

definition mask_may_select_any ::
    "('b, 'z) roaring_ops_scheme \<Rightarrow> 'b row_addr_mask \<Rightarrow> 'b row_addr_tree_map \<Rightarrow> bool" where
  "mask_may_select_any R m rows =
     (case m of
        AllowList allow \<Rightarrow>
          list_ex (\<lambda>(fragment, selection). case (tm_get allow fragment, selection) of
              (None, _) \<Rightarrow> False
            | (Some Full, Full) \<Rightarrow> True
            | (Some Full, Partial rows) \<Rightarrow> \<not> rb_is_empty R rows
            | (Some (Partial rows), Full) \<Rightarrow> \<not> rb_is_empty R rows
            | (Some (Partial allowed), Partial rows) \<Rightarrow> \<not> rb_is_disjoint R allowed rows) rows
      | BlockList block \<Rightarrow>
          list_ex (\<lambda>(fragment, selection). case (tm_get block fragment, selection) of
              (None, Full) \<Rightarrow> True
            | (None, Partial rows) \<Rightarrow> \<not> rb_is_empty R rows
            | (Some Full, _) \<Rightarrow> False
            | (Some (Partial _), Full) \<Rightarrow> True
            | (Some (Partial blocked), Partial rows) \<Rightarrow> \<not> rb_is_subset R rows blocked) rows)"

definition mask_max_len :: "('b, 'z) roaring_ops_scheme \<Rightarrow> 'b row_addr_mask \<Rightarrow> u64 option" where
  "mask_max_len R m = (case m of AllowList selection \<Rightarrow> tm_len R selection | BlockList _ \<Rightarrow> None)"

definition mask_iter_addrs :: "('b, 'z) roaring_ops_scheme \<Rightarrow> 'b row_addr_mask \<Rightarrow> row_address list option" where
  "mask_iter_addrs R m = (case m of AllowList allow_list \<Rightarrow> tm_row_addrs R allow_list | BlockList _ \<Rightarrow> None)"

definition tm_mask ::
    "('b, 'z) roaring_ops_scheme \<Rightarrow> 'b row_addr_tree_map \<Rightarrow> 'b row_addr_mask \<Rightarrow> 'b row_addr_tree_map" where
  "tm_mask R rows m =
     (case m of
        AllowList allow_list \<Rightarrow> tm_and R rows allow_list
      | BlockList block_list \<Rightarrow> tm_sub R rows block_list)"

subsection \<open>Lemmas on address masks\<close>

definition mask_wf :: "'b row_addr_mask \<Rightarrow> bool" where
  "mask_wf m \<longleftrightarrow> (case m of AllowList a \<Rightarrow> bt_wf a | BlockList b \<Rightarrow> bt_wf b)"

lemma mask_wf_simps [simp]: "mask_wf (AllowList a) = bt_wf a" "mask_wf (BlockList a) = bt_wf a"
  by (simp_all add: mask_wf_def)

lemma mask_wf_consts [simp]: "mask_wf mask_all_rows" "mask_wf mask_allow_nothing"
  by (simp_all add: mask_all_rows_def mask_allow_nothing_def)

lemma mask_wf_not [simp]: "mask_wf (mask_not m) = mask_wf m"
  by (simp add: mask_not_def split: list_mask.splits)

context roaring
begin

lemma selected_simps [simp]:
  "mask_selected R (AllowList a) x \<longleftrightarrow> x \<in> tm_rows R a" "mask_selected R (BlockList a) x \<longleftrightarrow> x \<notin> tm_rows R a"
  by (simp_all add: mask_selected_def contains_rows)

lemma selected_consts [simp]: "mask_selected R mask_all_rows x" "\<not> mask_selected R mask_allow_nothing x"
  by (simp_all add: mask_all_rows_def mask_allow_nothing_def)

lemma selected_not [simp]: "mask_selected R (mask_not m) x \<longleftrightarrow> \<not> mask_selected R m x"
  by (cases m) (simp_all add: mask_not_def)

lemma mask_and_ok:
  assumes "mask_wf m" "mask_wf n"
  shows "mask_selected R (mask_and R m n) x \<longleftrightarrow> mask_selected R m x \<and> mask_selected R n x"
    "mask_wf (mask_and R m n)"
  using assms by (cases m; cases n; auto simp: mask_and_def)+

lemma mask_or_ok:
  assumes "mask_wf m" "mask_wf n"
  shows "mask_selected R (mask_or R m n) x \<longleftrightarrow> mask_selected R m x \<or> mask_selected R n x"
    "mask_wf (mask_or R m n)"
  using assms by (cases m; cases n; auto simp: mask_or_def)+

lemma mask_intersect_eq: "mask_intersect R m n = mask_and R m n"
  by (cases m; cases n) (simp_all add: mask_and_def mask_intersect_def mask_also_block_def)

lemma mask_also_block_ok:
  assumes "mask_wf m" "bt_wf b"
  shows "mask_selected R (mask_also_block R m b) x \<longleftrightarrow> mask_selected R m x \<and> x \<notin> tm_rows R b"
    "mask_wf (mask_also_block R m b)"
  using assms by (cases m; auto simp: mask_also_block_def)+

lemma mask_also_allow_ok:
  assumes "mask_wf m" "bt_wf b"
  shows "mask_selected R (mask_also_allow R m b) x \<longleftrightarrow> mask_selected R m x \<or> x \<in> tm_rows R b"
    "mask_wf (mask_also_allow R m b)"
  using assms by (cases m; auto simp: mask_also_allow_def)+

lemma tm_mask_ok:
  assumes "bt_wf rows" "mask_wf m"
  shows "tm_rows R (tm_mask R rows m) = {x \<in> tm_rows R rows. mask_selected R m x}"
    "bt_wf (tm_mask R rows m)" "tm_partial rows \<Longrightarrow> tm_partial (tm_mask R rows m)"
  using assms by (cases m; auto simp: tm_mask_def and_partial sub_partial)+

lemma selects_all_sound: "mask_wf m \<Longrightarrow> bt_wf rows \<Longrightarrow> mask_selects_all R m rows \<Longrightarrow> x \<in> tm_rows R rows \<Longrightarrow> mask_selected R m x"
  by (cases m) (auto simp: mask_selects_all_def dest!: tm_is_empty_rows[of _ R])

lemma sub_canonical:
  assumes "bt_wf lhs" "bt_wf rhs" "tm_canonical R lhs" "\<forall>f c. bt_get rhs f = Some (Partial c) \<longrightarrow> rb_bits R c \<noteq> UNIV"
  shows "tm_canonical R (tm_sub R lhs rhs)"
  using assms by (fastforce simp: tm_canonical_get sub_get split: option.splits row_addr_selection.splits if_splits)

lemma selects_all_iff:
  assumes "mask_wf m" "bt_wf rows" "tm_canonical R rows"
    "\<forall>a f c. m = AllowList a \<and> bt_get a f = Some (Partial c) \<longrightarrow> rb_bits R c \<noteq> UNIV"
  shows "mask_selects_all R m rows \<longleftrightarrow> (\<forall>x \<in> tm_rows R rows. mask_selected R m x)"
proof (cases m)
  case (AllowList a)
  then have "tm_canonical R (tm_sub R rows a)" using assms by (intro sub_canonical) auto
  then show ?thesis using assms AllowList by (auto simp: mask_selects_all_def tm_canonical_is_empty)
next
  case (BlockList b)
  then show ?thesis
    using assms and_canonical[OF assms(2), of b] by (auto simp: mask_selects_all_def tm_canonical_is_empty)
qed

lemma allow_entry:
  "(case (bt_get a f, s) of
      (None, _) \<Rightarrow> False
    | (Some Full, Full) \<Rightarrow> True
    | (Some Full, Partial rows) \<Rightarrow> \<not> rb_is_empty R rows
    | (Some (Partial rows), Full) \<Rightarrow> \<not> rb_is_empty R rows
    | (Some (Partial allowed), Partial rows) \<Rightarrow> \<not> rb_is_disjoint R allowed rows) \<longleftrightarrow>
   sel_bits R s \<inter> frag_bits R a f \<noteq> {}"
  by (cases s) (auto simp: frag_bits_def split: option.splits row_addr_selection.splits)

lemma block_entry:
  "(case (bt_get b f, s) of
      (None, Full) \<Rightarrow> True
    | (None, Partial rows) \<Rightarrow> \<not> rb_is_empty R rows
    | (Some Full, _) \<Rightarrow> False
    | (Some (Partial _), Full) \<Rightarrow> True
    | (Some (Partial blocked), Partial rows) \<Rightarrow> \<not> rb_is_subset R rows blocked) \<longleftrightarrow>
   sel_bits R s - frag_bits R b f \<noteq> {} \<or> s = Full \<and> bt_get b f \<noteq> Some Full"
  by (cases s) (auto simp: frag_bits_def split: option.splits row_addr_selection.splits)

lemma bex_rows: "bt_wf m \<Longrightarrow> (\<exists>x \<in> tm_rows R m. P x) \<longleftrightarrow> (\<exists>(f, s) \<in> set m. \<exists>v \<in> sel_bits R s. P (new_from_parts f v))"
  by (auto simp: tm_rows_entries)

lemma may_select_any_allow:
  "bt_wf rows \<Longrightarrow> mask_may_select_any R (AllowList a) rows \<longleftrightarrow> (\<exists>x \<in> tm_rows R rows. mask_selected R (AllowList a) x)"
  unfolding mask_may_select_any_def tm_get_def list_mask.case allow_entry list_ex_iff
  by (subst bex_rows) (auto simp: disjoint_iff)

lemma may_select_any_block:
  assumes "bt_wf rows"
  shows "mask_may_select_any R (BlockList b) rows \<longleftrightarrow>
     (\<exists>x \<in> tm_rows R rows. mask_selected R (BlockList b) x) \<or>
     (\<exists>f. bt_get rows f = Some Full \<and> bt_get b f \<noteq> Some Full)"
proof -
  have "mask_may_select_any R (BlockList b) rows \<longleftrightarrow>
    (\<exists>(f, s) \<in> set rows. sel_bits R s - frag_bits R b f \<noteq> {}) \<or>
    (\<exists>(f, s) \<in> set rows. s = Full \<and> bt_get b f \<noteq> Some Full)"
    unfolding mask_may_select_any_def tm_get_def list_mask.case block_entry list_ex_iff by blast
  moreover have "(\<exists>(f, s) \<in> set rows. sel_bits R s - frag_bits R b f \<noteq> {}) \<longleftrightarrow>
    (\<exists>x \<in> tm_rows R rows. mask_selected R (BlockList b) x)"
    unfolding bex_rows[OF assms] by auto
  moreover have "(\<exists>(f, s) \<in> set rows. s = Full \<and> bt_get b f \<noteq> Some Full) \<longleftrightarrow>
    (\<exists>f. bt_get rows f = Some Full \<and> bt_get b f \<noteq> Some Full)"
    unfolding bt_entry_iff[OF assms, symmetric] by blast
  ultimately show ?thesis by blast
qed

lemma may_select_fragments_allow:
  "mask_may_select_fragments R (AllowList a) fragments \<longleftrightarrow>
     (\<exists>x. addr_fragment_id x \<in> rb_bits R fragments \<and> mask_selected R (AllowList a) x)"
proof -
  have "(case bt_get a f of None \<Rightarrow> False | Some Full \<Rightarrow> True | Some (Partial rows) \<Rightarrow> \<not> rb_is_empty R rows) \<longleftrightarrow>
    (\<exists>v. new_from_parts f v \<in> tm_rows R a)" for f
    by (auto simp: frag_bits_def split: option.splits row_addr_selection.splits)
  then have "mask_may_select_fragments R (AllowList a) fragments \<longleftrightarrow>
      (\<exists>f v. f \<in> rb_bits R fragments \<and> new_from_parts f v \<in> tm_rows R a)"
    by (simp add: mask_may_select_fragments_def tm_get_def list_ex_iff set_iter Bex_def)
  also have "\<dots> \<longleftrightarrow> (\<exists>x. addr_fragment_id x \<in> rb_bits R fragments \<and> x \<in> tm_rows R a)"
    by (metis fragment_id_new_from_parts new_from_parts_collapse)
  finally show ?thesis by simp
qed

lemma may_select_fragments_block:
  "mask_may_select_fragments R (BlockList b) fragments \<longleftrightarrow> (\<exists>f \<in> rb_bits R fragments. bt_get b f \<noteq> Some Full)"
  by (auto simp: mask_may_select_fragments_def tm_get_def list_ex_iff set_iter split: option.splits row_addr_selection.splits)

end

subsection \<open>Sets of stable row ids and masks over them\<close>

record 't roaring_treemap_ops =
  rt_new :: 't
  rt_iter :: "'t \<Rightarrow> u64 list"
  rt_or :: "'t \<Rightarrow> 't \<Rightarrow> 't"
  rt_sub :: "'t \<Rightarrow> 't \<Rightarrow> 't"
  rt_is_empty :: "'t \<Rightarrow> bool"
  rt_len :: "'t \<Rightarrow> u64"
  rt_remove :: "'t \<Rightarrow> u64 \<Rightarrow> 't \<times> bool"
  rt_contains :: "'t \<Rightarrow> u64 \<Rightarrow> bool"
  rt_insert :: "'t \<Rightarrow> u64 \<Rightarrow> 't \<times> bool"

definition ris_union :: "'t roaring_treemap_ops \<Rightarrow> 't \<Rightarrow> 't \<Rightarrow> 't" where
  "ris_union T s other = rt_or T s other"

definition ris_difference :: "'t roaring_treemap_ops \<Rightarrow> 't \<Rightarrow> 't \<Rightarrow> 't" where
  "ris_difference T s other = rt_sub T s other"

definition ris_len :: "'t roaring_treemap_ops \<Rightarrow> 't \<Rightarrow> u64 option" where
  "ris_len T s = Some (rt_len T s)"

definition ris_union_all :: "'t roaring_treemap_ops \<Rightarrow> 't list \<Rightarrow> 't" where
  "ris_union_all T others =
     foldl (rt_or T) (case others of [] \<Rightarrow> rt_new T | first # _ \<Rightarrow> first) others"

fun ris_from_sorted_loop :: "'t roaring_treemap_ops \<Rightarrow> 't \<Rightarrow> u64 option \<Rightarrow> u64 list \<Rightarrow> 't res" where
  "ris_from_sorted_loop T inner prev [] = Inr inner"
| "ris_from_sorted_loop T inner prev (v # vs) =
     (if (case prev of Some p \<Rightarrow> v < p | None \<Rightarrow> False) then Inl Internal
      else ris_from_sorted_loop T (fst (rt_insert T inner v)) (Some v) vs)"

definition ris_from_sorted_iter :: "'t roaring_treemap_ops \<Rightarrow> u64 list \<Rightarrow> 't res" where
  "ris_from_sorted_iter T vs = ris_from_sorted_loop T (rt_new T) None vs"

definition rim_all_rows :: "'t roaring_treemap_ops \<Rightarrow> 't list_mask" where
  "rim_all_rows T = BlockList (rt_new T)"

definition rim_allow_nothing :: "'t roaring_treemap_ops \<Rightarrow> 't list_mask" where
  "rim_allow_nothing T = AllowList (rt_new T)"

definition rim_selected :: "'t roaring_treemap_ops \<Rightarrow> 't list_mask \<Rightarrow> u64 \<Rightarrow> bool" where
  "rim_selected T m row_id =
     (case m of
        AllowList allow_list \<Rightarrow> rt_contains T allow_list row_id
      | BlockList block_list \<Rightarrow> \<not> rt_contains T block_list row_id)"

definition rim_selected_indices :: "'t roaring_treemap_ops \<Rightarrow> 't list_mask \<Rightarrow> u64 list \<Rightarrow> u64 list" where
  "rim_selected_indices T m row_ids =
     List.map_filter (\<lambda>(idx, row_id). if rim_selected T m row_id then Some (word_of_nat idx) else None)
       (enumerate 0 row_ids)"

definition rim_also_block :: "'t roaring_treemap_ops \<Rightarrow> 't list_mask \<Rightarrow> 't \<Rightarrow> 't list_mask" where
  "rim_also_block T m block_list =
     (case m of
        AllowList allow_list \<Rightarrow> AllowList (ris_difference T allow_list block_list)
      | BlockList existing \<Rightarrow> BlockList (ris_union T existing block_list))"

definition rim_also_allow :: "'t roaring_treemap_ops \<Rightarrow> 't list_mask \<Rightarrow> 't \<Rightarrow> 't list_mask" where
  "rim_also_allow T m allow_list =
     (case m of
        AllowList existing \<Rightarrow> AllowList (ris_union T existing allow_list)
      | BlockList block_list \<Rightarrow> BlockList (ris_difference T block_list allow_list))"

definition rim_max_len :: "'t roaring_treemap_ops \<Rightarrow> 't list_mask \<Rightarrow> u64 option" where
  "rim_max_len T m = (case m of AllowList selection \<Rightarrow> ris_len T selection | BlockList _ \<Rightarrow> None)"

definition rim_iter_ids :: "'t roaring_treemap_ops \<Rightarrow> 't list_mask \<Rightarrow> u64 list option" where
  "rim_iter_ids T m = (case m of AllowList allow_list \<Rightarrow> Some (rt_iter T allow_list) | BlockList _ \<Rightarrow> None)"

definition rt_rows :: "'t roaring_treemap_ops \<Rightarrow> 't \<Rightarrow> u64 set" where
  "rt_rows T s = set (rt_iter T s)"

locale roaring_treemap =
  fixes T :: "'t roaring_treemap_ops"
  assumes iter_sorted: "sorted_wrt (<) (rt_iter T s)"
    and new_rows: "rt_rows T (rt_new T) = {}"
    and or_rows: "rt_rows T (rt_or T s t) = rt_rows T s \<union> rt_rows T t"
    and sub_rows: "rt_rows T (rt_sub T s t) = rt_rows T s - rt_rows T t"
    and is_empty_rows: "rt_is_empty T s \<longleftrightarrow> rt_rows T s = {}"
    and len_rows: "rt_len T s = word_of_nat (card (rt_rows T s))"
    and remove_rows: "rt_rows T (fst (rt_remove T s x)) = rt_rows T s - {x}" "snd (rt_remove T s x) \<longleftrightarrow> x \<in> rt_rows T s"
    and contains_rows: "rt_contains T s x \<longleftrightarrow> x \<in> rt_rows T s"
    and insert_rows: "rt_rows T (fst (rt_insert T s x)) = insert x (rt_rows T s)"
begin

lemma union_all_fold: "rt_rows T (foldl (rt_or T) s ts) = rt_rows T s \<union> \<Union> (rt_rows T ` set ts)"
  by (induction ts arbitrary: s) (auto simp: or_rows)

lemma from_sorted_loop:
  "ris_from_sorted_loop T s prev vs =
     (if sorted (case prev of None \<Rightarrow> vs | Some p \<Rightarrow> p # vs)
      then Inr (foldl (\<lambda>s v. fst (rt_insert T s v)) s vs) else Inl Internal)"
proof (induction vs arbitrary: s prev)
  case (Cons v vs)
  have "sorted (p # v # vs) \<longleftrightarrow> p \<le> v \<and> sorted (v # vs)" for p by auto
  then show ?case using Cons by (cases prev) (auto simp: not_less)
qed (simp split: option.splits)

lemma insert_fold: "rt_rows T (foldl (\<lambda>s v. fst (rt_insert T s v)) s vs) = rt_rows T s \<union> set vs"
  by (induction vs arbitrary: s) (auto simp: insert_rows)

lemma from_sorted_iter_rows:
  "if sorted vs then \<exists>s. ris_from_sorted_iter T vs = Inr s \<and> rt_rows T s = set vs
   else ris_from_sorted_iter T vs = Inl Internal"
  by (simp add: ris_from_sorted_iter_def from_sorted_loop insert_fold new_rows)

lemma rim_selected_ok:
  "rim_selected T (rim_all_rows T) x" "\<not> rim_selected T (rim_allow_nothing T) x"
  "rim_selected T (rim_also_block T m s) x \<longleftrightarrow> rim_selected T m x \<and> x \<notin> rt_rows T s"
  "rim_selected T (rim_also_allow T m s) x \<longleftrightarrow> rim_selected T m x \<or> x \<in> rt_rows T s"
  by (auto simp: rim_selected_def rim_all_rows_def rim_allow_nothing_def rim_also_block_def rim_also_allow_def
      ris_union_def ris_difference_def contains_rows new_rows or_rows sub_rows split: list_mask.splits)

end

sublocale roaring_treemap \<subseteq> ris: row_set "\<lambda>_. True" "rt_rows T" "rt_is_empty T" "ris_len T" "rt_remove T" "rt_contains T"
  "ris_union_all T" "ris_from_sorted_iter T"
proof unfold_locales
  show "rt_rows T (ris_union_all T ss) = \<Union> (rt_rows T ` set ss)" for ss
    by (cases ss) (auto simp: ris_union_all_def union_all_fold new_rows or_rows)
  show "\<exists>s. ris_from_sorted_iter T xs = Inr s \<and> True \<and> rt_rows T s = set xs" if "sorted_wrt (<) xs" for xs
    using from_sorted_iter_rows[of xs] strict_sorted_sorted[OF that] by auto
qed (auto simp: is_empty_rows len_rows ris_len_def remove_rows contains_rows)

definition set_treemap :: "u64 set roaring_treemap_ops" where
  "set_treemap = \<lparr> rt_new = {}, rt_iter = sorted_list_of_set, rt_or = (\<union>), rt_sub = (-),
     rt_is_empty = (\<lambda>S. S = {}), rt_len = (\<lambda>S. word_of_nat (card S)), rt_remove = (\<lambda>S x. (S - {x}, x \<in> S)),
     rt_contains = (\<lambda>S x. x \<in> S), rt_insert = (\<lambda>S x. (insert x S, x \<notin> S)) \<rparr>"

interpretation set_treemap: roaring_treemap set_treemap
  by unfold_locales (simp_all add: set_treemap_def rt_rows_def del: sorted_list_of_set_insert_remove)

subsection \<open>Properties\<close>

text \<open>
  C25. Masks form a Boolean algebra over rows: negation, conjunction (also as \<open>intersect\<close>) and
  disjunction of allow and block lists in every combination select exactly the rows the connective
  says, blocking and allowing more rows removes and adds exactly these rows, and applying a mask to
  a row set keeps exactly its selected rows.
\<close>

theorem mask_boolean_algebra:
  assumes "roaring R" "mask_wf m" "mask_wf n" "bt_wf rows"
  shows "mask_selected R (mask_not m) x = (\<not> mask_selected R m x) \<and>
    mask_selected R (mask_and R m n) x = (mask_selected R m x \<and> mask_selected R n x) \<and> mask_wf (mask_and R m n) \<and>
    mask_selected R (mask_intersect R m n) x = (mask_selected R m x \<and> mask_selected R n x) \<and>
    mask_selected R (mask_or R m n) x = (mask_selected R m x \<or> mask_selected R n x) \<and> mask_wf (mask_or R m n) \<and>
    mask_selected R (mask_also_block R m rows) x = (mask_selected R m x \<and> \<not> tm_contains R rows x) \<and>
    mask_selected R (mask_also_allow R m rows) x = (mask_selected R m x \<or> tm_contains R rows x) \<and>
    tm_contains R (tm_mask R rows m) x = (tm_contains R rows x \<and> mask_selected R m x)"
  using roaring.mask_and_ok[OF assms(1-3)] roaring.mask_or_ok[OF assms(1-3)]
    roaring.mask_also_block_ok[OF assms(1,2,4)] roaring.mask_also_allow_ok[OF assms(1,2,4)]
    roaring.tm_mask_ok(1)[OF assms(1,4,2)]
  by (simp add: roaring.mask_intersect_eq[OF assms(1)] roaring.selected_not[OF assms(1)] roaring.contains_rows[OF assms(1)])

theorem mask_boolean_algebra_witness:
  "let R = set_roaring; m = AllowList [(1, Full), (2, Partial {3, 4})]; n = BlockList [(2, Partial {4, 5})];
       rows = [(0, Partial {7})]; x = 8589934595 in
    mask_selected R (mask_not m) x = (\<not> mask_selected R m x) \<and>
    mask_selected R (mask_and R m n) x = (mask_selected R m x \<and> mask_selected R n x) \<and> mask_wf (mask_and R m n) \<and>
    mask_selected R (mask_intersect R m n) x = (mask_selected R m x \<and> mask_selected R n x) \<and>
    mask_selected R (mask_or R m n) x = (mask_selected R m x \<or> mask_selected R n x) \<and> mask_wf (mask_or R m n) \<and>
    mask_selected R (mask_also_block R m rows) x = (mask_selected R m x \<and> \<not> tm_contains R rows x) \<and>
    mask_selected R (mask_also_allow R m rows) x = (mask_selected R m x \<or> tm_contains R rows x) \<and>
    tm_contains R (tm_mask R rows m) x = (tm_contains R rows x \<and> mask_selected R m x)"
  unfolding Let_def by (rule mask_boolean_algebra) (simp_all add: set_roaring.roaring_axioms bt_wf_def)



end
