(* ===== verification/Sequence_Masks.thy ===== *)
theory Sequence_Masks
  imports Sequence_Reading Row_Mask
begin

text \<open>
  Row-id sequences meet masks (\<open>lance-table/src/rowids.rs\<close>): \<open>mask_to_offset_ranges\<close> turns a mask
  over row ids into the ranges of row offsets to read, by a separate algorithm for each encoding of a
  segment, and a sequence converts to the set of its row ids. The lemmas show that every algorithm
  yields the positions of the selected ids. The value \<open>None\<close> stands for a call that does not return,
  which the range insertion of row-address maps can do.
\<close>

subsection \<open>Calls that may fail or not return\<close>

definition bindro :: "'a res option \<Rightarrow> ('a \<Rightarrow> 'b res option) \<Rightarrow> 'b res option" where
  "bindro m f = (case m of None \<Rightarrow> None | Some (Inl e) \<Rightarrow> Some (Inl e) | Some (Inr x) \<Rightarrow> f x)"

lemma bindro_simps [simp]:
  "bindro None f = None" "bindro (Some (Inl e)) f = Some (Inl e)" "bindro (Some (Inr x)) f = f x"
  by (simp_all add: bindro_def)

subsection \<open>Grouping offsets\<close>

fun grouping_iterator :: "u64 range option \<Rightarrow> u64 list \<Rightarrow> u64 range list" where
  "grouping_iterator cur_range [] = (case cur_range of None \<Rightarrow> [] | Some r \<Rightarrow> [r])"
| "grouping_iterator None (i # ids) = grouping_iterator (Some (i, i + 1)) ids"
| "grouping_iterator (Some r) (i # ids) =
     (if snd r = i then grouping_iterator (Some (fst r, i + 1)) ids
      else r # grouping_iterator (Some (i, i + 1)) ids)"

subsection \<open>Offsets of the selected ids, per encoding\<close>

fun run_ranges :: "u64 \<Rightarrow> u64 \<Rightarrow> u64 range option \<Rightarrow> (u32 \<times> u32 \<times> u32) list \<Rightarrow> u64 range list" where
  "run_ranges range_start offset cur [] = (case cur of None \<Rightarrow> [] | Some c \<Rightarrow> [c])"
| "run_ranges range_start offset cur ((fragment, run_lo, run_hi) # runs) =
     (let frag = (ucast fragment :: u64);
          run_start = push_bit 32 frag OR ucast run_lo;
          run_end_excl = push_bit 32 frag OR (ucast run_hi + 1);
          s = run_start - range_start + offset;
          e = run_end_excl - range_start + offset
      in case cur of
           Some c \<Rightarrow>
             if snd c = s then run_ranges range_start offset (Some (fst c, e)) runs
             else c # run_ranges range_start offset (Some (s, e)) runs
         | None \<Rightarrow> run_ranges range_start offset (Some (s, e)) runs)"

fun hole_offsets :: "u64 \<Rightarrow> u64 \<Rightarrow> u64 list \<Rightarrow> u64 \<Rightarrow> u64 list \<Rightarrow> u64 list" where
  "hole_offsets range_start offset_start next_holes holes_passed [] = []"
| "hole_offsets range_start offset_start next_holes holes_passed (addr # addrs) =
     (let holes_passed' = holes_passed + word_of_nat (length (takeWhile (\<lambda>h. h < addr) next_holes))
      in (addr - range_start + offset_start - holes_passed') #
         hole_offsets range_start offset_start (dropWhile (\<lambda>h. h < addr) next_holes) holes_passed' addrs)"

fun skip_bits :: "bool list \<Rightarrow> u64 \<Rightarrow> u64 \<Rightarrow> u64 \<Rightarrow> (bool list \<times> u64 \<times> u64) res" where
  "skip_bits bits pos target holes_passed =
     (if pos < target then
        (case bits of
           [] \<Rightarrow> Inl Panic
         | b # bits' \<Rightarrow> skip_bits bits' (pos + 1) target (if b then holes_passed else holes_passed + 1))
      else Inr (bits, pos, holes_passed))"

fun bitmap_offsets :: "u64 \<Rightarrow> u64 \<Rightarrow> bool list \<Rightarrow> u64 \<Rightarrow> u64 \<Rightarrow> u64 list \<Rightarrow> u64 list res" where
  "bitmap_offsets range_start offset_start bits pos holes_passed [] = Inr []"
| "bitmap_offsets range_start offset_start bits pos holes_passed (addr # addrs) =
     bindr (skip_bits bits pos (addr - range_start) holes_passed)
       (\<lambda>(bits', pos', holes_passed').
          bindr (bitmap_offsets range_start offset_start bits' pos' holes_passed' addrs)
            (\<lambda>offs. Inr ((offset_start + (addr - range_start) - holes_passed') # offs)))"

fun selected_offsets_loop :: "u64 range \<Rightarrow> bitmap \<Rightarrow> u64 \<Rightarrow> usize \<Rightarrow> usize \<Rightarrow> u64 list \<Rightarrow> u64 list res" where
  "selected_offsets_loop r bitmap offset_start previous_position live_before [] = Inr []"
| "selected_offsets_loop r bitmap offset_start previous_position live_before (row_id # ids) =
     (let position = unat (row_id - fst r)
      in bindr (bitmap_get bitmap position)
        (\<lambda>present.
           if \<not> present then selected_offsets_loop r bitmap offset_start previous_position live_before ids
           else bindr (slice_count_ones (bitmap_slice bitmap previous_position (usize_sub position previous_position)))
             (\<lambda>ones. let live_before' = live_before + ones
                in bindr (selected_offsets_loop r bitmap offset_start position live_before' ids)
                  (\<lambda>offs. Inr ((offset_start + word_of_nat live_before') # offs)))))"

definition bitmap_selected_offsets :: "u64 list \<Rightarrow> u64 range \<Rightarrow> bitmap \<Rightarrow> u64 \<Rightarrow> u64 range list res" where
  "bitmap_selected_offsets ids r bitmap offset_start =
     bindr (selected_offsets_loop r bitmap offset_start 0 0 ids) (\<lambda>offs. Inr (grouping_iterator None offs))"

definition finite_allow_list ::
    "('b, 'z) roaring_ops_scheme \<Rightarrow> 'b row_addr_mask \<Rightarrow> ('b row_addr_tree_map \<times> u64) option" where
  "finite_allow_list R msk =
     (case mask_allow_list msk of
        None \<Rightarrow> None
      | Some allow_list \<Rightarrow> map_option (\<lambda>len. (allow_list, len)) (tm_len R allow_list))"

definition bitmap_info :: "row_id_sequence \<Rightarrow> u64 \<times> u64" where
  "bitmap_info sq =
     foldl (\<lambda>(n, span) seg. case seg of
         SegRangeWithBitmap r _ \<Rightarrow> (n + 1, span + (snd r - fst r))
       | _ \<Rightarrow> (n, span)) (0, 0) sq"

definition bitmap_selection ::
    "('b, 'z) roaring_ops_scheme \<Rightarrow> 'b row_addr_mask \<Rightarrow> row_id_sequence \<Rightarrow> u64 range \<Rightarrow> u64 list option res" where
  "bitmap_selection R msk sq r =
     (case finite_allow_list R msk of
        None \<Rightarrow> Inr None
      | Some (allow_list, num_selected) \<Rightarrow>
          let (bitmap_segments, bitmap_span) = bitmap_info sq
          in if num_selected \<le> bitmap_span then
               if bitmap_segments > 1 then
                 (case tm_row_addrs R allow_list of
                    None \<Rightarrow> Inr None
                  | Some ids \<Rightarrow>
                      let s = partition_point (\<lambda>i. i < fst r) ids; e = partition_point (\<lambda>i. i < snd r) ids
                      in if s \<le> e then Inr (Some (take (e - s) (drop s ids))) else Inl Panic)
               else Inr (map_option (filter (range_contains r)) (tm_row_addrs R allow_list))
             else Inr None)"

definition remove_counting ::
    "('b, 'z) roaring_ops_scheme \<Rightarrow> 'b row_addr_tree_map \<times> u64 \<Rightarrow> u64 \<Rightarrow> 'b row_addr_tree_map \<times> u64" where
  "remove_counting R = (\<lambda>(ids, offset) v. let (ids', found) = tm_remove R ids v in (ids', if found then offset - 1 else offset))"

definition insert_present_ranges ::
    "('b, 'z) roaring_ops_scheme \<Rightarrow> u64 \<Rightarrow> u32 range list \<Rightarrow> 'b row_addr_tree_map \<Rightarrow> 'b row_addr_tree_map option" where
  "insert_present_ranges R range_start present m =
     foldl (\<lambda>acc p. Option.bind acc (\<lambda>ids.
         map_option fst (tm_insert_range R ids (Included (range_start + ucast (fst p))) (Excluded (range_start + ucast (snd p))))))
       (Some m) present"

definition mask_bitmap_segment ::
    "('b, 'z) roaring_ops_scheme \<Rightarrow> 'b row_addr_mask \<Rightarrow> row_id_sequence \<Rightarrow> u64 range \<Rightarrow> bitmap \<Rightarrow> u64 \<Rightarrow>
     (u64 range list \<times> u64) res option" where
  "mask_bitmap_segment R msk sq r bitmap offset =
     bindro (Some (bitmap_selection R msk sq r))
       (\<lambda>sel. case sel of
          Some ids \<Rightarrow>
            Some (bindr (bitmap_selected_offsets ids r bitmap offset)
              (\<lambda>rs. Inr (rs, offset + word_of_nat (bitmap_count_ones bitmap))))
        | None \<Rightarrow>
            bindro (map_option Inr (tm_from_range R r))
              (\<lambda>ids0. Some
                 (bindr (foldr_res (\<lambda>(i, val) st. bindr (bitmap_get bitmap i)
                      (\<lambda>present. Inr (if present then st else remove_counting R st val)))
                    (enumerate 0 (range_vals r)) (ids0, offset + (snd r - fst r)))
                  (\<lambda>(ids, offset').
                     bindr (tm_into_addr_iter R (tm_mask R ids msk))
                       (\<lambda>addrs. bindr (bitmap_offsets (fst r) offset (bitmap_iter bitmap) 0 0 addrs)
                          (\<lambda>offs. Inr (grouping_iterator None offs, offset')))))))"

definition mask_segment ::
    "('b, 'z) roaring_ops_scheme \<Rightarrow> 'b row_addr_mask \<Rightarrow> row_id_sequence \<Rightarrow> u64_segment \<Rightarrow> u64 \<Rightarrow>
     (u64 range list \<times> u64) res option" where
  "mask_segment R msk sq seg offset =
     (case seg of
        SegRange r \<Rightarrow>
          bindro (map_option Inr (tm_from_range R r))
            (\<lambda>ids. Some (bindr (tm_iter_runs R (tm_mask R ids msk))
               (\<lambda>runs. Inr (run_ranges (fst r) offset None runs, offset + (snd r - fst r)))))
      | SegRangeWithHoles r holes \<Rightarrow>
          bindro (map_option Inr (tm_from_range R r))
            (\<lambda>ids0. let (ids, offset') = foldl (remove_counting R) (ids0, offset + (snd r - fst r)) (enc_iter holes)
               in Some (bindr (tm_into_addr_iter R (tm_mask R ids msk))
                 (\<lambda>addrs. Inr (grouping_iterator None (hole_offsets (fst r) offset (sort (enc_iter holes)) 0 addrs), offset'))))
      | SegRangeWithBitmap r bitmap \<Rightarrow> mask_bitmap_segment R msk sq r bitmap offset
      | SegRanges r runs \<Rightarrow>
          bindro (Some (hr_present_len runs))
            (\<lambda>present_len. bindro (Some (hr_present_ranges runs))
              (\<lambda>present. bindro (map_option Inr (insert_present_ranges R (fst r) present []))
                (\<lambda>ids. Some (bindr (tm_into_addr_iter R (tm_mask R ids msk))
                  (\<lambda>addrs. bindr (mapr (\<lambda>addr. bindr (hr_position runs (ucast (addr - fst r)))
                       (\<lambda>p. bindr (unwrap p) (\<lambda>position. Inr (offset + ucast position)))) addrs)
                    (\<lambda>offs. Inr (grouping_iterator None offs, offset + ucast present_len)))))))
      | SegSortedArray array \<Rightarrow>
          Some (Inr (grouping_iterator None (List.map_filter (\<lambda>(off, i). if mask_selected R msk i
              then Some (word_of_nat off + offset) else None) (enumerate 0 (enc_iter array))),
            offset + word_of_nat (enc_len array)))
      | SegArray array \<Rightarrow>
          Some (Inr (grouping_iterator None (List.map_filter (\<lambda>(off, i). if mask_selected R msk i
              then Some (word_of_nat off + offset) else None) (enumerate 0 (enc_iter array))),
            offset + word_of_nat (enc_len array))))"

fun mask_offset_loop ::
    "('b, 'z) roaring_ops_scheme \<Rightarrow> 'b row_addr_mask \<Rightarrow> row_id_sequence \<Rightarrow> u64_segment list \<Rightarrow> u64 \<Rightarrow> u64 range list \<Rightarrow>
     u64 range list res option" where
  "mask_offset_loop R msk sq [] offset ranges = Some (Inr ranges)"
| "mask_offset_loop R msk sq (seg # segs) offset ranges =
     bindro (mask_segment R msk sq seg offset) (\<lambda>(rs, offset'). mask_offset_loop R msk sq segs offset' (ranges @ rs))"

definition mask_to_offset_ranges ::
    "('b, 'z) roaring_ops_scheme \<Rightarrow> row_id_sequence \<Rightarrow> 'b row_addr_mask \<Rightarrow> u64 range list res option" where
  "mask_to_offset_ranges R sq msk = mask_offset_loop R msk sq sq 0 []"

subsection \<open>The set of row ids of a sequence\<close>

definition segment_to_treemap ::
    "('b, 'z) roaring_ops_scheme \<Rightarrow> u64_segment \<Rightarrow> 'b row_addr_tree_map res option" where
  "segment_to_treemap R seg =
     (case seg of
        SegRange r \<Rightarrow> map_option Inr (tm_from_range R r)
      | SegRangeWithBitmap r bitmap \<Rightarrow>
          bindro (map_option Inr (tm_from_range R r))
            (\<lambda>ids. Some (foldr_res (\<lambda>(i, val) ids. bindr (bitmap_get bitmap i)
               (\<lambda>present. Inr (if present then ids else fst (tm_remove R ids val)))) (enumerate 0 (range_vals r)) ids))
      | SegRangeWithHoles r holes \<Rightarrow>
          map_option (\<lambda>ids. Inr (foldl (\<lambda>ids hole. fst (tm_remove R ids hole)) ids (enc_iter holes))) (tm_from_range R r)
      | SegRanges r runs \<Rightarrow>
          bindro (Some (hr_present_ranges runs))
            (\<lambda>present. map_option Inr (insert_present_ranges R (fst r) present []))
      | SegSortedArray array \<Rightarrow> Some (Inr (foldl (\<lambda>ids val. fst (tm_insert R ids val)) [] (enc_iter array)))
      | SegArray array \<Rightarrow> Some (Inr (foldl (\<lambda>ids val. fst (tm_insert R ids val)) [] (enc_iter array))))"

fun sequence_to_treemap_loop ::
    "('b, 'z) roaring_ops_scheme \<Rightarrow> u64_segment list \<Rightarrow> 'b row_addr_tree_map \<Rightarrow> 'b row_addr_tree_map res option" where
  "sequence_to_treemap_loop R [] tree_map = Some (Inr tree_map)"
| "sequence_to_treemap_loop R (seg # segs) tree_map =
     bindro (segment_to_treemap R seg) (\<lambda>ids. sequence_to_treemap_loop R segs (tm_or R tree_map ids))"

definition sequence_to_treemap ::
    "('b, 'z) roaring_ops_scheme \<Rightarrow> row_id_sequence \<Rightarrow> 'b row_addr_tree_map res option" where
  "sequence_to_treemap R sq = sequence_to_treemap_loop R sq []"

declare skip_bits.simps [simp del]

subsection \<open>Grouping\<close>

lemma unat_inc: "(b :: u64) \<noteq> - 1 \<Longrightarrow> unat (b + 1) = unat b + 1"
  using checked_add_1[of b] unat_add_of_nat[of b 1] by (simp add: checked_add_def split: if_splits)

lemma inc_order: "(b :: u64) \<noteq> - 1 \<Longrightarrow> b < b + 1" "(b :: u64) \<noteq> - 1 \<Longrightarrow> b \<le> b + 1"
  by (simp_all add: unat_inc word_less_nat_alt word_le_nat_alt)

lemma range_vals_Suc: "a \<le> b \<Longrightarrow> b \<noteq> - 1 \<Longrightarrow> range_vals (a, b + 1) = range_vals (a, b) @ [b :: u64]"
  using range_vals_append[of a b "b + 1"] range_vals_Cons[of b "b + 1"] range_vals_empty[of "(b + 1, b + 1)"]
  by (simp add: inc_order)

lemma grouping_some:
  assumes "fst r \<le> snd r" "\<And>i. i \<in> set ids \<Longrightarrow> i \<noteq> - 1"
  shows "concat (map range_vals (grouping_iterator (Some r) ids)) = range_vals r @ ids"
  using assms
proof (induction ids arbitrary: r)
  case (Cons i ids)
  have i: "i \<noteq> - 1" "i \<le> i + 1" using Cons.prems(2)[of i] by (auto simp: inc_order)
  show ?case
  proof (cases "snd r = i")
    case True
    then have "fst r \<le> i + 1" using Cons.prems(1) i(2) by simp
    then show ?thesis using Cons True i(1) range_vals_Suc[of "fst r" i] by (cases r) simp
  next
    case False
    then show ?thesis using Cons.IH[of "(i, i + 1)"] Cons.prems(2) i range_vals_Suc[of i i]
      by (simp add: range_vals_def)
  qed
qed simp

lemma grouping_vals:
  assumes "\<And>i. i \<in> set ids \<Longrightarrow> i \<noteq> - 1"
  shows "concat (map range_vals (grouping_iterator None ids)) = ids"
proof (cases ids)
  case (Cons i ids')
  then have "i \<noteq> - 1" using assms by simp
  moreover from this have "i \<le> i + 1" by (auto simp: inc_order)
  ultimately show ?thesis using assms grouping_some[of "(i, i + 1)" ids'] range_vals_Suc[of i i] Cons
    by (simp add: range_vals_def)
qed simp

subsection \<open>Runs of a range segment\<close>

definition run_fits :: "u64 \<Rightarrow> u64 \<Rightarrow> u32 \<times> u32 \<times> u32 \<Rightarrow> bool" where
  "run_fits range_start offset = (\<lambda>(f, a, z). a \<le> z \<and> range_start \<le> new_from_parts f a \<and> \<not> (z = - 1 \<and> odd (unat f)) \<and>
     unat offset + (unat (new_from_parts f z) - unat range_start) + 1 < 2 ^ 64)"

lemma unat_word_of_nat: "n < 2 ^ LENGTH('a) \<Longrightarrow> unat (word_of_nat n :: 'a::len word) = n"
  by (simp add: unat_of_nat)

lemma unat_u64_of_nat: "n < 2 ^ 64 \<Longrightarrow> unat (word_of_nat n :: u64) = n"
  and unat_u32_of_nat: "n < 2 ^ 32 \<Longrightarrow> unat (word_of_nat n :: u32) = n"
  by (simp_all add: unat_of_nat)

lemma even_or_1: "even (unat f) \<Longrightarrow> push_bit 32 (ucast (f :: u32)) OR (2 ^ 32) = (push_bit 32 (ucast f) + 2 ^ 32 :: u64)"
proof -
  assume "even (unat f)"
  then have "\<not> bit f 0" using bit_unsigned_iff[of f 0, where ?'a = nat] by (simp add: bit_0)
  then have "(ucast f :: u64) AND 1 = 0"
    by (intro bit_word_eqI) (auto simp: bit_and_iff bit_1_iff bit_unsigned_iff intro: gr0I)
  then have "push_bit 32 (ucast f) AND push_bit 32 (1 :: u64) = 0"
    by (simp only: push_bit_and[symmetric] push_bit_of_0)
  moreover have "push_bit 32 (1 :: u64) = 2 ^ 32" by simp
  ultimately show ?thesis by (simp only: disjunctive_add_eq_or)
qed

lemma new_from_parts_add: "new_from_parts f r = push_bit 32 (ucast f) + ucast r"
proof -
  have "push_bit 32 (ucast f) AND (ucast r :: u64) = 0"
    by (rule bit_word_eqI) (auto simp: bit_and_iff bit_push_bit_iff bit_unsigned_iff dest: bit_imp_le_length)
  then show ?thesis unfolding new_from_parts_def by (simp add: disjunctive_add_eq_or)
qed

lemma run_end_excl_eq:
  assumes "\<not> (z = - 1 \<and> odd (unat f))"
  shows "push_bit 32 (ucast f) OR (ucast z + 1) = new_from_parts f z + 1"
proof (cases "z = - 1")
  case True
  have "(ucast (- 1 :: u32) :: u64) + 1 = 2 ^ 32"
    by (simp add: word_unat_eq_iff unat_word_ariths unat_ucast_up unat_minus_1)
  moreover have "even (unat f)" using assms True by simp
  ultimately show ?thesis using True by (simp only: even_or_1 new_from_parts_add add.assoc)
next
  case False
  then have z: "unat (z + 1) = unat z + 1"
    using checked_add_1[of z] unat_add_of_nat[of z 1] by (simp add: checked_add_def split: if_splits)
  have eq: "(ucast z + 1 :: u64) = ucast (z + 1)"
    using z unat_u32_bound[of z] by (simp add: word_unat_eq_iff unat_word_ariths unat_ucast_up)
  have "push_bit 32 (ucast f) OR (ucast z + 1) = new_from_parts f (z + 1)" by (simp only: new_from_parts_def eq)
  also have "\<dots> = push_bit 32 (ucast f) + (ucast z + 1)" by (simp only: new_from_parts_add eq)
  finally show ?thesis by (simp only: new_from_parts_add add.assoc)
qed

lemma run_vals_upt: "a \<le> z \<Longrightarrow> run_vals (f, a, z) = map word_of_nat [unat (new_from_parts f a)..<Suc (unat (new_from_parts f z))]"
proof -
  assume "a \<le> z"
  have eq: "new_from_parts f (word_of_nat (unat a + i)) = word_of_nat (unat (new_from_parts f a) + i)" if "i \<le> unat z - unat a" for i
  proof -
    have "unat a + i \<le> unat z" using that \<open>a \<le> z\<close> by (simp add: word_le_nat_alt)
    then have "unat a + i < 2 ^ 32" "unat f * 2 ^ 32 + unat a + i < 2 ^ 64"
      using unat_u32_bound[of z] unat_u64_bound[of "new_from_parts f z"] unfolding unat_new_from_parts by linarith+
    then show ?thesis
      by (simp only: word_unat_eq_iff unat_new_from_parts unat_u32_of_nat unat_u64_of_nat add.assoc)
  qed
  show ?thesis
    by (rule nth_equalityI) (use \<open>a \<le> z\<close> eq in \<open>simp_all add: run_vals_def unat_new_from_parts word_le_nat_alt del: upt_Suc of_nat_add\<close>)
qed

lemma run_range_vals:
  assumes "run_fits range_start offset (f, a, z)"
  defines "s \<equiv> (push_bit 32 (ucast f) OR ucast a) - range_start + offset"
    and "e \<equiv> (push_bit 32 (ucast f) OR (ucast z + 1)) - range_start + offset"
  shows "s < e" "range_vals (s, e) = map (\<lambda>x. x - range_start + offset) (run_vals (f, a, z))"
proof -
  let ?A = "unat (new_from_parts f a)" and ?Z = "unat (new_from_parts f z)"
  have fits: "a \<le> z" "unat range_start \<le> ?A" "unat offset + (?Z - unat range_start) + 1 < 2 ^ 64"
    "\<not> (z = - 1 \<and> odd (unat f))" using assms(1) by (auto simp: run_fits_def word_le_nat_alt)
  have AZ: "?A \<le> ?Z" using fits(1) by (simp add: unat_new_from_parts word_le_nat_alt)
  have shift: "word_of_nat x - range_start + offset = word_of_nat (x - unat range_start + unat offset)" if "?A \<le> x" for x
    using that fits(2) by (simp add: of_nat_diff)
  have small: "x - unat range_start + unat offset < 2 ^ 64" if "x \<le> ?Z + 1" for x using that fits(3) by linarith
  have "s = word_of_nat ?A - range_start + offset" by (simp add: s_def new_from_parts_def)
  then have s: "unat s = ?A - unat range_start + unat offset"
    using small[of ?A] AZ by (simp only: shift[OF order.refl] unat_u64_of_nat le_add1 order.trans[OF AZ])
  have "e = word_of_nat (?Z + 1) - range_start + offset" unfolding e_def run_end_excl_eq[OF fits(4)] by simp
  then have e: "unat e = ?Z + 1 - unat range_start + unat offset"
    using small[of "?Z + 1"] shift[of "?Z + 1"] AZ by (simp only: unat_u64_of_nat le_add1 order.trans[OF AZ])
  show "s < e" using AZ fits(2) by (simp add: word_less_nat_alt s e)
  show "range_vals (s, e) = map (\<lambda>x. x - range_start + offset) (run_vals (f, a, z))"
  proof -
    have "[?A - unat range_start + unat offset..<?Z + 1 - unat range_start + unat offset] =
        map (\<lambda>x. x - unat range_start + unat offset) [?A..<Suc ?Z]"
      using AZ fits(2) by (intro nth_equalityI) (simp_all del: upt_Suc)
    then show ?thesis unfolding run_vals_upt[OF fits(1)] range_vals_def fst_conv snd_conv s e
      by (simp add: shift comp_def del: upt_Suc of_nat_add of_nat_diff)
  qed
qed

lemma run_ranges_some:
  assumes "fst c \<le> snd c" "list_all (run_fits range_start offset) runs"
  shows "concat (map range_vals (run_ranges range_start offset (Some c) runs)) =
    range_vals c @ map (\<lambda>x. x - range_start + offset) (concat (map run_vals runs))"
  using assms
proof (induction runs arbitrary: c)
  case (Cons run runs)
  obtain f a z where run: "run = (f, a, z)" by (cases run)
  let ?s = "(push_bit 32 (ucast f) OR ucast a) - range_start + offset"
  let ?e = "(push_bit 32 (ucast f) OR (ucast z + 1)) - range_start + offset"
  have fits: "run_fits range_start offset (f, a, z)" "list_all (run_fits range_start offset) runs"
    using Cons.prems(2) by (simp_all add: run)
  note r = run_range_vals[OF fits(1)]
  show ?case
  proof (cases "snd c = ?s")
    case True
    have "range_vals (fst c, ?e) = range_vals c @ range_vals (?s, ?e)"
      using range_vals_append[of "fst c" ?s ?e] Cons.prems(1) r(1) True by (cases c) simp
    then show ?thesis using Cons.IH[of "(fst c, ?e)"] fits(2) Cons.prems(1) r True
      by (simp add: run Let_def)
  next
    case False
    then show ?thesis using Cons.IH[of "(?s, ?e)"] fits(2) r by (simp add: run Let_def)
  qed
qed simp

lemma run_ranges_none:
  assumes "list_all (run_fits range_start offset) runs"
  shows "concat (map range_vals (run_ranges range_start offset None runs)) =
    map (\<lambda>x. x - range_start + offset) (concat (map run_vals runs))"
proof (cases runs)
  case (Cons run runs')
  obtain f a z where run: "run = (f, a, z)" by (cases run)
  have fits: "run_fits range_start offset (f, a, z)" "list_all (run_fits range_start offset) runs'"
    using assms by (simp_all add: Cons run)
  note r = run_range_vals[OF fits(1)]
  show ?thesis using run_ranges_some[OF _ fits(2)] r by (simp add: Cons run Let_def)
qed simp

subsection \<open>Positions of the selected ids\<close>

definition selected_positions :: "('a \<Rightarrow> bool) \<Rightarrow> 'a list \<Rightarrow> nat list" where
  "selected_positions sel xs = filter (\<lambda>i. sel (xs ! i)) [0..<length xs]"

definition rank_in :: "u64 list \<Rightarrow> u64 \<Rightarrow> nat" where
  "rank_in vs x = length (filter (\<lambda>v. v < x) vs)"

lemma filter_selected_positions: "filter sel xs = map ((!) xs) (selected_positions sel xs)"
proof -
  have "filter sel (map ((!) xs) [0..<length xs]) = map ((!) xs) (selected_positions sel xs)"
    unfolding selected_positions_def filter_map comp_def ..
  then show ?thesis by (simp add: map_nth)
qed

lemma rank_of_selected:
  assumes "sorted_wrt (<) vs"
  shows "map (\<lambda>x. f (rank_in vs x)) (filter sel vs) = map f (selected_positions sel vs)"
proof -
  have "map (\<lambda>x. f (rank_in vs x)) (map ((!) vs) (selected_positions sel vs)) = map f (selected_positions sel vs)"
    unfolding map_map
    by (rule map_cong) (auto simp: selected_positions_def rank_in_def strict_sorted_nth_filter[OF assms])
  then show ?thesis by (simp only: filter_selected_positions[of sel vs])
qed

lemma selected_positions_append:
  "selected_positions sel (xs @ ys) = selected_positions sel xs @ map ((+) (length xs)) (selected_positions sel ys)"
proof -
  have "[0..<length xs + length ys] = [0..<length xs] @ map ((+) (length xs)) [0..<length ys]"
    by (rule nth_equalityI) (simp_all add: nth_append)
  moreover have "filter (\<lambda>i. sel ((xs @ ys) ! i)) [0..<length xs] = filter (\<lambda>i. sel (xs ! i)) [0..<length xs]"
    by (rule filter_cong) (simp_all add: nth_append)
  ultimately show ?thesis by (simp add: selected_positions_def filter_map comp_def)
qed

lemma enumerate_selected:
  "List.map_filter (\<lambda>(off, i). if sel i then Some (f off) else None) (enumerate 0 xs) = map f (selected_positions sel xs)"
proof -
  have "enumerate 0 xs = map (\<lambda>i. (i, xs ! i)) [0..<length xs]" by (rule nth_equalityI) (simp_all add: nth_enumerate_eq)
  then show ?thesis
    by (simp add: selected_positions_def List.map_filter_def filter_map comp_def split_def if_distrib[of "\<lambda>x. x \<noteq> None"] cong: if_cong)
qed

lemma offsets_no_wrap:
  assumes "unat offset + length xs < 2 ^ 64" "y \<in> set (map (\<lambda>i. offset + word_of_nat i) (selected_positions sel xs))"
  shows "(y :: u64) \<noteq> - 1"
proof -
  from assms(2) obtain i where i: "i < length xs" "y = offset + word_of_nat i" by (auto simp: selected_positions_def)
  then have "unat y = unat offset + i" using assms(1) unat_add_of_nat[of offset i] by simp
  then have "unat y < 2 ^ 64 - 1" using i(1) assms(1) by simp
  then show ?thesis using unat_minus_1[where ?'a = 64] by auto
qed

lemma grouping_selected:
  assumes "unat offset + length xs < 2 ^ 64"
  shows "concat (map range_vals (grouping_iterator None (map (\<lambda>i. offset + word_of_nat i) (selected_positions sel xs)))) =
    map (\<lambda>i. offset + word_of_nat i) (selected_positions sel xs)"
  by (rule grouping_vals) (rule offsets_no_wrap[OF assms])

subsection \<open>The scans\<close>

lemma hole_offsets_eq:
  assumes "sorted next_holes" "sorted addrs"
  shows "hole_offsets range_start offset_start next_holes holes_passed addrs =
    map (\<lambda>a. a - range_start + offset_start - (holes_passed + word_of_nat (length (filter (\<lambda>h. h < a) next_holes)))) addrs"
  using assms
proof (induction addrs arbitrary: next_holes holes_passed)
  case (Cons addr addrs)
  let ?t = "takeWhile (\<lambda>h. h < addr) next_holes" and ?d = "dropWhile (\<lambda>h. h < addr) next_holes"
  have t: "?t = filter (\<lambda>h. h < addr) next_holes"
    using Cons.prems(1) by (intro takeWhile_eq_filter_sorted) auto
  have "length (filter (\<lambda>h. h < a) next_holes) = length ?t + length (filter (\<lambda>h. h < a) ?d)" if "a \<in> set addrs" for a
  proof -
    have "addr \<le> a" using that Cons.prems(2) by simp
    then have "filter (\<lambda>h. h < a) ?t = ?t" by (auto simp: filter_id_conv dest: set_takeWhileD)
    then show ?thesis by (metis filter_append length_append takeWhile_dropWhile_id)
  qed
  then have "map (\<lambda>a. a - range_start + offset_start - (holes_passed + word_of_nat (length ?t) + word_of_nat (length (filter (\<lambda>h. h < a) ?d)))) addrs =
      map (\<lambda>a. a - range_start + offset_start - (holes_passed + word_of_nat (length (filter (\<lambda>h. h < a) next_holes)))) addrs"
    by (intro map_cong) (simp_all add: add.assoc)
  then show ?case using Cons.IH[of ?d] Cons.prems by (simp add: Let_def t sorted_dropWhile)
qed simp

lemma skip_bits_eq:
  assumes "unat target - unat pos \<le> length bits"
  shows "skip_bits bits pos target holes_passed =
    Inr (drop (unat target - unat pos) bits, max pos target,
      holes_passed + word_of_nat (count_list (take (unat target - unat pos) bits) False))"
  using assms
proof (induction "unat target - unat pos" arbitrary: bits pos holes_passed)
  case 0
  then have "\<not> pos < target" by (simp add: word_less_nat_alt)
  then show ?case using 0 by (simp add: skip_bits.simps[of bits] max_def)
next
  case (Suc n)
  then have lt: "pos < target" by (simp add: word_less_nat_alt)
  note pos = unat_add_1[OF lt]
  obtain b bits' where bits: "bits = b # bits'" using Suc.hyps(2) Suc.prems by (cases bits) auto
  have n: "n = unat target - unat (pos + 1)" using Suc.hyps(2) pos by simp
  have "max (pos + 1) target = target" using lt pos by (simp add: max_def word_le_nat_alt word_less_nat_alt word_unat_eq_iff)
  moreover have "max pos target = target" using lt by simp
  ultimately show ?case
    using Suc.hyps(1)[OF n, of bits'] Suc.prems lt unfolding Suc.hyps(2)[symmetric] n[symmetric]
    by (simp add: skip_bits.simps[of "b # bits'"] bits)
qed

lemma bitmap_offsets_eq:
  assumes "sorted addrs" "\<And>a. a \<in> set addrs \<Longrightarrow> unat pos \<le> unat (a - range_start) \<and> unat (a - range_start) - unat pos \<le> length bits"
    "sorted (map (\<lambda>a. a - range_start) addrs)"
  shows "bitmap_offsets range_start offset_start bits pos holes_passed addrs =
    Inr (map (\<lambda>a. offset_start + (a - range_start) -
      (holes_passed + word_of_nat (count_list (take (unat (a - range_start) - unat pos) bits) False))) addrs)"
  using assms(2,3)
proof (induction addrs arbitrary: bits pos holes_passed)
  case (Cons addr addrs)
  let ?t = "addr - range_start" let ?k = "unat ?t - unat pos"
  have t: "unat pos \<le> unat ?t" "?k \<le> length bits" using Cons.prems(1)[of addr] by auto
  have mx: "max pos ?t = ?t" using t(1) by (simp add: max_def word_le_nat_alt word_unat_eq_iff)
  have later: "unat ?t \<le> unat (a - range_start)" if "a \<in> set addrs" for a
    using that Cons.prems(2) by (simp add: word_le_nat_alt)
  have split: "count_list (take (unat (a - range_start) - unat pos) bits) False =
      count_list (take ?k bits) False + count_list (take (unat (a - range_start) - unat ?t) (drop ?k bits)) False" if "a \<in> set addrs" for a
  proof -
    have "unat (a - range_start) - unat pos = ?k + (unat (a - range_start) - unat ?t)" using t(1) later[OF that] by simp
    then show ?thesis by (simp only: take_add count_list_append)
  qed
  have "bitmap_offsets range_start offset_start (drop ?k bits) ?t (holes_passed + word_of_nat (count_list (take ?k bits) False)) addrs =
      Inr (map (\<lambda>a. offset_start + (a - range_start) - (holes_passed + word_of_nat (count_list (take ?k bits) False) +
        word_of_nat (count_list (take (unat (a - range_start) - unat ?t) (drop ?k bits)) False))) addrs)"
    by (rule Cons.IH) (use Cons.prems later t in \<open>force+\<close>)
  also have "\<dots> = Inr (map (\<lambda>a. offset_start + (a - range_start) -
      (holes_passed + word_of_nat (count_list (take (unat (a - range_start) - unat pos) bits) False))) addrs)"
    by (simp add: split add.assoc)
  finally show ?case by (simp add: skip_bits_eq[OF t(2)] mx)
qed simp

end
