(* ===== verification/Sequence_Selection.thy ===== *)
theory Sequence_Selection
  imports Sequence_Masks
begin

text \<open>
  Correctness of \<open>RowIdSequence::mask_to_offset_ranges\<close> and of the conversion of a sequence to a
  row-address map: per encoding, the scan over the ids that survive the mask finds their ranks among
  the values of the segment, and the segments add up.
\<close>

subsection \<open>Bitmap segments\<close>

lemma rank_in_bitmap:
  assumes "segment_wf (SegRangeWithBitmap r bm)" "range_contains r v"
  shows "rank_in (segment_vals (SegRangeWithBitmap r bm)) v = count_list (take (unat (v - fst r)) (bitmap_bits bm)) True"
    "count_list (take (unat (v - fst r)) (bitmap_bits bm)) False + rank_in (segment_vals (SegRangeWithBitmap r bm)) v =
      unat (v - fst r)"
proof -
  note m = bitmap_member[OF assms]
  let ?n = "unat (v - fst r)"
  have v: "fst r \<le> v" using assms(2) by (simp add: range_contains_def)
  have wf: "bitmap_wf bm" "?n \<le> bm_len bm" using assms(1) m(2) by simp_all
  have "rank_in (segment_vals (SegRangeWithBitmap r bm)) v = length (filter (\<lambda>x. x < ?n) (bitmap_present bm))"
    using position_prefix_count[of r "bitmap_present bm" v] v assms(1) segment_offs_bound(2)[OF assms(1)] m(3)
    by (simp add: rank_in_def)
  moreover have "count_list (take ?n (bitmap_bits bm)) False = ?n - length (filter (\<lambda>x. x < ?n) (bitmap_present bm))"
    "length (filter (\<lambda>x. x < ?n) (bitmap_present bm)) \<le> ?n"
    using count_present_prefix[OF wf] slice_count_zeros_eq[OF wf(1), of 0 ?n] wf(2) by simp_all
  moreover have "count_list (take ?n (bitmap_bits bm)) True + count_list (take ?n (bitmap_bits bm)) False = ?n"
    using count_list_bool[of "take ?n (bitmap_bits bm)"] wf by simp
  ultimately show "rank_in (segment_vals (SegRangeWithBitmap r bm)) v = count_list (take ?n (bitmap_bits bm)) True"
    "count_list (take ?n (bitmap_bits bm)) False + rank_in (segment_vals (SegRangeWithBitmap r bm)) v = ?n" by linarith+
qed

lemma selected_offsets_loop_eq:
  assumes wf: "segment_wf (SegRangeWithBitmap r bm)" and "sorted ids"
    "\<And>i. i \<in> set ids \<Longrightarrow> range_contains r i \<and> previous \<le> unat (i - fst r)"
    "live = count_list (take previous (bitmap_bits bm)) True"
  shows "selected_offsets_loop r bm offset_start previous live ids =
    Inr (map (\<lambda>i. offset_start + word_of_nat (rank_in (segment_vals (SegRangeWithBitmap r bm)) i))
      (filter (\<lambda>i. i \<in> set (segment_vals (SegRangeWithBitmap r bm))) ids))"
  using assms(2-)
proof (induction ids arbitrary: previous live)
  case (Cons i ids)
  let ?vs = "segment_vals (SegRangeWithBitmap r bm)" and ?p = "unat (i - fst r)"
  have i: "range_contains r i" "previous \<le> ?p" using Cons.prems(2)[of i] by auto
  note m = bitmap_member[OF wf i(1)]
  have le: "fst r \<le> i" using i(1) by (simp add: range_contains_def)
  have later: "?p \<le> unat (j - fst r)" if "j \<in> set ids" for j
  proof -
    have "i \<le> j" "fst r \<le> j" using that Cons.prems(1) Cons.prems(2)[of j] le by (auto simp: range_contains_def)
    then show ?thesis using le by (simp add: unat_diff_word word_le_nat_alt)
  qed
  show ?case
  proof (cases "i \<in> set ?vs")
    case False
    have "selected_offsets_loop r bm offset_start previous live ids =
      Inr (map (\<lambda>i. offset_start + word_of_nat (rank_in ?vs i)) (filter (\<lambda>i. i \<in> set ?vs) ids))"
      by (rule Cons.IH) (use Cons.prems in auto)
    then show ?thesis using False m(1) by (simp add: Let_def del: segment_vals.simps)
  next
    case True
    have a: "slice_count_ones (bitmap_slice bm previous (?p - previous)) =
        Inr (count_list (take (?p - previous) (drop previous (bitmap_bits bm))) True)"
      using wf m(2) i(2) by (intro slice_count_ones_eq) auto
    have b: "live + count_list (take (?p - previous) (drop previous (bitmap_bits bm))) True = rank_in ?vs i"
      using i(2) unfolding Cons.prems(3) rank_in_bitmap(1)[OF wf i(1)]
      by (metis count_list_append le_add_diff_inverse take_add)
    have c: "selected_offsets_loop r bm offset_start ?p (rank_in ?vs i) ids =
      Inr (map (\<lambda>i. offset_start + word_of_nat (rank_in ?vs i)) (filter (\<lambda>i. i \<in> set ?vs) ids))"
      by (rule Cons.IH) (use Cons.prems later rank_in_bitmap(1)[OF wf i(1)] in auto)
    have g: "bitmap_get bm ?p = Inr True" using m(1) True by simp
    show ?thesis
      by (simp only: selected_offsets_loop.simps Let_def g bindr_simps not_True_eq_False if_False usize_sub_le[OF i(2)]
          a b c filter.simps True if_True list.map)
  qed
qed simp

lemma bitmap_scan_offsets:
  assumes wf: "segment_wf (SegRangeWithBitmap r bm)" and "sorted ids" "\<And>i. i \<in> set ids \<Longrightarrow> range_contains r i"
  shows "bitmap_offsets (fst r) offset (bitmap_iter bm) 0 0 ids =
    Inr (map (\<lambda>i. offset + word_of_nat (rank_in (segment_vals (SegRangeWithBitmap r bm)) i)) ids)"
proof -
  have le: "fst r \<le> i" if "i \<in> set ids" for i using assms(3)[OF that] by (simp add: range_contains_def)
  have mono: "sorted (map (\<lambda>a. a - fst r) ids)"
    using assms(2) unfolding sorted_wrt_map
    by (rule sorted_wrt_mono_rel[rotated]) (use le in \<open>auto simp: word_le_nat_alt unat_diff_word\<close>)
  have "bitmap_offsets (fst r) offset (bitmap_iter bm) 0 0 ids =
    Inr (map (\<lambda>a. offset + (a - fst r) - (0 + word_of_nat (count_list (take (unat (a - fst r) - unat (0 :: u64)) (bitmap_iter bm)) False))) ids)"
    using bitmap_member(2)[OF wf assms(3)] wf
    by (intro bitmap_offsets_eq[OF assms(2) _ mono]) (auto simp: bitmap_iter_eq less_imp_le)
  also have "\<dots> = Inr (map (\<lambda>i. offset + word_of_nat (rank_in (segment_vals (SegRangeWithBitmap r bm)) i)) ids)"
  proof -
    have "offset + (a - fst r) - word_of_nat (count_list (take (unat (a - fst r)) (bitmap_bits bm)) False) =
        offset + word_of_nat (rank_in (segment_vals (SegRangeWithBitmap r bm)) a)" if "a \<in> set ids" for a
    proof -
      have "a - fst r = word_of_nat (count_list (take (unat (a - fst r)) (bitmap_bits bm)) False +
          rank_in (segment_vals (SegRangeWithBitmap r bm)) a)"
        unfolding rank_in_bitmap(2)[OF wf assms(3)[OF that]] by simp
      then show ?thesis by (simp only: of_nat_add) (simp add: algebra_simps)
    qed
    then show ?thesis by (simp add: bitmap_iter_eq del: segment_vals.simps)
  qed
  finally show ?thesis .
qed

lemma range_positions:
  "map (\<lambda>x. x - fst r + offset) (filter sel (range_vals r)) =
   map (\<lambda>i. offset + word_of_nat i) (selected_positions sel (range_vals r))"
  unfolding filter_selected_positions[of sel "range_vals r"] map_map
  by (rule map_cong) (auto simp: selected_positions_def nth_range_vals)

lemma rank_in_holes:
  assumes "segment_wf (SegRangeWithHoles r holes)" "fst r \<le> v" "v \<le> snd r"
  shows "rank_in (segment_vals (SegRangeWithHoles r holes)) v + length (filter (\<lambda>h. h < v) (enc_iter holes)) =
    unat v - unat (fst r)"
proof -
  let ?H = "enc_iter holes"
  have "filter (\<lambda>x. x < v) (segment_vals (SegRangeWithHoles r holes)) =
      filter (\<lambda>x. x \<notin> set ?H) (filter (\<lambda>x. x < v) (range_vals r))" by (simp add: conj_commute)
  also have "\<dots> = filter (\<lambda>x. x \<notin> set ?H) (range_vals (fst r, v))"
    using range_vals_prefix[of "fst r" v "snd r"] assms(2,3) by simp
  finally show ?thesis
    using length_filter_holes[of ?H "fst r" v] assms by (simp add: list_all_set rank_in_def)
qed

lemma length_holes:
  assumes "segment_wf (SegRangeWithHoles r holes)"
  shows "length (segment_vals (SegRangeWithHoles r holes)) + length (enc_iter holes) = unat (snd r) - unat (fst r)"
proof -
  have "rank_in (segment_vals (SegRangeWithHoles r holes)) (snd r) = length (segment_vals (SegRangeWithHoles r holes))"
    using segment_vals_in_bounds[OF assms] by (simp add: rank_in_def filter_id_conv del: segment_vals.simps)
  moreover have "filter (\<lambda>h. h < snd r) (enc_iter holes) = enc_iter holes"
    using assms by (simp add: filter_id_conv list_all_iff)
  ultimately show ?thesis using rank_in_holes[OF assms, of "snd r"] assms by simp
qed

lemma ranges_rank:
  assumes "segment_wf (SegRanges r runs)" "v \<in> set (segment_vals (SegRanges r runs))"
  shows "hr_position runs (ucast (v - fst r)) = Inr (Some (word_of_nat (rank_in (segment_vals (SegRanges r runs)) v)))"
    "rank_in (segment_vals (SegRanges r runs)) v < 2 ^ 32"
proof -
  have c: "range_contains r v" using segment_vals_in_bounds[OF assms(1) _ assms(2)] by (simp add: range_contains_def)
  then have v: "fst r \<le> v" by (simp add: range_contains_def)
  let ?off = "ucast (v - fst r) :: u32"
  note m = ranges_member[OF assms(1) c]
  have rank: "rank_in (segment_vals (SegRanges r runs)) v = length (filter (\<lambda>x. x < unat ?off) (hr_present runs))"
    using position_prefix_count[of r "hr_present runs" v] v assms(1) segment_offs_bound(1)[OF assms(1)] m(1)
    by (simp add: rank_in_def)
  then show "hr_position runs ?off = Inr (Some (word_of_nat (rank_in (segment_vals (SegRanges r runs)) v)))"
    using assms m(2) by (simp add: hr_position_eq del: segment_vals.simps)
  show "rank_in (segment_vals (SegRanges r runs)) v < 2 ^ 32"
    using rank assms(1) hr_present_len_eq(2)[of runs] unat_u32_bound[of "hr_span runs"]
    by (auto intro: le_less_trans[OF length_filter_le])
qed

subsection \<open>Segments\<close>

definition segment_reach :: "u64_segment \<Rightarrow> bool" where
  "segment_reach seg =
     (case segment_bounds seg of
        None \<Rightarrow> True
      | Some r \<Rightarrow> fst r < snd r \<and> addr_fragment_id (snd r - 1) \<noteq> - 1)"

definition segment_carry_free :: "u64_segment \<Rightarrow> bool" where
  "segment_carry_free seg =
     (case seg of SegRange r \<Rightarrow> unat (fst r) div 2 ^ 33 = unat (snd r) div 2 ^ 33 | _ \<Rightarrow> True)"

lemma sorted_selected:
  "sorted_wrt (<) vs \<Longrightarrow> sorted_list_of_set {x \<in> set vs. sel x} = filter sel (vs :: u64 list)"
  by (rule strict_sorted_list_unique) (auto intro: sorted_wrt_filter)

lemma sorted_filter_id: "sorted xs \<Longrightarrow> sorted (filter p xs)"
  by (simp add: sorted_wrt_filter)

lemma drop_partition_point:
  "sorted ys \<Longrightarrow> drop (partition_point (\<lambda>x. x < a) ys) ys = filter (\<lambda>x. a \<le> x) (ys :: u64 list)"
proof (induction ys)
  case (Cons y ys)
  show ?case
  proof (cases "y < a")
    case False
    then have "filter (\<lambda>x. a \<le> x) (y # ys) = y # ys" using Cons.prems by (auto simp: filter_id_conv)
    then show ?thesis using False by (simp add: partition_point_def)
  qed (use Cons in \<open>simp add: partition_point_def\<close>)
qed (simp add: partition_point_def)

lemma filter_sorted_window:
  fixes ids :: "u64 list"
  assumes "sorted ids" "a \<le> b"
  defines "s \<equiv> partition_point (\<lambda>i. i < a) ids" and "e \<equiv> partition_point (\<lambda>i. i < b) ids"
  shows "s \<le> e" "take (e - s) (drop s ids) = filter (range_contains (a, b)) ids"
proof -
  let ?ys = "filter (\<lambda>i. i < b) ids"
  have sub: "filter (\<lambda>i. i < a) ?ys = filter (\<lambda>i. i < a) ids"
    using assms(2) by (auto intro!: filter_cong)
  have s: "s = length (filter (\<lambda>i. i < a) ids)" and e: "e = length ?ys"
    using assms(1) by (simp_all add: s_def e_def partition_point_sorted_less)
  show "s \<le> e" unfolding s e sub[symmetric] by (rule length_filter_le)
  have "take e ids = ?ys"
    using assms(1) takeWhile_eq_filter_sorted[of ids "\<lambda>i. i < b"] takeWhile_eq_take[of "\<lambda>i. i < b" ids]
    by (simp add: e_def partition_point_def)
  then have "take (e - s) (drop s ids) = drop s ?ys" by (simp add: take_drop \<open>s \<le> e\<close>)
  moreover have "s = partition_point (\<lambda>i. i < a) ?ys"
    using assms(1) by (simp only: s sub[symmetric] partition_point_sorted_less sorted_filter_id)
  then have "drop s ?ys = filter (\<lambda>x. a \<le> x) ?ys" using assms(1) by (simp only: drop_partition_point sorted_filter_id)
  ultimately show "take (e - s) (drop s ids) = filter (range_contains (a, b)) ids"
    by (simp add: range_contains_def[abs_def] conj_commute)
qed

lemma run_carry:
  assumes "z = (- 1 :: u32)" "odd (unat f)" "fst r \<le> new_from_parts f z" "new_from_parts f z < snd r"
  shows "unat (fst r) div 2 ^ 33 \<noteq> unat (snd r) div 2 ^ 33"
proof -
  obtain k where k: "unat f = 2 * k + 1" using assms(2) oddE by blast
  then have "unat (new_from_parts f z) + 1 = (k + 1) * 2 ^ 33"
    by (simp add: unat_new_from_parts assms(1) unat_minus_1)
  then have "unat (fst r) < (k + 1) * 2 ^ 33" "(k + 1) * 2 ^ 33 \<le> unat (snd r)"
    using assms(3,4) by (simp_all add: word_le_nat_alt word_less_nat_alt)
  then have "unat (fst r) div 2 ^ 33 < k + 1" "k + 1 \<le> unat (snd r) div 2 ^ 33"
    by (simp_all only: less_mult_imp_div_less less_eq_div_iff_mult_less_eq zero_less_power zero_less_numeral)
  then show ?thesis by linarith
qed

context roaring
begin

lemma masked_addrs:
  assumes "bt_wf ids" "tm_partial ids" "tm_rows R ids = set vs" "sorted_wrt (<) vs" "mask_wf msk"
  shows "tm_into_addr_iter R (tm_mask R ids msk) = Inr (filter (mask_selected R msk) vs)"
    "\<exists>runs. tm_iter_runs R (tm_mask R ids msk) = Inr runs \<and> concat (map run_vals runs) = filter (mask_selected R msk) vs \<and>
      (\<forall>(f, a, z) \<in> set runs. a \<le> z)"
proof -
  note m = tm_mask_ok[OF assms(1,5)]
  have "Full \<notin> snd ` set (tm_mask R ids msk)" using m(2,3) assms(2) by (simp add: tm_partial_entries)
  moreover have "sorted_list_of_set (tm_rows R (tm_mask R ids msk)) = filter (mask_selected R msk) vs"
    unfolding m(1) assms(3) by (rule sorted_selected[OF assms(4)])
  ultimately show "tm_into_addr_iter R (tm_mask R ids msk) = Inr (filter (mask_selected R msk) vs)"
    "\<exists>runs. tm_iter_runs R (tm_mask R ids msk) = Inr runs \<and> concat (map run_vals runs) = filter (mask_selected R msk) vs \<and>
      (\<forall>(f, a, z) \<in> set runs. a \<le> z)"
    using into_addr_iter_eq[OF m(2)] iter_runs_eq[OF m(2)] by simp_all
qed

lemma range_treemap:
  assumes "segment_reach seg" "segment_bounds seg = Some r"
  obtains ids where "tm_from_range R r = Some ids" "bt_wf ids" "tm_partial ids" "tm_rows R ids = {fst r..<snd r}"
  using from_range_rows[of r] assms by (auto simp: segment_reach_def)

lemma mask_range_segment:
  assumes "segment_wf (SegRange r)" "mask_wf msk" "segment_reach (SegRange r)" "segment_carry_free (SegRange r)"
    "unat offset + length (range_vals r) < 2 ^ 64"
  shows "\<exists>rs. mask_segment R msk sq (SegRange r) offset = Some (Inr (rs, offset + word_of_nat (length (range_vals r)))) \<and>
    concat (map range_vals rs) = map (\<lambda>i. offset + word_of_nat i) (selected_positions (mask_selected R msk) (range_vals r))"
proof -
  obtain ids where ids: "tm_from_range R r = Some ids" "bt_wf ids" "tm_partial ids" "tm_rows R ids = {fst r..<snd r}"
    by (rule range_treemap[OF assms(3)]) simp
  obtain runs where runs: "tm_iter_runs R (tm_mask R ids msk) = Inr runs"
    "concat (map run_vals runs) = filter (mask_selected R msk) (range_vals r)" "\<forall>(f, a, z) \<in> set runs. a \<le> z"
    using masked_addrs(2)[OF ids(2,3) _ _ assms(2), of "range_vals r"] ids(4) by auto
  have "run_fits (fst r) offset (f, a, z)" if run: "(f, a, z) \<in> set runs" for f a z
  proof -
    have az: "a \<le> z" using runs(3) run by auto
    have "set (run_vals (f, a, z)) = new_from_parts f ` {a..z}"
      unfolding run_vals_def set_u32_run[symmetric] by (simp add: image_image del: upt_Suc)
    then have "new_from_parts f a \<in> set (run_vals (f, a, z))" "new_from_parts f z \<in> set (run_vals (f, a, z))"
      using az by simp_all
    then have "new_from_parts f a \<in> set (concat (map run_vals runs))" "new_from_parts f z \<in> set (concat (map run_vals runs))"
      using run by auto
    then have bounds: "fst r \<le> new_from_parts f a" "fst r \<le> new_from_parts f z" "new_from_parts f z < snd r"
      unfolding runs(2) by auto
    then have "\<not> (z = - 1 \<and> odd (unat f))" using run_carry[of z f r] assms(4) by (auto simp: segment_carry_free_def)
    moreover have "unat offset + (unat (new_from_parts f z) - unat (fst r)) + 1 < 2 ^ 64"
      using bounds assms(5) by (simp add: word_le_nat_alt word_less_nat_alt)
    ultimately show ?thesis using az bounds(1) by (simp add: run_fits_def)
  qed
  then have "list_all (run_fits (fst r) offset) runs" by (auto simp: list_all_iff)
  note vals = run_ranges_none[OF this, unfolded runs(2) range_positions]
  moreover have "snd r - fst r = word_of_nat (length (range_vals r))"
    using assms(1) by (simp add: of_nat_diff word_le_nat_alt)
  ultimately show ?thesis by (simp add: mask_segment_def ids(1) runs(1) del: length_range_vals)
qed

lemma mask_holes_segment:
  assumes wf: "segment_wf (SegRangeWithHoles r holes)" and "mask_wf msk" "segment_reach (SegRangeWithHoles r holes)"
    "unat offset + length (segment_vals (SegRangeWithHoles r holes)) < 2 ^ 64"
  defines "vs \<equiv> segment_vals (SegRangeWithHoles r holes)"
  shows "\<exists>rs. mask_segment R msk sq (SegRangeWithHoles r holes) offset = Some (Inr (rs, offset + word_of_nat (length vs))) \<and>
    concat (map range_vals rs) = map (\<lambda>i. offset + word_of_nat i) (selected_positions (mask_selected R msk) vs)"
proof -
  let ?H = "enc_iter holes"
  have H: "sorted_wrt (<) ?H" "distinct ?H" "set ?H \<subseteq> {fst r..<snd r}" "sort ?H = ?H" "sorted ?H"
    using wf by (auto simp: strict_sorted_distinct strict_sorted_sorted list_all_iff sort_key_id_if_sorted)
  have sorted: "sorted_wrt (<) vs" unfolding vs_def using segment_vals_sorted[OF wf] by simp
  obtain ids0 where ids0: "tm_from_range R r = Some ids0" "bt_wf ids0" "tm_partial ids0" "tm_rows R ids0 = {fst r..<snd r}"
    by (rule range_treemap[OF assms(3)]) simp
  define ids where "ids = foldl (\<lambda>s x. fst (tm_remove R s x)) ids0 ?H"
  have ids: "bt_wf ids" "tm_rows R ids = set vs" "tm_partial ids"
    unfolding ids_def vs_def using tm.remove_many[OF ids0(2)] ids0(3,4)
    by (auto intro!: foldl_invariant[where P = tm_partial] remove_partial)
  have "foldl (remove_counting R) (ids0, offset + (snd r - fst r)) ?H =
      (ids, offset + (snd r - fst r) - word_of_nat (card (tm_rows R ids0 \<inter> set ?H)))"
    unfolding remove_counting_def ids_def by (rule tm.remove_counted[OF ids0(2) H(2)])
  also have "card (tm_rows R ids0 \<inter> set ?H) = length ?H"
    using H(2,3) by (simp add: ids0(4) Int_absorb1 distinct_card)
  also have "offset + (snd r - fst r) - word_of_nat (length ?H) = offset + word_of_nat (length vs)"
  proof -
    have "snd r - fst r = word_of_nat (length vs + length ?H)"
      using length_holes[OF wf] wf unfolding vs_def by (simp only:) (simp add: of_nat_diff word_le_nat_alt)
    then show ?thesis by (simp only: of_nat_add) simp
  qed
  finally have fold: "foldl (remove_counting R) (ids0, offset + (snd r - fst r)) ?H = (ids, offset + word_of_nat (length vs))" .
  have addrs: "tm_into_addr_iter R (tm_mask R ids msk) = Inr (filter (mask_selected R msk) vs)"
    by (rule masked_addrs(1)[OF ids(1,3,2) sorted assms(2)])
  have "a - fst r + offset - (0 + word_of_nat (length (filter (\<lambda>h. h < a) ?H))) = offset + word_of_nat (rank_in vs a)"
    if "a \<in> set vs" for a
  proof -
    have a: "fst r \<le> a" "a \<le> snd r" using segment_vals_in_bounds[OF wf] that by (auto simp: vs_def less_imp_le simp del: segment_vals.simps)
    then have "a - fst r = word_of_nat (rank_in vs a + length (filter (\<lambda>h. h < a) ?H))"
      unfolding vs_def rank_in_holes[OF wf a] by (simp add: of_nat_diff word_le_nat_alt)
    then show ?thesis by (simp only: of_nat_add) simp
  qed
  then have "hole_offsets (fst r) offset ?H 0 (filter (mask_selected R msk) vs) =
      map (\<lambda>i. offset + word_of_nat i) (selected_positions (mask_selected R msk) vs)"
    unfolding rank_of_selected[OF sorted, symmetric]
    using hole_offsets_eq[OF H(5), of "filter (mask_selected R msk) vs"] strict_sorted_sorted[OF sorted_wrt_filter[OF sorted]] by auto
  then show ?thesis using grouping_selected[OF assms(4)] unfolding vs_def[symmetric]
    by (simp add: mask_segment_def ids0(1) fold addrs H(4))
qed


lemma finite_allow_list_Some:
  assumes "mask_wf msk" "finite_allow_list R msk = Some (allow_list, n)"
  shows "msk = AllowList allow_list" "tm_row_addrs R allow_list = Some (sorted_list_of_set (tm_rows R allow_list))"
proof -
  show msk: "msk = AllowList allow_list"
    using assms(2) by (cases msk) (auto simp: finite_allow_list_def mask_allow_list_def)
  then have "bt_wf allow_list" using assms(1) by simp
  then show "tm_row_addrs R allow_list = Some (sorted_list_of_set (tm_rows R allow_list))"
    using assms(2) msk
    by (auto simp: finite_allow_list_def mask_allow_list_def len_eq row_addrs_eq split: if_splits)
qed

lemma bitmap_selection_eq:
  assumes "mask_wf msk" "fst r \<le> snd r"
  shows "\<exists>sel. bitmap_selection R msk sq r = Inr sel \<and>
    (case sel of None \<Rightarrow> True | Some ids \<Rightarrow> sorted ids \<and> set ids = {i. range_contains r i \<and> mask_selected R msk i} \<and> distinct ids)"
proof (cases "finite_allow_list R msk")
  case None
  then show ?thesis by (simp add: bitmap_selection_def)
next
  case (Some al)
  obtain allow_list n where al: "al = (allow_list, n)" by fastforce
  note fin = finite_allow_list_Some[OF assms(1) Some[unfolded al]]
  define ids where "ids = sorted_list_of_set (tm_rows R allow_list)"
  have ids: "sorted ids" "set ids = {i. mask_selected R msk i}" "distinct ids"
    using assms(1) fin(1) by (auto simp: ids_def mask_selected_def contains_rows)
  let ?s = "partition_point (\<lambda>i. i < fst r) ids" and ?e = "partition_point (\<lambda>i. i < snd r) ids"
  have se: "?s \<le> ?e" and "take (?e - ?s) (drop ?s ids) = filter (range_contains r) ids"
    using filter_sorted_window[OF ids(1) assms(2)] by simp_all
  then show ?thesis using Some al fin(2) ids se
    by (auto simp: bitmap_selection_def Let_def ids_def[symmetric] split: prod.splits intro: sorted_filter_id)
qed


lemma foldr_res_present:
  assumes "bitmap_wf bm" "\<And>i v. (i, v) \<in> set ivs \<Longrightarrow> i < bm_len bm"
  shows "foldr_res (\<lambda>(i, val) st. bindr (bitmap_get bm i) (\<lambda>present. Inr (if present then st else f st val))) ivs st =
    Inr (foldl f st (map snd (filter (\<lambda>(i, v). \<not> bitmap_bits bm ! i) ivs)))"
  using assms(2)
proof (induction ivs arbitrary: st)
  case (Cons iv ivs)
  obtain i v where iv: "iv = (i, v)" by fastforce
  then have "i < bm_len bm" using Cons.prems[of i v] by simp
  moreover have "\<And>i v. (i, v) \<in> set ivs \<Longrightarrow> i < bm_len bm" using Cons.prems by auto
  ultimately show ?case using Cons.IH iv assms(1) by (cases "bitmap_bits bm ! i") auto
qed simp

lemma bitmap_absent:
  assumes "segment_wf (SegRangeWithBitmap r bm)"
  defines "absent \<equiv> map snd (filter (\<lambda>(i, v). \<not> bitmap_bits bm ! i) (enumerate 0 (range_vals r)))"
  shows "absent = filter (\<lambda>v. v \<notin> set (segment_vals (SegRangeWithBitmap r bm))) (range_vals r)"
proof -
  have enum: "enumerate 0 (range_vals r) = map (\<lambda>v. (unat (v - fst r), v)) (range_vals r)"
  proof (rule nth_equalityI)
    fix i assume "i < length (enumerate 0 (range_vals r))"
    then have i: "i < unat (snd r) - unat (fst r)" by simp
    then have "i < 2 ^ 64" using unat_u64_bound[of "snd r"] by simp
    then have "unat (range_vals r ! i - fst r) = i" using i by (simp only: nth_range_vals add_diff_cancel_left' unat_u64_of_nat)
    then show "enumerate 0 (range_vals r) ! i = map (\<lambda>v. (unat (v - fst r), v)) (range_vals r) ! i"
      using i by (simp add: nth_enumerate_eq)
  qed simp
  have "\<not> bitmap_bits bm ! unat (v - fst r) \<longleftrightarrow> v \<notin> set (segment_vals (SegRangeWithBitmap r bm))" if "v \<in> set (range_vals r)" for v
  proof -
    have "range_contains r v" using that by (simp add: range_contains_def)
    from bitmap_member[OF assms(1) this] show ?thesis using assms(1) by simp
  qed
  then have "filter (\<lambda>v. \<not> bitmap_bits bm ! unat (v - fst r)) (range_vals r) =
      filter (\<lambda>v. v \<notin> set (segment_vals (SegRangeWithBitmap r bm))) (range_vals r)" by (rule filter_cong[OF refl])
  then show ?thesis unfolding absent_def enum by (simp add: filter_map comp_def del: segment_vals.simps)
qed

lemma bitmap_segment_vals:
  assumes wf: "segment_wf (SegRangeWithBitmap r bm)"
  defines "vs \<equiv> segment_vals (SegRangeWithBitmap r bm)"
  shows "sorted_wrt (<) vs" "v \<in> set vs \<Longrightarrow> range_contains r v" "bitmap_count_ones bm = length vs"
    "map (\<lambda>i. offset + word_of_nat (rank_in vs i)) (filter sel vs) = map (\<lambda>i. offset + word_of_nat i) (selected_positions sel vs)"
proof -
  show sorted: "sorted_wrt (<) vs" unfolding vs_def using segment_vals_sorted[OF wf] by simp
  show "v \<in> set vs \<Longrightarrow> range_contains r v"
    using segment_vals_in_bounds[OF wf, of r v] by (simp add: vs_def range_contains_def del: segment_vals.simps)
  show "bitmap_count_ones bm = length vs"
    using wf by (simp add: vs_def offset_vals_def bitmap_count_ones_eq length_bitmap_present)
  show "map (\<lambda>i. offset + word_of_nat (rank_in vs i)) (filter sel vs) = map (\<lambda>i. offset + word_of_nat i) (selected_positions sel vs)"
    by (rule rank_of_selected[OF sorted, where f = "\<lambda>n. offset + word_of_nat n"])
qed

lemma mask_bitmap_fast:
  assumes wf: "segment_wf (SegRangeWithBitmap r bm)" and sel: "bitmap_selection R msk sq r = Inr (Some ids)"
    and ids: "sorted ids" "set ids = {i. range_contains r i \<and> mask_selected R msk i}" "distinct ids"
    and fits: "unat offset + length (segment_vals (SegRangeWithBitmap r bm)) < 2 ^ 64"
  defines "vs \<equiv> segment_vals (SegRangeWithBitmap r bm)"
  shows "\<exists>rs. mask_segment R msk sq (SegRangeWithBitmap r bm) offset = Some (Inr (rs, offset + word_of_nat (length vs))) \<and>
    concat (map range_vals rs) = map (\<lambda>i. offset + word_of_nat i) (selected_positions (mask_selected R msk) vs)"
proof -
  note vs = bitmap_segment_vals[OF wf, folded vs_def]
  have "filter (\<lambda>i. i \<in> set vs) ids = filter (mask_selected R msk) vs"
    by (rule strict_sorted_list_unique)
      (use ids vs(1,2) in \<open>auto simp: strict_sorted_iff sorted_wrt_filter sorted_filter_id\<close>)
  then have "selected_offsets_loop r bm offset 0 0 ids =
      Inr (map (\<lambda>i. offset + word_of_nat i) (selected_positions (mask_selected R msk) vs))"
    using selected_offsets_loop_eq[OF wf ids(1), of 0 0 offset] ids(2) unfolding vs_def[symmetric] vs(4)[symmetric] by simp
  then show ?thesis using grouping_selected[OF fits] unfolding vs_def[symmetric]
    by (simp add: mask_segment_def mask_bitmap_segment_def sel bitmap_selected_offsets_def vs(3))
qed

lemma bitmap_ids:
  assumes wf: "segment_wf (SegRangeWithBitmap r bm)" and ids0: "bt_wf ids0" "tm_partial ids0" "tm_rows R ids0 = {fst r..<snd r}"
  defines "vs \<equiv> segment_vals (SegRangeWithBitmap r bm)"
    and "absent \<equiv> filter (\<lambda>v. v \<notin> set (segment_vals (SegRangeWithBitmap r bm))) (range_vals r)"
  defines "ids \<equiv> foldl (\<lambda>s x. fst (tm_remove R s x)) ids0 absent"
  shows "bt_wf ids" "tm_rows R ids = set vs" "tm_partial ids"
    "foldl (remove_counting R) (ids0, offset + (snd r - fst r)) absent = (ids, offset + word_of_nat (length vs))"
proof -
  note vs = bitmap_segment_vals[OF wf, folded vs_def]
  note absent = absent_def[folded vs_def]
  show "bt_wf ids" "tm_rows R ids = set vs" "tm_partial ids"
    unfolding ids_def using tm.remove_many[OF ids0(1)] ids0(2,3) vs(2)
    by (auto simp: absent range_contains_def intro!: foldl_invariant[where P = tm_partial] remove_partial)
  have "set (filter (\<lambda>v. v \<in> set vs) (range_vals r)) = set vs" using vs(2) by (auto simp: range_contains_def)
  then have "filter (\<lambda>v. v \<in> set vs) (range_vals r) = vs"
    by (intro strict_sorted_list_unique) (simp_all add: vs(1) sorted_wrt_filter)
  then have len: "length vs + length absent = length (range_vals r)"
    using sum_length_filter_compl[of "\<lambda>v. v \<in> set vs" "range_vals r"] by (simp add: absent)
  have "distinct absent" by (simp add: absent)
  then have card: "card (tm_rows R ids0 \<inter> set absent) = length absent"
    by (subst distinct_card[symmetric]) (auto simp: ids0(3) absent intro!: arg_cong[where f = card])
  have "snd r - fst r = word_of_nat (length vs + length absent)"
    using wf unfolding len by (simp add: of_nat_diff word_le_nat_alt)
  then have "offset + (snd r - fst r) - word_of_nat (length absent) = offset + word_of_nat (length vs)"
    by (simp only: of_nat_add) simp
  then show "foldl (remove_counting R) (ids0, offset + (snd r - fst r)) absent = (ids, offset + word_of_nat (length vs))"
    unfolding remove_counting_def ids_def tm.remove_counted[OF ids0(1) \<open>distinct absent\<close>] card by simp
qed

lemma mask_bitmap_slow:
  assumes wf: "segment_wf (SegRangeWithBitmap r bm)" and "mask_wf msk" "segment_reach (SegRangeWithBitmap r bm)"
    and sel: "bitmap_selection R msk sq r = Inr None"
    and fits: "unat offset + length (segment_vals (SegRangeWithBitmap r bm)) < 2 ^ 64"
  defines "vs \<equiv> segment_vals (SegRangeWithBitmap r bm)"
  shows "\<exists>rs. mask_segment R msk sq (SegRangeWithBitmap r bm) offset = Some (Inr (rs, offset + word_of_nat (length vs))) \<and>
    concat (map range_vals rs) = map (\<lambda>i. offset + word_of_nat i) (selected_positions (mask_selected R msk) vs)"
proof -
  let ?sel = "mask_selected R msk"
  note vs = bitmap_segment_vals[OF wf, folded vs_def]
  obtain ids0 where ids0: "tm_from_range R r = Some ids0" "bt_wf ids0" "tm_partial ids0" "tm_rows R ids0 = {fst r..<snd r}"
    by (rule range_treemap[OF assms(3)]) simp
  note ids = bitmap_ids[OF wf ids0(2-4), folded vs_def]
  have "i < bm_len bm" if "(i, v) \<in> set (enumerate 0 (range_vals r))" for i v
    using that wf by (auto simp: in_set_enumerate_eq range_span_def)
  then have loop: "foldr_res (\<lambda>(i, val) st. bindr (bitmap_get bm i) (\<lambda>present. Inr (if present then st else remove_counting R st val)))
      (enumerate 0 (range_vals r)) st = Inr (foldl (remove_counting R) st (filter (\<lambda>v. v \<notin> set vs) (range_vals r)))" for st
    using wf by (subst foldr_res_present) (auto simp: bitmap_absent[OF wf, folded vs_def] simp del: segment_vals.simps)
  have addrs: "tm_into_addr_iter R (tm_mask R (foldl (\<lambda>s x. fst (tm_remove R s x)) ids0 (filter (\<lambda>v. v \<notin> set vs) (range_vals r))) msk) =
      Inr (filter ?sel vs)"
    by (rule masked_addrs(1)[OF ids(1,3,2) vs(1) assms(2)])
  have "bitmap_offsets (fst r) offset (bitmap_iter bm) 0 0 (filter ?sel vs) =
      Inr (map (\<lambda>i. offset + word_of_nat i) (selected_positions ?sel vs))"
    using bitmap_scan_offsets[OF wf sorted_filter_id[OF strict_sorted_sorted[OF vs(1)]]] vs(2)
    unfolding vs_def[symmetric] vs(4)[symmetric] by auto
  then show ?thesis using grouping_selected[OF fits] unfolding vs_def[symmetric]
    by (simp add: mask_segment_def mask_bitmap_segment_def sel ids0(1) loop ids(4) addrs)
qed


lemma insert_present_ranges_ok:
  assumes "segment_reach (SegRanges r runs)" "bt_wf m" "tm_partial m"
    "\<And>p. p \<in> set present \<Longrightarrow> fst p < snd p \<and> unat (fst r) + unat (snd p) \<le> unat (snd r)"
  shows "\<exists>m'. insert_present_ranges R (fst r) present m = Some m' \<and> bt_wf m' \<and> tm_partial m' \<and>
    tm_rows R m' = tm_rows R m \<union> (\<Union>p \<in> set present. {fst r + ucast (fst p)..<fst r + ucast (snd p)})"
  using assms(2-)
proof (induction present arbitrary: m)
  case (Cons p present)
  let ?s = "fst r + ucast (fst p)" and ?e = "fst r + ucast (snd p)"
  have p: "fst p < snd p" "unat (fst r) + unat (snd p) \<le> unat (snd r)" using Cons.prems(3)[of p] by auto
  have e: "unat ?e = unat (fst r) + unat (snd p)"
    using p(2) unat_u64_bound[of "snd r"] by (simp add: unat_word_ariths unat_ucast_up)
  then have pos: "0 < ?e" "?e \<le> snd r" using p by (simp_all add: word_less_nat_alt word_le_nat_alt)
  then have "?e - 1 \<le> snd r - 1" by (intro word_le_minus_mono_left) (simp_all add: word_le_nat_alt word_less_nat_alt)
  then have "addr_fragment_id (end_address (Excluded ?e)) \<noteq> - 1"
    using assms(1) pos by (auto simp: segment_reach_def end_address_excluded row_address_le_iff)
  from insert_range_rows[OF Cons.prems(1) this, of "Included ?s"] obtain m1 n where
    m1: "tm_insert_range R m (Included ?s) (Excluded ?e) = Some (m1, n)" "bt_wf m1" "tm_partial m1"
      "tm_rows R m1 = tm_rows R m \<union> {?s..<?e}"
    using Cons.prems(2) pos by (auto simp: start_address_def end_address_excluded atLeastAtMost_word_pred)
  from Cons.IH[OF m1(2,3)] Cons.prems(3) obtain m2 where
    "insert_present_ranges R (fst r) present m1 = Some m2" "bt_wf m2" "tm_partial m2"
    "tm_rows R m2 = tm_rows R m1 \<union> (\<Union>p \<in> set present. {fst r + ucast (fst p)..<fst r + ucast (snd p)})" by auto
  then show ?case using m1(1,4) by (simp add: insert_present_ranges_def Un_assoc)
qed (simp add: insert_present_ranges_def)

lemma ranges_treemap:
  assumes wf: "segment_wf (SegRanges r runs)" and "segment_reach (SegRanges r runs)"
  shows "\<exists>present ids. hr_present_ranges runs = Inr present \<and> insert_present_ranges R (fst r) present [] = Some ids \<and>
    bt_wf ids \<and> tm_partial ids \<and> tm_rows R ids = set (segment_vals (SegRanges r runs))"
proof -
  have hr: "hr_wf runs" "fst r \<le> snd r" "unat (hr_span runs) = range_span r" using wf by simp_all
  obtain present where present: "hr_present_ranges runs = Inr present" "\<forall>p \<in> set present. fst p < snd p"
    "concat (map (map unat \<circ> range_vals) present) = hr_present runs"
    using hr_present_ranges_eq[OF hr(1)] by blast
  have fits: "fst p < snd p \<and> unat (fst r) + unat (snd p) \<le> unat (snd r)" if p: "p \<in> set present" for p
  proof -
    have lt: "fst p < snd p" using present(2) p by blast
    then have "unat (snd p) - 1 \<in> set (map unat (range_vals p))"
      by (simp only: map_unat_range_vals) (simp add: word_less_nat_alt)
    then have "unat (snd p) - 1 \<in> set (hr_present runs)" using p unfolding present(3)[symmetric] by auto
    then have "unat (snd p) \<le> range_span r" using hr_present_less_span[OF hr(1)] hr(3) lt by (force simp: word_less_nat_alt)
    then show ?thesis using lt range_span_bound[OF hr(2)] by simp
  qed
  have "bt_wf ([] :: 'b row_addr_tree_map)" "tm_partial ([] :: 'b row_addr_tree_map)" by (simp_all add: tm_partial_def)
  from insert_present_ranges_ok[OF assms(2) this, of present] fits obtain ids where
    ids: "insert_present_ranges R (fst r) present [] = Some ids" "bt_wf ids" "tm_partial ids"
      "tm_rows R ids = (\<Union>p \<in> set present. {fst r + ucast (fst p)..<fst r + ucast (snd p)})" by auto
  have "tm_rows R ids = set (concat (map (\<lambda>p. range_vals (fst r + ucast (fst p), fst r + ucast (snd p))) present))"
    unfolding ids(4) by simp
  also have "\<dots> = set (segment_vals (SegRanges r runs))" by (simp only: hr_present_range_vals[OF wf present(1)] segment_vals.simps)
  finally show ?thesis using present(1) ids(1-3) by blast
qed


lemma mask_ranges_segment:
  assumes wf: "segment_wf (SegRanges r runs)" and "mask_wf msk" "segment_reach (SegRanges r runs)"
    "unat offset + length (segment_vals (SegRanges r runs)) < 2 ^ 64"
  defines "vs \<equiv> segment_vals (SegRanges r runs)"
  shows "\<exists>rs. mask_segment R msk sq (SegRanges r runs) offset = Some (Inr (rs, offset + word_of_nat (length vs))) \<and>
    concat (map range_vals rs) = map (\<lambda>i. offset + word_of_nat i) (selected_positions (mask_selected R msk) vs)"
proof -
  let ?sel = "mask_selected R msk"
  have sorted: "sorted_wrt (<) vs" unfolding vs_def using segment_vals_sorted[OF wf] by simp
  obtain present ids where ids: "hr_present_ranges runs = Inr present" "insert_present_ranges R (fst r) present [] = Some ids"
    "bt_wf ids" "tm_partial ids" "tm_rows R ids = set vs" using ranges_treemap[OF wf assms(3)] vs_def by blast
  have addrs: "tm_into_addr_iter R (tm_mask R ids msk) = Inr (filter ?sel vs)"
    by (rule masked_addrs(1)[OF ids(3-5) sorted assms(2)])
  have small: "ucast (word_of_nat n :: u32) = (word_of_nat n :: u64)" if "n < 2 ^ 32" for n
    using that by (simp add: word_unat_eq_iff unat_ucast_up unat_u32_of_nat unat_u64_of_nat)
  have "mapr (\<lambda>addr. bindr (hr_position runs (ucast (addr - fst r))) (\<lambda>p. bindr (unwrap p) (\<lambda>position. Inr (offset + ucast position))))
      (filter ?sel vs) = Inr (map (\<lambda>a. offset + word_of_nat (rank_in vs a)) (filter ?sel vs))"
    using ranges_rank[OF wf, folded vs_def] small by (intro mapr_Inr) simp
  also have "\<dots> = Inr (map (\<lambda>i. offset + word_of_nat i) (selected_positions ?sel vs))"
    by (simp only: rank_of_selected[OF sorted, where f = "\<lambda>n. offset + word_of_nat n"])
  finally have offs: "mapr (\<lambda>addr. bindr (hr_position runs (ucast (addr - fst r))) (\<lambda>p. bindr (unwrap p) (\<lambda>position. Inr (offset + ucast position))))
      (filter ?sel vs) = Inr (map (\<lambda>i. offset + word_of_nat i) (selected_positions ?sel vs))" .
  have "length vs = length (hr_present runs)" by (simp add: vs_def offset_vals_def)
  moreover have "length (hr_present runs) < 2 ^ 32"
    using hr_present_len_eq(2)[of runs] wf unat_u32_bound[of "hr_span runs"] by simp
  ultimately have len: "hr_present_len runs = Inr (word_of_nat (length vs))" "length vs < 2 ^ 32"
    using hr_present_len_eq(1)[of runs] wf by simp_all
  show ?thesis using grouping_selected[OF assms(4)] unfolding vs_def[symmetric]
    by (simp add: mask_segment_def len(1) small[OF len(2)] ids(1,2) addrs offs)
qed

lemma mask_segment_eq:
  assumes "segment_wf seg" "mask_wf msk" "segment_reach seg" "segment_carry_free seg"
    "unat offset + length (segment_vals seg) < 2 ^ 64"
  shows "\<exists>rs. mask_segment R msk sq seg offset = Some (Inr (rs, offset + word_of_nat (length (segment_vals seg)))) \<and>
    concat (map range_vals rs) = map (\<lambda>i. offset + word_of_nat i) (selected_positions (mask_selected R msk) (segment_vals seg))"
proof (cases seg)
  case (SegRange r)
  then show ?thesis using mask_range_segment[of r msk offset] assms by simp
next
  case (SegRangeWithHoles r holes)
  then show ?thesis using mask_holes_segment[of r holes msk offset] assms by (simp del: segment_vals.simps)
next
  case (SegRangeWithBitmap r bm)
  obtain sel where sel: "bitmap_selection R msk sq r = Inr sel"
    "case sel of None \<Rightarrow> True | Some ids \<Rightarrow> sorted ids \<and> set ids = {i. range_contains r i \<and> mask_selected R msk i} \<and> distinct ids"
    using bitmap_selection_eq[OF assms(2), of r] assms(1) SegRangeWithBitmap by auto
  show ?thesis
  proof (cases sel)
    case None
    then show ?thesis using mask_bitmap_slow[of r bm msk sq offset] assms sel(1) unfolding SegRangeWithBitmap by blast
  next
    case (Some ids)
    then show ?thesis using mask_bitmap_fast[of r bm msk sq ids offset] assms sel unfolding SegRangeWithBitmap by simp
  qed
next
  case (SegRanges r runs)
  then show ?thesis using mask_ranges_segment[of r runs msk offset] assms by (simp del: segment_vals.simps)
next
  case (SegSortedArray array)
  have "List.map_filter (\<lambda>(off, i). if mask_selected R msk i then Some (word_of_nat off + offset) else None) (enumerate 0 (enc_iter array)) =
      map (\<lambda>i. offset + word_of_nat i) (selected_positions (mask_selected R msk) (enc_iter array))"
    unfolding enumerate_selected by (simp add: add.commute)
  then show ?thesis using SegSortedArray grouping_selected[OF assms(5)] by (simp add: mask_segment_def)
next
  case (SegArray array)
  have "List.map_filter (\<lambda>(off, i). if mask_selected R msk i then Some (word_of_nat off + offset) else None) (enumerate 0 (enc_iter array)) =
      map (\<lambda>i. offset + word_of_nat i) (selected_positions (mask_selected R msk) (enc_iter array))"
    unfolding enumerate_selected by (simp add: add.commute)
  then show ?thesis using SegArray grouping_selected[OF assms(5)] by (simp add: mask_segment_def)
qed

lemma mask_offset_loop_eq:
  assumes "seq_wf segs" "mask_wf msk" "list_all segment_reach segs" "list_all segment_carry_free segs"
    "unat offset + length (seq_vals segs) < 2 ^ 64"
  shows "\<exists>rs. mask_offset_loop R msk sq segs offset ranges = Some (Inr (ranges @ rs)) \<and>
    concat (map range_vals rs) = map (\<lambda>i. offset + word_of_nat i) (selected_positions (mask_selected R msk) (seq_vals segs))"
  using assms(1,3-)
proof (induction segs arbitrary: offset ranges)
  case Nil
  then show ?case by (simp add: selected_positions_def)
next
  case (Cons seg segs)
  let ?n = "length (segment_vals seg)"
  have fits: "unat offset + ?n < 2 ^ 64" using Cons.prems(4) by simp
  obtain rs where rs: "mask_segment R msk sq seg offset = Some (Inr (rs, offset + word_of_nat ?n))"
    "concat (map range_vals rs) = map (\<lambda>i. offset + word_of_nat i) (selected_positions (mask_selected R msk) (segment_vals seg))"
    using mask_segment_eq[of seg msk offset sq] Cons.prems fits assms(2) by auto
  have "unat (offset + word_of_nat ?n) = unat offset + ?n" using fits unat_add_of_nat[of offset ?n] by simp
  with Cons.IH[of "offset + word_of_nat ?n" "ranges @ rs"] Cons.prems obtain rs' where
    rs': "mask_offset_loop R msk sq segs (offset + word_of_nat ?n) (ranges @ rs) = Some (Inr ((ranges @ rs) @ rs'))"
    "concat (map range_vals rs') = map (\<lambda>i. offset + word_of_nat ?n + word_of_nat i) (selected_positions (mask_selected R msk) (seq_vals segs))"
    by auto
  show ?case
    by (intro exI[of _ "rs @ rs'"])
      (simp add: rs rs' selected_positions_append comp_def add.assoc)
qed


lemma insert_many:
  "bt_wf m \<Longrightarrow> bt_wf (foldl (\<lambda>ids val. fst (tm_insert R ids val)) m xs) \<and>
     tm_rows R (foldl (\<lambda>ids val. fst (tm_insert R ids val)) m xs) = tm_rows R m \<union> set xs"
  by (induction xs arbitrary: m) (auto simp: insert_rows insert_frag_bits)

lemma segment_to_treemap_eq:
  assumes "segment_wf seg" "segment_reach seg"
  shows "\<exists>ids. segment_to_treemap R seg = Some (Inr ids) \<and> bt_wf ids \<and> tm_rows R ids = set (segment_vals seg)"
proof (cases seg)
  case (SegRange r)
  obtain ids where "tm_from_range R r = Some ids" "bt_wf ids" "tm_partial ids" "tm_rows R ids = {fst r..<snd r}"
    by (rule range_treemap[OF assms(2)]) (simp add: SegRange)
  then show ?thesis by (simp add: segment_to_treemap_def SegRange)
next
  case (SegRangeWithHoles r holes)
  obtain ids where "tm_from_range R r = Some ids" "bt_wf ids" "tm_partial ids" "tm_rows R ids = {fst r..<snd r}"
    by (rule range_treemap[OF assms(2)]) (simp add: SegRangeWithHoles)
  then show ?thesis using tm.remove_many[of ids "enc_iter holes"]
    by (auto simp: segment_to_treemap_def SegRangeWithHoles)
next
  case (SegRangeWithBitmap r bm)
  obtain ids where ids: "tm_from_range R r = Some ids" "bt_wf ids" "tm_partial ids" "tm_rows R ids = {fst r..<snd r}"
    by (rule range_treemap[OF assms(2)]) (simp add: SegRangeWithBitmap)
  have wf: "segment_wf (SegRangeWithBitmap r bm)" using assms(1) by (simp only: SegRangeWithBitmap)
  have "i < bm_len bm" if "(i, v) \<in> set (enumerate 0 (range_vals r))" for i v
    using that wf by (auto simp: in_set_enumerate_eq range_span_def)
  then have "foldr_res (\<lambda>(i, val) ids. bindr (bitmap_get bm i) (\<lambda>present. Inr (if present then ids else fst (tm_remove R ids val))))
      (enumerate 0 (range_vals r)) ids =
      Inr (foldl (\<lambda>ids val. fst (tm_remove R ids val)) ids (filter (\<lambda>v. v \<notin> set (segment_vals (SegRangeWithBitmap r bm))) (range_vals r)))"
    using wf by (subst foldr_res_present) (auto simp: bitmap_absent[OF wf] simp del: segment_vals.simps)
  then show ?thesis using bitmap_ids(1,2)[OF wf ids(2-4)] ids(1)
    by (simp add: segment_to_treemap_def SegRangeWithBitmap del: segment_vals.simps)
next
  case (SegRanges r runs)
  then show ?thesis using ranges_treemap[of r runs] assms by (auto simp: segment_to_treemap_def simp del: segment_vals.simps)
qed (use insert_many[of "[]"] in \<open>simp_all add: segment_to_treemap_def\<close>)

lemma sequence_to_treemap_eq:
  assumes "seq_wf segs" "list_all segment_reach segs" "bt_wf m"
  shows "\<exists>ids. sequence_to_treemap_loop R segs m = Some (Inr ids) \<and> bt_wf ids \<and> tm_rows R ids = tm_rows R m \<union> set (seq_vals segs)"
  using assms
proof (induction segs arbitrary: m)
  case (Cons seg segs)
  obtain ids where ids: "segment_to_treemap R seg = Some (Inr ids)" "bt_wf ids" "tm_rows R ids = set (segment_vals seg)"
    using segment_to_treemap_eq[of seg] Cons.prems by auto
  with Cons.IH[of "tm_or R m ids"] Cons.prems show ?case by (auto simp: or_rows or_wf Un_assoc)
qed simp

lemma carry_range_segment:
  shows "mask_to_offset_ranges R [SegRange (8589934591, 8589934592)] mask_all_rows = Some (Inr [(0, 18446744069414584321)])"
proof -
  let ?r = "(8589934591, 8589934592) :: u64 range"
  have vals: "range_vals ?r = [8589934591]" by (simp add: range_vals_def upt_rec)
  have last: "8589934591 = new_from_parts 1 (- 1)" by (simp add: word_unat_eq_iff unat_new_from_parts unat_minus_1)
  have "addr_fragment_id 8589934591 = 1" by (simp add: word_unat_eq_iff unat_fragment_id)
  then have "segment_reach (SegRange ?r)" by (simp add: segment_reach_def)
  then obtain ids where ids: "tm_from_range R ?r = Some ids" "bt_wf ids" "tm_partial ids" "tm_rows R ids = {fst ?r..<snd ?r}"
    by (rule range_treemap) simp
  have "filter (mask_selected R mask_all_rows) (range_vals ?r) = [8589934591]"
    by (simp add: vals mask_all_rows_def mask_selected_def tm_contains_def)
  moreover have "tm_rows R ids = set (range_vals ?r)" using ids(4) by simp
  ultimately obtain runs where runs: "tm_iter_runs R (tm_mask R ids mask_all_rows) = Inr runs"
    "concat (map run_vals runs) = [8589934591]" "\<forall>(f, a, z) \<in> set runs. a \<le> z"
    using masked_addrs(2)[OF ids(2,3) _ sorted_range_vals, of ?r mask_all_rows] by (auto simp: mask_all_rows_def)
  have ne: "run_vals run \<noteq> []" if "run \<in> set runs" for run
    using runs(3) that by (cases run) (auto simp: run_vals_def word_le_nat_alt)
  obtain run rest where split: "runs = run # rest" using runs(2) by (cases runs) auto
  have "rest = []" using runs(2) ne unfolding split by (cases rest) (auto simp: append_eq_Cons_conv)
  moreover obtain f a z where run: "run = (f, a, z)" by (cases run)
  ultimately have one: "run_vals (f, a, z) = [8589934591]" "a \<le> z" using runs(2,3) split by auto
  then have "length (run_vals (f, a, z)) = 1" by simp
  then have "z = a" using one(2) by (simp add: run_vals_def word_le_nat_alt word_unat_eq_iff del: upt_Suc)
  moreover have "new_from_parts f a = new_from_parts 1 (- 1)" using one(1) \<open>z = a\<close> by (simp add: run_vals_def last)
  ultimately have "runs = [(1, - 1, - 1)]" using split run \<open>rest = []\<close> by simp
  moreover have "(ucast (- 1 :: u32) :: u64) = 4294967295" by (simp add: word_unat_eq_iff unat_ucast_up unat_minus_1)
  ultimately show ?thesis
    by (simp add: mask_to_offset_ranges_def mask_segment_def ids(1) runs(1))
qed

end

subsection \<open>Properties\<close>

text \<open>
  C36. A mask over row ids becomes the right ranges of row offsets: for every encoding of the segments,
  \<open>mask_to_offset_ranges\<close> returns, without a panic, ranges that list, in order, exactly the positions of
  the ids the mask selects, and the conversion of the sequence to a row-address map contains exactly
  its ids. The ranges of the segments must not be empty nor end in the largest fragment, where
  inserting a range does not return, and a plain range must not cross a multiple of \<open>2^33\<close>.
\<close>

theorem mask_to_offset_ranges_correct:
  assumes "roaring R" "seq_wf sq" "mask_wf msk" "list_all segment_reach sq" "list_all segment_carry_free sq"
    "length (seq_vals sq) < 2 ^ 64"
  shows "(\<exists>ranges. mask_to_offset_ranges R sq msk = Some (Inr ranges) \<and>
      concat (map range_vals ranges) =
        map word_of_nat (filter (\<lambda>i. mask_selected R msk (seq_vals sq ! i)) [0..<length (seq_vals sq)])) \<and>
    (\<exists>ids. sequence_to_treemap R sq = Some (Inr ids) \<and> bt_wf ids \<and> (\<forall>x. tm_contains R ids x \<longleftrightarrow> x \<in> set (seq_vals sq)))"
proof
  from roaring.mask_offset_loop_eq[OF assms(1-5), of 0 sq "[]"] assms(6)
  show "\<exists>ranges. mask_to_offset_ranges R sq msk = Some (Inr ranges) \<and>
      concat (map range_vals ranges) =
        map word_of_nat (filter (\<lambda>i. mask_selected R msk (seq_vals sq ! i)) [0..<length (seq_vals sq)])"
    by (auto simp: mask_to_offset_ranges_def selected_positions_def)
  from roaring.sequence_to_treemap_eq[OF assms(1,2,4), of "[]"]
  show "\<exists>ids. sequence_to_treemap R sq = Some (Inr ids) \<and> bt_wf ids \<and> (\<forall>x. tm_contains R ids x \<longleftrightarrow> x \<in> set (seq_vals sq))"
    by (auto simp: sequence_to_treemap_def roaring.contains_rows[OF assms(1)])
qed

theorem mask_to_offset_ranges_correct_witness:
  "\<exists>ranges. mask_to_offset_ranges set_roaring [SegRange (80, 85), SegArray (EncU64 [14, 90])] (AllowList [(0, Partial {81, 82, 90})]) =
      Some (Inr ranges) \<and> concat (map range_vals ranges) = [1, 2, 6]"
proof -
  define sq where "sq = [SegRange (80, 85), SegArray (EncU64 [14, 90])]"
  define msk where "msk = AllowList [(0 :: u32, Partial {81, 82, 90 :: u32})]"
  have vals: "seq_vals sq = [80, 81, 82, 83, 84, 14, 90]" by (simp add: sq_def range_vals_def upt_rec)
  have "addr_fragment_id n = 0 \<and> addr_row_offset n = ucast n" if "unat n < 2 ^ 32" for n
    using that by (simp add: word_unat_eq_iff unat_fragment_id unat_row_offset unat_ucast)
  from this[of 81] this[of 82] this[of 90]
  have sel: "mask_selected set_roaring msk x \<longleftrightarrow> x = 81 \<or> x = 82 \<or> x = 90" for x
    by (auto simp: msk_def mask_selected_def set_roaring.contains_rows tm_rows_def frag_bits_def bt_get_def row_address_eq_iff[of x]
        split: if_splits)
  have wf: "seq_wf sq" "mask_wf msk" "list_all segment_reach sq" "list_all segment_carry_free sq" "length (seq_vals sq) < 2 ^ 64"
    unfolding vals by (simp_all add: sq_def msk_def segment_reach_def segment_carry_free_def bt_wf_def word_unat_eq_iff unat_fragment_id unat_minus_1)
  from mask_to_offset_ranges_correct[OF set_roaring.roaring_axioms wf]
  show ?thesis unfolding sq_def[symmetric] msk_def[symmetric] vals sel by (simp add: upt_rec)
qed



end
