(* ===== verification/Nullable_Mask.thy ===== *)
theory Nullable_Mask
  imports Row_Mask
begin

text \<open>
  Row sets and masks with SQL's three-valued logic (\<open>lance-select/src/mask/nullable.rs\<close>). A row of a
  \<open>NullableRowAddrSet\<close> is TRUE, FALSE or NULL; \<open>nset_value\<close> and \<open>nmask_value\<close> decode the
  representation, and every operation is related to the truth tables of Kleene's logic. The order
  FALSE, NULL, TRUE makes conjunction the minimum and disjunction the maximum.

  The crate \<open>itertools\<close> is external: \<open>merge_join_by\<close> on two maps is the parameter \<open>J\<close>, and what
  is used of it is the hypothesis \<open>merge_joins J\<close>.
\<close>

subsection \<open>Three-valued logic\<close>

datatype kleene = KFalse | KNull | KTrue

definition kleene_rank :: "kleene \<Rightarrow> nat" where
  "kleene_rank v = (case v of KFalse \<Rightarrow> 0 | KNull \<Rightarrow> 1 | KTrue \<Rightarrow> 2)"

instantiation kleene :: linorder
begin

definition less_eq_kleene :: "kleene \<Rightarrow> kleene \<Rightarrow> bool" where
  "less_eq_kleene a b \<longleftrightarrow> kleene_rank a \<le> kleene_rank b"

definition less_kleene :: "kleene \<Rightarrow> kleene \<Rightarrow> bool" where
  "less_kleene a b \<longleftrightarrow> kleene_rank a < kleene_rank b"

instance
proof
  fix a b :: kleene
  show "a \<le> b \<Longrightarrow> b \<le> a \<Longrightarrow> a = b"
    by (cases a; cases b) (simp_all add: less_eq_kleene_def kleene_rank_def)
qed (auto simp: less_eq_kleene_def less_kleene_def)

end

fun kleene_not :: "kleene \<Rightarrow> kleene" where
  "kleene_not KTrue = KFalse"
| "kleene_not KNull = KNull"
| "kleene_not KFalse = KTrue"

fun kleene_and :: "kleene \<Rightarrow> kleene \<Rightarrow> kleene" where
  "kleene_and KTrue b = b"
| "kleene_and KFalse b = KFalse"
| "kleene_and KNull b = (if b = KFalse then KFalse else KNull)"

fun kleene_or :: "kleene \<Rightarrow> kleene \<Rightarrow> kleene" where
  "kleene_or KTrue b = KTrue"
| "kleene_or KFalse b = b"
| "kleene_or KNull b = (if b = KTrue then KTrue else KNull)"

lemma kleene_and_min: "kleene_and a b = min a b"
  by (cases a; cases b) (simp_all add: min_def less_eq_kleene_def kleene_rank_def)

lemma kleene_or_max: "kleene_or a b = max a b"
  by (cases a; cases b) (simp_all add: max_def less_eq_kleene_def kleene_rank_def)

lemma kleene_not_antimono: "kleene_not a \<le> kleene_not b \<longleftrightarrow> b \<le> a"
  by (cases a; cases b) (simp_all add: less_eq_kleene_def kleene_rank_def)

subsection \<open>Nullable row sets\<close>

record 'b nullable_row_addr_set =
  ns_selected :: "'b row_addr_tree_map"
  ns_nulls :: "'b row_addr_tree_map"

definition nset_new :: "'b row_addr_tree_map \<Rightarrow> 'b row_addr_tree_map \<Rightarrow> 'b nullable_row_addr_set" where
  "nset_new sel nulls = \<lparr> ns_selected = sel, ns_nulls = nulls \<rparr>"

definition nset_with_nulls :: "'b nullable_row_addr_set \<Rightarrow> 'b row_addr_tree_map \<Rightarrow> 'b nullable_row_addr_set" where
  "nset_with_nulls s nulls = s\<lparr> ns_nulls := nulls \<rparr>"

definition nset_empty :: "'b nullable_row_addr_set" where
  "nset_empty = \<lparr> ns_selected = [], ns_nulls = [] \<rparr>"

definition nset_is_empty :: "'b nullable_row_addr_set \<Rightarrow> bool" where
  "nset_is_empty s = tm_is_empty (ns_selected s)"

definition nset_selected :: "('b, 'z) roaring_ops_scheme \<Rightarrow> 'b nullable_row_addr_set \<Rightarrow> u64 \<Rightarrow> bool" where
  "nset_selected R s row_id \<longleftrightarrow> tm_contains R (ns_selected s) row_id \<and> \<not> tm_contains R (ns_nulls s) row_id"

definition nset_true_rows :: "('b, 'z) roaring_ops_scheme \<Rightarrow> 'b nullable_row_addr_set \<Rightarrow> 'b row_addr_tree_map" where
  "nset_true_rows R s = tm_sub R (ns_selected s) (ns_nulls s)"

definition nset_len :: "('b, 'z) roaring_ops_scheme \<Rightarrow> 'b nullable_row_addr_set \<Rightarrow> u64 option" where
  "nset_len R s = tm_len R (nset_true_rows R s)"

definition nset_union_all ::
    "('b, 'z) roaring_ops_scheme \<Rightarrow> 'b nullable_row_addr_set list \<Rightarrow> 'b nullable_row_addr_set" where
  "nset_union_all R selections =
     (let sel = tm_union_all R (map ns_selected selections);
          nulls = tm_union_all R (map ns_nulls selections);
          any_true = foldl (tm_or R) [] (map (\<lambda>s. tm_sub R (ns_selected s) (ns_nulls s)) selections)
      in \<lparr> ns_selected = sel, ns_nulls = tm_sub R nulls any_true \<rparr>)"

definition nset_and_assign ::
    "('b, 'z) roaring_ops_scheme \<Rightarrow> 'b nullable_row_addr_set \<Rightarrow> 'b nullable_row_addr_set \<Rightarrow> 'b nullable_row_addr_set" where
  "nset_and_assign R s rhs =
     (let nulls = (if tm_is_empty (ns_nulls s) \<and> tm_is_empty (ns_nulls rhs) then []
            else tm_or R (tm_or R (tm_and R (ns_nulls s) (ns_nulls rhs)) (tm_and R (ns_nulls s) (ns_selected rhs)))
                   (tm_and R (ns_nulls rhs) (ns_selected s)))
      in \<lparr> ns_selected = tm_and R (ns_selected s) (ns_selected rhs), ns_nulls = nulls \<rparr>)"

definition nset_or_assign ::
    "('b, 'z) roaring_ops_scheme \<Rightarrow> 'b nullable_row_addr_set \<Rightarrow> 'b nullable_row_addr_set \<Rightarrow> 'b nullable_row_addr_set" where
  "nset_or_assign R s rhs =
     (let nulls = (if tm_is_empty (ns_nulls s) \<and> tm_is_empty (ns_nulls rhs) then []
            else let true_rows = tm_or R (tm_sub R (ns_selected s) (ns_nulls s)) (tm_sub R (ns_selected rhs) (ns_nulls rhs))
                 in tm_sub R (tm_or R (ns_nulls s) (ns_nulls rhs)) true_rows)
      in \<lparr> ns_selected = tm_or R (ns_selected s) (ns_selected rhs), ns_nulls = nulls \<rparr>)"

subsection \<open>Semantic equality\<close>

datatype ('a, 'c) either_or_both = Both 'a 'c | OnlyLeft 'a | OnlyRight 'c

type_synonym 'b merge_join =
  "'b row_addr_tree_map \<Rightarrow> 'b row_addr_tree_map \<Rightarrow>
   (u32 \<times> 'b row_addr_selection, u32 \<times> 'b row_addr_selection) either_or_both list"

definition merge_joins :: "'b merge_join \<Rightarrow> bool" where
  "merge_joins J \<longleftrightarrow> (\<forall>l r. bt_wf l \<longrightarrow> bt_wf r \<longrightarrow>
     set (J l r) = {Both (k, s) (k, t) | k s t. (k, s) \<in> set l \<and> (k, t) \<in> set r} \<union>
       {OnlyLeft (k, s) | k s. (k, s) \<in> set l \<and> k \<notin> fst ` set r} \<union>
       {OnlyRight (k, t) | k t. (k, t) \<in> set r \<and> k \<notin> fst ` set l})"

definition selections_equal_except_nulls ::
    "('b, 'z) roaring_ops_scheme \<Rightarrow> 'b row_addr_selection option \<Rightarrow> 'b row_addr_selection option \<Rightarrow>
     'b row_addr_selection option \<Rightarrow> bool" where
  "selections_equal_except_nulls R left right nulls0 =
     (if nulls0 = Some Full then True
      else
        (let nulls = (case nulls0 of Some (Partial n) \<Rightarrow> Some n | _ \<Rightarrow> None)
         in case (left, right) of
              (Some Full, Some Full) \<Rightarrow> True
            | (None, None) \<Rightarrow> True
            | (Some (Partial l), Some (Partial r)) \<Rightarrow>
                (case nulls of Some n \<Rightarrow> rb_is_subset R (rb_xor R l r) n | None \<Rightarrow> rb_eq R l r)
            | (Some (Partial rows), None) \<Rightarrow>
                (case nulls of None \<Rightarrow> rb_is_empty R rows | Some n \<Rightarrow> rb_is_subset R rows n)
            | (None, Some (Partial rows)) \<Rightarrow>
                (case nulls of None \<Rightarrow> rb_is_empty R rows | Some n \<Rightarrow> rb_is_subset R rows n)
            | (Some Full, Some (Partial rows)) \<Rightarrow>
                (case nulls of None \<Rightarrow> rb_is_full R rows
                 | Some n \<Rightarrow> rb_union_len R rows n = ucast (- 1 :: u32) + 1)
            | (Some (Partial rows), Some Full) \<Rightarrow>
                (case nulls of None \<Rightarrow> rb_is_full R rows
                 | Some n \<Rightarrow> rb_union_len R rows n = ucast (- 1 :: u32) + 1)
            | (Some Full, None) \<Rightarrow> (case nulls of None \<Rightarrow> False | Some n \<Rightarrow> rb_is_full R n)
            | (None, Some Full) \<Rightarrow> (case nulls of None \<Rightarrow> False | Some n \<Rightarrow> rb_is_full R n)))"

definition maps_equal_except_nulls ::
    "('b, 'z) roaring_ops_scheme \<Rightarrow> 'b merge_join \<Rightarrow> 'b row_addr_tree_map \<Rightarrow> 'b row_addr_tree_map \<Rightarrow>
     'b row_addr_tree_map option \<Rightarrow> bool" where
  "maps_equal_except_nulls R J left right nulls =
     list_all (\<lambda>entry.
       let (fragment, l, r) = (case entry of
             Both (fragment, l) (_, r) \<Rightarrow> (fragment, Some l, Some r)
           | OnlyLeft (fragment, l) \<Rightarrow> (fragment, Some l, None)
           | OnlyRight (fragment, r) \<Rightarrow> (fragment, None, Some r))
       in selections_equal_except_nulls R l r (Option.bind nulls (\<lambda>n. tm_get n fragment))) (J left right)"

definition selection_eq :: "('b, 'z) roaring_ops_scheme \<Rightarrow> 'b row_addr_selection \<Rightarrow> 'b row_addr_selection \<Rightarrow> bool" where
  "selection_eq R s t = (case (s, t) of (Full, Full) \<Rightarrow> True | (Partial b, Partial c) \<Rightarrow> rb_eq R b c | _ \<Rightarrow> False)"

definition tm_eq :: "('b, 'z) roaring_ops_scheme \<Rightarrow> 'b row_addr_tree_map \<Rightarrow> 'b row_addr_tree_map \<Rightarrow> bool" where
  "tm_eq R m n = list_all2 (\<lambda>(f, s) (g, t). f = g \<and> selection_eq R s t) m n"

definition nset_eq ::
    "('b, 'z) roaring_ops_scheme \<Rightarrow> 'b merge_join \<Rightarrow> 'b nullable_row_addr_set \<Rightarrow> 'b nullable_row_addr_set \<Rightarrow> bool" where
  "nset_eq R J s other =
     (if \<not> tm_eq R (ns_nulls s) (ns_nulls other) \<and> \<not> maps_equal_except_nulls R J (ns_nulls s) (ns_nulls other) None
      then False
      else maps_equal_except_nulls R J (ns_selected s) (ns_selected other) (Some (ns_nulls s)))"

subsection \<open>Nullable masks\<close>

type_synonym 'b nullable_row_addr_mask = "'b nullable_row_addr_set list_mask"

definition nmask_allow_nothing :: "'b nullable_row_addr_mask" where
  "nmask_allow_nothing = AllowList nset_empty"

definition nmask_all_rows :: "'b nullable_row_addr_mask" where
  "nmask_all_rows = BlockList nset_empty"

definition nmask_selected :: "('b, 'z) roaring_ops_scheme \<Rightarrow> 'b nullable_row_addr_mask \<Rightarrow> u64 \<Rightarrow> bool" where
  "nmask_selected R m row_id =
     (case m of
        AllowList s \<Rightarrow> tm_contains R (ns_selected s) row_id \<and> \<not> tm_contains R (ns_nulls s) row_id
      | BlockList s \<Rightarrow> \<not> tm_contains R (ns_selected s) row_id \<and> \<not> tm_contains R (ns_nulls s) row_id)"

definition nmask_drop_nulls :: "('b, 'z) roaring_ops_scheme \<Rightarrow> 'b nullable_row_addr_mask \<Rightarrow> 'b row_addr_mask" where
  "nmask_drop_nulls R m =
     (case m of
        AllowList s \<Rightarrow> AllowList (tm_sub R (ns_selected s) (ns_nulls s))
      | BlockList s \<Rightarrow> BlockList (tm_or R (ns_selected s) (ns_nulls s)))"

definition nmask_not :: "'b nullable_row_addr_mask \<Rightarrow> 'b nullable_row_addr_mask" where
  "nmask_not m = (case m of AllowList s \<Rightarrow> BlockList s | BlockList s \<Rightarrow> AllowList s)"

definition nmask_and_mixed ::
    "('b, 'z) roaring_ops_scheme \<Rightarrow> 'b nullable_row_addr_set \<Rightarrow> 'b nullable_row_addr_set \<Rightarrow> 'b nullable_row_addr_mask" where
  "nmask_and_mixed R allow block =
     (let nulls = (if tm_is_empty (ns_nulls allow) \<and> tm_is_empty (ns_nulls block) then []
            else tm_or R (tm_or R (tm_and R (ns_nulls allow) (ns_nulls block)) (tm_sub R (ns_nulls allow) (ns_selected block)))
                   (tm_and R (ns_nulls block) (ns_selected allow)))
      in AllowList \<lparr> ns_selected = tm_sub R (ns_selected allow) (ns_selected block), ns_nulls = nulls \<rparr>)"

definition nmask_and ::
    "('b, 'z) roaring_ops_scheme \<Rightarrow> 'b nullable_row_addr_mask \<Rightarrow> 'b nullable_row_addr_mask \<Rightarrow> 'b nullable_row_addr_mask" where
  "nmask_and R m rhs =
     (case (m, rhs) of
        (AllowList a, AllowList b) \<Rightarrow>
          (let nulls = (if tm_is_empty (ns_nulls a) \<and> tm_is_empty (ns_nulls b) then []
                 else tm_or R (tm_or R (tm_and R (ns_nulls a) (ns_nulls b)) (tm_and R (ns_nulls a) (ns_selected b)))
                        (tm_and R (ns_nulls b) (ns_selected a)))
           in AllowList \<lparr> ns_selected = tm_and R (ns_selected a) (ns_selected b), ns_nulls = nulls \<rparr>)
      | (AllowList allow, BlockList block) \<Rightarrow> nmask_and_mixed R allow block
      | (BlockList block, AllowList allow) \<Rightarrow> nmask_and_mixed R allow block
      | (BlockList a, BlockList b) \<Rightarrow>
          (let nulls = (if tm_is_empty (ns_nulls a) \<and> tm_is_empty (ns_nulls b) then []
                 else tm_or R (tm_or R (tm_and R (ns_nulls a) (ns_nulls b)) (tm_sub R (ns_nulls a) (ns_selected b)))
                        (tm_sub R (ns_nulls b) (ns_selected a)))
           in BlockList \<lparr> ns_selected = tm_or R (ns_selected a) (ns_selected b), ns_nulls = nulls \<rparr>))"

definition nmask_or_mixed ::
    "('b, 'z) roaring_ops_scheme \<Rightarrow> 'b nullable_row_addr_set \<Rightarrow> 'b nullable_row_addr_set \<Rightarrow> 'b nullable_row_addr_mask" where
  "nmask_or_mixed R allow block =
     (let allow_true = tm_sub R (ns_selected allow) (ns_nulls allow);
          block_false = tm_sub R (ns_selected block) (ns_nulls block);
          nulls = (if tm_is_empty (ns_nulls allow) \<and> tm_is_empty (ns_nulls block) then []
            else tm_or R (tm_and R (ns_nulls allow) block_false) (tm_sub R (ns_nulls block) allow_true))
      in BlockList \<lparr> ns_selected = tm_or R (tm_sub R block_false allow_true) nulls, ns_nulls = nulls \<rparr>)"

definition nmask_or ::
    "('b, 'z) roaring_ops_scheme \<Rightarrow> 'b nullable_row_addr_mask \<Rightarrow> 'b nullable_row_addr_mask \<Rightarrow> 'b nullable_row_addr_mask" where
  "nmask_or R m rhs =
     (case (m, rhs) of
        (AllowList a, AllowList b) \<Rightarrow>
          (let nulls = (if tm_is_empty (ns_nulls a) \<and> tm_is_empty (ns_nulls b) then []
                 else let true_rows = tm_or R (tm_sub R (ns_selected a) (ns_nulls a)) (tm_sub R (ns_selected b) (ns_nulls b))
                      in tm_sub R (tm_or R (ns_nulls a) (ns_nulls b)) true_rows)
           in AllowList \<lparr> ns_selected = tm_or R (tm_or R (ns_selected a) (ns_selected b)) nulls, ns_nulls = nulls \<rparr>)
      | (AllowList allow, BlockList block) \<Rightarrow> nmask_or_mixed R allow block
      | (BlockList block, AllowList allow) \<Rightarrow> nmask_or_mixed R allow block
      | (BlockList a, BlockList b) \<Rightarrow>
          (let a_false = tm_sub R (ns_selected a) (ns_nulls a);
               b_false = tm_sub R (ns_selected b) (ns_nulls b);
               nulls = (if tm_is_empty (ns_nulls a) \<and> tm_is_empty (ns_nulls b) then []
                 else tm_or R (tm_or R (tm_and R (ns_nulls a) b_false) (tm_and R (ns_nulls b) a_false))
                        (tm_and R (ns_nulls a) (ns_nulls b)))
           in BlockList \<lparr> ns_selected = tm_or R (tm_and R a_false b_false) nulls, ns_nulls = nulls \<rparr>))"

definition nmask_eq ::
    "('b, 'z) roaring_ops_scheme \<Rightarrow> 'b merge_join \<Rightarrow> 'b nullable_row_addr_mask \<Rightarrow> 'b nullable_row_addr_mask \<Rightarrow> bool" where
  "nmask_eq R J m n =
     (case (m, n) of
        (AllowList s, AllowList t) \<Rightarrow> nset_eq R J s t
      | (BlockList s, BlockList t) \<Rightarrow> nset_eq R J s t
      | _ \<Rightarrow> False)"

subsection \<open>Decoding\<close>

definition nset_value :: "('b, 'z) roaring_ops_scheme \<Rightarrow> 'b nullable_row_addr_set \<Rightarrow> u64 \<Rightarrow> kleene" where
  "nset_value R s x = (if x \<in> tm_rows R (ns_nulls s) then KNull
     else if x \<in> tm_rows R (ns_selected s) then KTrue else KFalse)"

definition nmask_value :: "('b, 'z) roaring_ops_scheme \<Rightarrow> 'b nullable_row_addr_mask \<Rightarrow> u64 \<Rightarrow> kleene" where
  "nmask_value R m x = (case m of AllowList s \<Rightarrow> nset_value R s x | BlockList s \<Rightarrow> kleene_not (nset_value R s x))"

definition nset_wf :: "'b nullable_row_addr_set \<Rightarrow> bool" where
  "nset_wf s \<longleftrightarrow> bt_wf (ns_selected s) \<and> bt_wf (ns_nulls s)"

definition nmask_wf :: "'b nullable_row_addr_mask \<Rightarrow> bool" where
  "nmask_wf m = (case m of AllowList s \<Rightarrow> nset_wf s | BlockList s \<Rightarrow> nset_wf s)"

lemma nmask_simps [simp]:
  "nmask_wf (AllowList s) = nset_wf s" "nmask_wf (BlockList s) = nset_wf s"
  "nmask_value R (AllowList s) x = nset_value R s x" "nmask_value R (BlockList s) x = kleene_not (nset_value R s x)"
  by (simp_all add: nmask_wf_def nmask_value_def)

lemma nmask_consts [simp]:
  "nmask_wf nmask_all_rows" "nmask_wf nmask_allow_nothing"
  "nmask_value R nmask_all_rows x = KTrue" "nmask_value R nmask_allow_nothing x = KFalse"
  by (simp_all add: nmask_all_rows_def nmask_allow_nothing_def nset_empty_def nset_wf_def nset_value_def)

context roaring
begin

lemma nset_selected_value: "nset_selected R s x \<longleftrightarrow> nset_value R s x = KTrue"
  by (simp add: nset_selected_def nset_value_def contains_rows)

lemma nmask_selected_value: "nmask_selected R m x \<longleftrightarrow> nmask_value R m x = KTrue"
  by (cases m) (simp_all add: nmask_selected_def nset_value_def contains_rows)

lemma nset_and_value:
  assumes "nset_wf s" "nset_wf t"
  shows "nset_value R (nset_and_assign R s t) x = kleene_and (nset_value R s x) (nset_value R t x)"
    "nset_wf (nset_and_assign R s t)"
  using assms tm_is_empty_rows[of "ns_nulls s" R] tm_is_empty_rows[of "ns_nulls t" R]
  by (auto simp: nset_and_assign_def nset_value_def nset_wf_def Let_def)

lemma nset_or_value:
  assumes "nset_wf s" "nset_wf t"
  shows "nset_value R (nset_or_assign R s t) x = kleene_or (nset_value R s x) (nset_value R t x)"
    "nset_wf (nset_or_assign R s t)"
  using assms tm_is_empty_rows[of "ns_nulls s" R] tm_is_empty_rows[of "ns_nulls t" R]
  by (auto simp: nset_or_assign_def nset_value_def nset_wf_def Let_def)

lemma nmask_not_value: "nmask_value R (nmask_not m) x = kleene_not (nmask_value R m x)"
  "nmask_wf (nmask_not m) = nmask_wf m"
  by (cases m; simp add: nmask_not_def nset_value_def)+

lemma nmask_and_mixed_value:
  assumes "nset_wf s" "nset_wf t"
  shows "nmask_value R (nmask_and_mixed R s t) x = kleene_and (nset_value R s x) (kleene_not (nset_value R t x))"
    "nmask_wf (nmask_and_mixed R s t)"
  using assms tm_is_empty_rows[of "ns_nulls s" R] tm_is_empty_rows[of "ns_nulls t" R]
  by (auto simp: nmask_and_mixed_def nset_value_def nset_wf_def Let_def)

lemma nmask_or_mixed_value:
  assumes "nset_wf s" "nset_wf t"
  shows "nmask_value R (nmask_or_mixed R s t) x = kleene_or (nset_value R s x) (kleene_not (nset_value R t x))"
    "nmask_wf (nmask_or_mixed R s t)"
  using assms tm_is_empty_rows[of "ns_nulls s" R] tm_is_empty_rows[of "ns_nulls t" R]
  by (auto simp: nmask_or_mixed_def nset_value_def nset_wf_def Let_def)

lemma kleene_commute: "kleene_and a b = kleene_and b a" "kleene_or a b = kleene_or b a"
  by (simp_all add: kleene_and_min kleene_or_max min.commute max.commute)

lemma nmask_and_value:
  assumes "nmask_wf m" "nmask_wf n"
  shows "nmask_value R (nmask_and R m n) x = kleene_and (nmask_value R m x) (nmask_value R n x) \<and> nmask_wf (nmask_and R m n)"
proof (cases m)
  case m: (AllowList s)
  show ?thesis
  proof (cases n)
    case n: (AllowList t)
    have "nmask_and R m n = AllowList (nset_and_assign R s t)" by (simp add: m n nmask_and_def nset_and_assign_def Let_def)
    then show ?thesis using nset_and_value[of s t] assms by (simp add: m n)
  next
    case n: (BlockList t)
    have "nmask_and R m n = nmask_and_mixed R s t" by (simp add: m n nmask_and_def)
    then show ?thesis using nmask_and_mixed_value[of s t] assms by (simp add: m n)
  qed
next
  case m: (BlockList s)
  show ?thesis
  proof (cases n)
    case n: (AllowList t)
    have "nmask_and R m n = nmask_and_mixed R t s" by (simp add: m n nmask_and_def)
    then show ?thesis using nmask_and_mixed_value[of t s] assms kleene_commute by (simp add: m n)
  next
    case n: (BlockList t)
    show ?thesis
      using assms tm_is_empty_rows[of "ns_nulls s" R] tm_is_empty_rows[of "ns_nulls t" R]
      by (auto simp: m n nmask_and_def nset_value_def nset_wf_def Let_def)
  qed
qed

lemma nmask_or_value:
  assumes "nmask_wf m" "nmask_wf n"
  shows "nmask_value R (nmask_or R m n) x = kleene_or (nmask_value R m x) (nmask_value R n x) \<and> nmask_wf (nmask_or R m n)"
proof (cases m)
  case m: (AllowList s)
  show ?thesis
  proof (cases n)
    case n: (AllowList t)
    show ?thesis
      using assms tm_is_empty_rows[of "ns_nulls s" R] tm_is_empty_rows[of "ns_nulls t" R]
      by (auto simp: m n nmask_or_def nset_value_def nset_wf_def Let_def)
  next
    case n: (BlockList t)
    have "nmask_or R m n = nmask_or_mixed R s t" by (simp add: m n nmask_or_def)
    then show ?thesis using nmask_or_mixed_value[of s t] assms by (simp add: m n)
  qed
next
  case m: (BlockList s)
  show ?thesis
  proof (cases n)
    case n: (AllowList t)
    have "nmask_or R m n = nmask_or_mixed R t s" by (simp add: m n nmask_or_def)
    then show ?thesis using nmask_or_mixed_value[of t s] assms kleene_commute by (simp add: m n)
  next
    case n: (BlockList t)
    show ?thesis
      using assms tm_is_empty_rows[of "ns_nulls s" R] tm_is_empty_rows[of "ns_nulls t" R]
      by (auto simp: m n nmask_or_def nset_value_def nset_wf_def Let_def)
  qed
qed

lemma nmask_drop_nulls_value:
  assumes "nmask_wf m"
  shows "mask_selected R (nmask_drop_nulls R m) x \<longleftrightarrow> nmask_value R m x = KTrue" "mask_wf (nmask_drop_nulls R m)"
  using assms by (cases m; auto simp: nmask_drop_nulls_def nset_value_def nset_wf_def)+

lemma or_fold_rows:
  "list_all bt_wf ms \<Longrightarrow> bt_wf m \<Longrightarrow>
   tm_rows R (foldl (tm_or R) m ms) = tm_rows R m \<union> \<Union> (tm_rows R ` set ms) \<and> bt_wf (foldl (tm_or R) m ms)"
  by (induction ms arbitrary: m) auto

lemma nset_union_all_value:
  assumes "list_all nset_wf ss"
  shows "nset_value R (nset_union_all R ss) x = foldr (\<lambda>s. kleene_or (nset_value R s x)) ss KFalse"
    "nset_wf (nset_union_all R ss)"
proof -
  have wf: "list_all bt_wf (map ns_selected ss)" "list_all bt_wf (map ns_nulls ss)"
    "list_all bt_wf (map (\<lambda>s. tm_sub R (ns_selected s) (ns_nulls s)) ss)"
    using assms by (simp_all add: list_all_iff nset_wf_def)
  note any = or_fold_rows[OF wf(3) bt_wf_Nil]
  have any_rows: "tm_rows R (foldl (tm_or R) [] (map (\<lambda>s. tm_sub R (ns_selected s) (ns_nulls s)) ss)) =
      (\<Union>s \<in> set ss. tm_rows R (ns_selected s) - tm_rows R (ns_nulls s))"
    using any assms by (auto simp: list_all_iff nset_wf_def)
  show "nset_wf (nset_union_all R ss)"
    using union_all_frag_bits(2)[OF wf(1)] union_all_frag_bits(2)[OF wf(2)]
    by (simp add: nset_union_all_def nset_wf_def Let_def)
  have "foldr (\<lambda>s. kleene_or (nset_value R s x)) ss KFalse =
    (if \<exists>s \<in> set ss. nset_value R s x = KTrue then KTrue else if \<exists>s \<in> set ss. nset_value R s x = KNull then KNull else KFalse)"
    (is "_ = ?v")
  proof (induction ss)
    case (Cons s ss)
    then show ?case by (cases "nset_value R s x") auto
  qed simp
  moreover have "nset_value R (nset_union_all R ss) x = ?v"
    using union_all_rows[OF wf(1)] union_all_rows[OF wf(2)] any_rows any
    by (auto simp: nset_union_all_def nset_value_def Let_def split: if_splits)
  ultimately show "nset_value R (nset_union_all R ss) x = foldr (\<lambda>s. kleene_or (nset_value R s x)) ss KFalse" by simp
qed

subsection \<open>Equality decides equality of decoded values\<close>

lemma selection_option_cases:
  obtains "s = None" | "s = Some Full" | b where "s = Some (Partial b)"
  by (cases s) (use row_addr_selection.exhaust in auto)

lemma union_len_full: "rb_union_len R b c = ucast (- 1 :: u32) + 1 \<longleftrightarrow> rb_bits R b \<union> rb_bits R c = UNIV"
proof -
  have "unat (ucast (- 1 :: u32) + 1 :: u64) = 2 ^ 32"
    by (simp add: unat_word_ariths unat_ucast_up unat_minus_1)
  then show ?thesis
    using card_u32_UNIV[of "rb_bits R b \<union> rb_bits R c"] by (simp add: union_len_spec word_unat_eq_iff)
qed

lemma selections_equal_iff:
  "selections_equal_except_nulls R l r n \<longleftrightarrow> opt_bits R l - opt_bits R n = opt_bits R r - opt_bits R n"
  by (rule selection_option_cases[of l]; rule selection_option_cases[of r]; rule selection_option_cases[of n];
      auto simp: selections_equal_except_nulls_def union_len_full)

lemma ball_join:
  "(\<forall>e \<in> {Both (k, s) (k, t) | k s t. Q k s t} \<union> {OnlyLeft (k, s) | k s. Q1 k s} \<union> {OnlyRight (k, t) | k t. Q2 k t}. P e) \<longleftrightarrow>
   (\<forall>k s t. Q k s t \<longrightarrow> P (Both (k, s) (k, t))) \<and> (\<forall>k s. Q1 k s \<longrightarrow> P (OnlyLeft (k, s))) \<and> (\<forall>k t. Q2 k t \<longrightarrow> P (OnlyRight (k, t)))"
  by blast

lemma maps_equal_iff:
  fixes n :: "'b row_addr_tree_map option"
  assumes "merge_joins J" "bt_wf l" "bt_wf r"
  defines "N \<equiv> \<lambda>f. opt_bits R (Option.bind n (\<lambda>m. bt_get m f))"
  shows "maps_equal_except_nulls R J l r n \<longleftrightarrow> (\<forall>f. frag_bits R l f - N f = frag_bits R r f - N f)"
proof -
  define test where "test = (\<lambda>f. selections_equal_except_nulls R (bt_get l f) (bt_get r f) (Option.bind n (\<lambda>m. tm_get m f)))"
  have keys: "k \<notin> fst ` set m \<longleftrightarrow> bt_get m k = None" for k and m :: "'b row_addr_tree_map"
    by (simp add: bt_get_def map_of_eq_None_iff)
  define sel where "sel = (\<lambda>f s t. selections_equal_except_nulls R s t (Option.bind n (\<lambda>m. tm_get m f)))"
  have "maps_equal_except_nulls R J l r n \<longleftrightarrow>
    (\<forall>f s t. bt_get l f = Some s \<and> bt_get r f = Some t \<longrightarrow> sel f (Some s) (Some t)) \<and>
    (\<forall>f s. bt_get l f = Some s \<and> bt_get r f = None \<longrightarrow> sel f (Some s) None) \<and>
    (\<forall>f t. bt_get r f = Some t \<and> bt_get l f = None \<longrightarrow> sel f None (Some t))"
    unfolding maps_equal_except_nulls_def list_all_iff sel_def
      assms(1)[unfolded merge_joins_def, rule_format, OF assms(2,3)] bt_entry_iff[OF assms(2)] bt_entry_iff[OF assms(3)] keys ball_join
    by simp
  also have "\<dots> \<longleftrightarrow> (\<forall>f. bt_get l f \<noteq> None \<or> bt_get r f \<noteq> None \<longrightarrow> sel f (bt_get l f) (bt_get r f))" (is "?lhs \<longleftrightarrow> ?rhs")
  proof
    assume ?lhs
    show ?rhs
    proof
      fix f
      show "bt_get l f \<noteq> None \<or> bt_get r f \<noteq> None \<longrightarrow> sel f (bt_get l f) (bt_get r f)"
        using \<open>?lhs\<close> by (cases "bt_get l f"; cases "bt_get r f") simp_all
    qed
  next
    assume ?rhs
    then show ?lhs by (metis option.distinct(1))
  qed
  finally have "maps_equal_except_nulls R J l r n \<longleftrightarrow> (\<forall>f. bt_get l f \<noteq> None \<or> bt_get r f \<noteq> None \<longrightarrow> test f)"
    by (simp add: test_def sel_def)
  moreover have "test f" if "bt_get l f = None" "bt_get r f = None" for f
    using that by (simp add: test_def selections_equal_iff)
  ultimately have "maps_equal_except_nulls R J l r n \<longleftrightarrow> (\<forall>f. test f)" by auto
  then show ?thesis by (simp add: test_def selections_equal_iff frag_bits_def N_def tm_get_def)
qed

lemma selection_eq_bits: "selection_eq R s t \<Longrightarrow> sel_bits R s = sel_bits R t"
  by (cases s; cases t) (simp_all add: selection_eq_def)

lemma tm_eq_get: "tm_eq R m n \<Longrightarrow> opt_bits R (bt_get m f) = opt_bits R (bt_get n f)"
proof (induction m arbitrary: n)
  case (Cons e m)
  obtain g s where e: "e = (g, s)" by fastforce
  from Cons.prems obtain t n' where n: "n = (g, t) # n'" "selection_eq R s t" "tm_eq R m n'"
    by (auto simp: tm_eq_def e list_all2_Cons1)
  show ?case using Cons.IH[OF n(3)] selection_eq_bits[OF n(2)] by (simp add: e n(1) bt_get_def)
qed (simp add: tm_eq_def)

lemma tm_eq_rows: "tm_eq R m n \<Longrightarrow> tm_rows R m = tm_rows R n"
  by (simp add: tm_rows_eq_iff frag_bits_def tm_eq_get)

lemma nset_eq_iff:
  assumes "merge_joins J" "nset_wf s" "nset_wf t"
  shows "nset_eq R J s t \<longleftrightarrow> (\<forall>x. nset_value R s x = nset_value R t x)"
proof -
  have nulls: "maps_equal_except_nulls R J (ns_nulls s) (ns_nulls t) None \<longleftrightarrow> tm_rows R (ns_nulls s) = tm_rows R (ns_nulls t)"
    using maps_equal_iff[OF assms(1), of "ns_nulls s" "ns_nulls t" None] assms(2,3) by (simp add: nset_wf_def tm_rows_eq_iff)
  have "maps_equal_except_nulls R J (ns_selected s) (ns_selected t) (Some (ns_nulls s)) \<longleftrightarrow>
    (\<forall>f. frag_bits R (ns_selected s) f - frag_bits R (ns_nulls s) f = frag_bits R (ns_selected t) f - frag_bits R (ns_nulls s) f)"
    using maps_equal_iff[OF assms(1), of "ns_selected s" "ns_selected t" "Some (ns_nulls s)"] assms(2,3)
    by (simp add: nset_wf_def frag_bits_def)
  also have "\<dots> \<longleftrightarrow> tm_rows R (tm_sub R (ns_selected s) (ns_nulls s)) = tm_rows R (tm_sub R (ns_selected t) (ns_nulls s))"
    using assms(2) by (simp only: tm_rows_eq_iff sub_frag_bits nset_wf_def)
  finally have sel: "maps_equal_except_nulls R J (ns_selected s) (ns_selected t) (Some (ns_nulls s)) \<longleftrightarrow>
    tm_rows R (ns_selected s) - tm_rows R (ns_nulls s) = tm_rows R (ns_selected t) - tm_rows R (ns_nulls s)"
    using assms(2) by (simp add: nset_wf_def)
  have "nset_eq R J s t \<longleftrightarrow> tm_rows R (ns_nulls s) = tm_rows R (ns_nulls t) \<and>
    tm_rows R (ns_selected s) - tm_rows R (ns_nulls s) = tm_rows R (ns_selected t) - tm_rows R (ns_nulls s)"
    using tm_eq_rows[of "ns_nulls s" "ns_nulls t"] by (auto simp: nset_eq_def nulls sel)
  also have "\<dots> \<longleftrightarrow> (\<forall>x. nset_value R s x = nset_value R t x)"
    unfolding nset_value_def set_eq_iff by (auto split: if_splits)
  finally show ?thesis .
qed

lemma nmask_eq_sound:
  "merge_joins J \<Longrightarrow> nmask_wf m \<Longrightarrow> nmask_wf n \<Longrightarrow> nmask_eq R J m n \<Longrightarrow> nmask_value R m x = nmask_value R n x"
  by (cases m; cases n) (auto simp: nmask_eq_def nset_eq_iff)

end

subsection \<open>A reference merge join\<close>

definition list_merge_join :: "'b merge_join" where
  "list_merge_join l r =
     List.map_filter (\<lambda>(k, s). map_option (\<lambda>t. Both (k, s) (k, t)) (bt_get r k)) l @
     map OnlyLeft (filter (\<lambda>(k, s). bt_get r k = None) l) @ map OnlyRight (filter (\<lambda>(k, t). bt_get l k = None) r)"

lemma set_map_filter_Some: "set (List.map_filter f xs) = {y. \<exists>x \<in> set xs. f x = Some y}"
  by (induction xs) (auto simp: List.map_filter_simps split: option.splits)

lemma merge_joins_list: "merge_joins list_merge_join"
  unfolding merge_joins_def
proof (intro allI impI)
  fix l r :: "'b row_addr_tree_map"
  assume wf: "bt_wf l" "bt_wf r"
  have keys: "k \<notin> fst ` set m \<longleftrightarrow> bt_get m k = None" for k and m :: "'b row_addr_tree_map"
    by (simp add: bt_get_def map_of_eq_None_iff)
  have a: "set (List.map_filter (\<lambda>(k, s). map_option (\<lambda>t. Both (k, s) (k, t)) (bt_get r k)) l) =
      {Both (k, s) (k, t) | k s t. (k, s) \<in> set l \<and> (k, t) \<in> set r}"
    unfolding set_map_filter_Some bt_entry_iff[OF wf(2)] by (auto; force)
  have b: "set (map OnlyLeft (filter (\<lambda>(k, s). bt_get r k = None) l)) =
      {OnlyLeft (k, s) | k s. (k, s) \<in> set l \<and> k \<notin> fst ` set r}" unfolding keys by auto
  have c: "set (map OnlyRight (filter (\<lambda>(k, t). bt_get l k = None) r)) =
      {OnlyRight (k, t) | k t. (k, t) \<in> set r \<and> k \<notin> fst ` set l}" unfolding keys by auto
  show "set (list_merge_join l r) = {Both (k, s) (k, t) | k s t. (k, s) \<in> set l \<and> (k, t) \<in> set r} \<union>
       {OnlyLeft (k, s) | k s. (k, s) \<in> set l \<and> k \<notin> fst ` set r} \<union>
       {OnlyRight (k, t) | k t. (k, t) \<in> set r \<and> k \<notin> fst ` set l}"
    unfolding list_merge_join_def set_append a b c by blast
qed

subsection \<open>Properties\<close>

text \<open>
  C27. Filter results with NULLs compose by SQL's three-valued logic: negation, conjunction and
  disjunction of nullable masks, for every combination of allow and block lists and wherever a NULL
  row is stored, give on every row the value of Kleene's truth tables, and dropping the NULLs keeps
  exactly the rows that are TRUE.
\<close>

theorem nullable_mask_kleene:
  assumes "roaring R" "nmask_wf m" "nmask_wf n"
  shows "nmask_value R (nmask_not m) x = kleene_not (nmask_value R m x) \<and>
    nmask_value R (nmask_and R m n) x = kleene_and (nmask_value R m x) (nmask_value R n x) \<and> nmask_wf (nmask_and R m n) \<and>
    nmask_value R (nmask_or R m n) x = kleene_or (nmask_value R m x) (nmask_value R n x) \<and> nmask_wf (nmask_or R m n) \<and>
    nmask_selected R m x = (nmask_value R m x = KTrue) \<and>
    mask_selected R (nmask_drop_nulls R m) x = nmask_selected R m x"
  using roaring.nmask_not_value(1)[OF assms(1)] roaring.nmask_and_value[OF assms] roaring.nmask_or_value[OF assms]
    roaring.nmask_selected_value[OF assms(1)] roaring.nmask_drop_nulls_value(1)[OF assms(1,2)]
  by simp

theorem nullable_mask_kleene_witness:
  "let R = set_roaring; x = 3;
       m = AllowList \<lparr> ns_selected = [(0, Partial {1, 3})], ns_nulls = [(0, Partial {2})] \<rparr>;
       n = BlockList \<lparr> ns_selected = [(0, Partial {1})], ns_nulls = [(0, Partial {1, 3})] \<rparr> in
    nmask_value R (nmask_not m) x = kleene_not (nmask_value R m x) \<and>
    nmask_value R (nmask_and R m n) x = kleene_and (nmask_value R m x) (nmask_value R n x) \<and> nmask_wf (nmask_and R m n) \<and>
    nmask_value R (nmask_or R m n) x = kleene_or (nmask_value R m x) (nmask_value R n x) \<and> nmask_wf (nmask_or R m n) \<and>
    nmask_selected R m x = (nmask_value R m x = KTrue) \<and>
    mask_selected R (nmask_drop_nulls R m) x = nmask_selected R m x"
  unfolding Let_def by (rule nullable_mask_kleene) (simp_all add: set_roaring.roaring_axioms nset_wf_def bt_wf_def)

text \<open>
  C28. Nullable row sets combine the same way, and comparing two of them decides whether they decode
  to the same value on every row: a NULL row may be stored inside or outside the selected set, whole
  fragments and bitmaps of all offsets are the same, and empty bitmaps do not matter.
\<close>

theorem nullable_set_equality:
  assumes "roaring R" "merge_joins J" "nset_wf s" "nset_wf t" "list_all nset_wf ss"
  shows "nset_eq R J s t = (\<forall>x. nset_value R s x = nset_value R t x) \<and>
    nset_value R (nset_and_assign R s t) y = kleene_and (nset_value R s y) (nset_value R t y) \<and>
    nset_value R (nset_or_assign R s t) y = kleene_or (nset_value R s y) (nset_value R t y) \<and>
    nset_value R (nset_union_all R ss) y = foldr (\<lambda>s. kleene_or (nset_value R s y)) ss KFalse"
  using roaring.nset_eq_iff[OF assms(1-4)] roaring.nset_and_value(1)[OF assms(1,3,4)]
    roaring.nset_or_value(1)[OF assms(1,3,4)] roaring.nset_union_all_value(1)[OF assms(1,5)]
  by simp

theorem nullable_set_equality_witness:
  "let R = set_roaring; J = list_merge_join; y = 3;
       s = \<lparr> ns_selected = [(0, Partial {1, 3})], ns_nulls = [(0, Partial {2})] \<rparr>;
       t = \<lparr> ns_selected = [(0, Partial {1, 2, 3}), (4, Partial {})], ns_nulls = [(0, Partial {2})] \<rparr>; ss = [s, t] in
    nset_eq R J s t = (\<forall>x. nset_value R s x = nset_value R t x) \<and>
    nset_value R (nset_and_assign R s t) y = kleene_and (nset_value R s y) (nset_value R t y) \<and>
    nset_value R (nset_or_assign R s t) y = kleene_or (nset_value R s y) (nset_value R t y) \<and>
    nset_value R (nset_union_all R ss) y = foldr (\<lambda>s. kleene_or (nset_value R s y)) ss KFalse"
  unfolding Let_def
  by (rule nullable_set_equality) (simp_all add: set_roaring.roaring_axioms merge_joins_list nset_wf_def bt_wf_def)

end
