(* ===== verification/Le_Bytes.thy ===== *)
theory Le_Bytes
  imports Lance_Prelude
begin

text \<open>
  Little-endian bytes of machine words, as the standard library's \<open>to_le_bytes\<close> and the crate
  \<open>byteorder\<close> write and read them.
\<close>

definition to_le_bytes :: "'a::len word \<Rightarrow> u8 list" where
  "to_le_bytes w = map (\<lambda>i. ucast (drop_bit (8 * i) w)) [0..<LENGTH('a) div 8]"

definition read_u32 :: "u8 list \<Rightarrow> (u32 \<times> u8 list) res" where
  "read_u32 bs = (if length bs < 4 then Inl IoError else Inr (from_le_bytes (take 4 bs), drop 4 bs))"

lemma length_to_le_bytes [simp]: "length (to_le_bytes (w :: 'a::len word)) = LENGTH('a) div 8"
  by (simp add: to_le_bytes_def)

lemma from_to_le_bytes:
  assumes "8 dvd LENGTH('a::len)"
  shows "from_le_bytes (to_le_bytes (w :: 'a word)) = w"
proof (rule bit_word_eqI)
  fix i assume i: "i < LENGTH('a)"
  have len: "8 * (LENGTH('a) div 8) = LENGTH('a)" using assms by simp
  then have "i div 8 < LENGTH('a) div 8" using i by (simp add: div_less_mono less_mult_imp_div_less mult.commute)
  then have "bit (to_le_bytes w ! (i div 8)) (i mod 8) \<longleftrightarrow> bit w (8 * (i div 8) + i mod 8)"
    by (simp add: to_le_bytes_def bit_unsigned_iff bit_drop_bit_eq)
  then show "bit (from_le_bytes (to_le_bytes w) :: 'a word) i \<longleftrightarrow> bit w i"
    using i len by (simp add: bit_from_le_bytes)
qed

lemma from_to_le_bytes_widths [simp]:
  "from_le_bytes (to_le_bytes (a :: u16)) = a" "from_le_bytes (to_le_bytes (b :: u32)) = b"
  "from_le_bytes (to_le_bytes (c :: u64)) = c"
  by (rule from_to_le_bytes, simp)+

lemma read_u32_le_bytes [simp]: "read_u32 (to_le_bytes w @ bs) = Inr (w, bs)"
  by (simp add: read_u32_def)

end
