(* ===== verification/Mask_Serde.thy ===== *)
theory Mask_Serde
  imports Nullable_Mask Le_Bytes
begin

text \<open>
  The stable byte format of row-address maps and the Arrow form of masks
  (\<open>lance-select/src/mask.rs\<close>): a map is the number of its entries and, per entry, the fragment id,
  the byte size of its bitmap (zero for a whole fragment) and the bitmap. An Arrow binary array is
  the list of its optional byte strings; an array whose bytes exceed the 32-bit signed offsets can
  not be built.
\<close>

subsection \<open>Row-address maps\<close>

definition tm_serialized_size :: "('b, 'z) roaring_serde_ops_scheme \<Rightarrow> 'b row_addr_tree_map \<Rightarrow> usize" where
  "tm_serialized_size R m =
     foldl (\<lambda>sz (_, s). sz + 8 + (case s of Partial b \<Rightarrow> rb_serialized_size R b | Full \<Rightarrow> 0)) 4 m"

definition serialize_entry :: "('b, 'z) roaring_serde_ops_scheme \<Rightarrow> u32 \<times> 'b row_addr_selection \<Rightarrow> u8 list" where
  "serialize_entry R = (\<lambda>(fragment, s).
     to_le_bytes fragment @
     (case s of
        Partial b \<Rightarrow> to_le_bytes (word_of_nat (rb_serialized_size R b) :: u32) @ rb_serialize R b
      | Full \<Rightarrow> to_le_bytes (0 :: u32)))"

definition tm_serialize :: "('b, 'z) roaring_serde_ops_scheme \<Rightarrow> 'b row_addr_tree_map \<Rightarrow> u8 list" where
  "tm_serialize R m = to_le_bytes (word_of_nat (length m) :: u32) @ concat (map (serialize_entry R) m)"

fun tm_deserialize_loop ::
    "('b, 'z) roaring_serde_ops_scheme \<Rightarrow> nat \<Rightarrow> u8 list \<Rightarrow> 'b row_addr_tree_map \<Rightarrow> 'b row_addr_tree_map res" where
  "tm_deserialize_loop R 0 reader inner = Inr inner"
| "tm_deserialize_loop R (Suc n) reader inner =
     bindr (read_u32 reader) (\<lambda>(fragment, reader1).
     bindr (read_u32 reader1) (\<lambda>(bitmap_size, reader2).
       if bitmap_size = 0 then tm_deserialize_loop R n reader2 (bt_insert inner fragment Full)
       else
         (let buffer = take (unat bitmap_size) reader2
          in if length buffer \<noteq> unat bitmap_size then Inl InvalidInput
             else (case rb_deserialize R buffer of
                     None \<Rightarrow> Inl IoError
                   | Some s \<Rightarrow>
                       tm_deserialize_loop R n (drop (unat bitmap_size) reader2) (bt_insert inner fragment (Partial s))))))"

definition tm_deserialize :: "('b, 'z) roaring_serde_ops_scheme \<Rightarrow> u8 list \<Rightarrow> 'b row_addr_tree_map res" where
  "tm_deserialize R reader =
     bindr (read_u32 reader) (\<lambda>(num_entries, rest). tm_deserialize_loop R (unat num_entries) rest [])"

subsection \<open>Masks\<close>

definition decode_part :: "('b, 'z) roaring_serde_ops_scheme \<Rightarrow> u8 list \<Rightarrow> 'b row_addr_tree_map res" where
  "decode_part R bytes = (case tm_deserialize R bytes of Inl _ \<Rightarrow> Inl InvalidInput | Inr m \<Rightarrow> Inr m)"

definition transpose_res :: "'a res option \<Rightarrow> 'a option res" where
  "transpose_res x = (case x of None \<Rightarrow> Inr None | Some (Inl e) \<Rightarrow> Inl e | Some (Inr v) \<Rightarrow> Inr (Some v))"

definition mask_from_serialized_parts ::
    "('b, 'z) roaring_serde_ops_scheme \<Rightarrow> u8 list option \<Rightarrow> u8 list option \<Rightarrow> 'b row_addr_mask option res" where
  "mask_from_serialized_parts R allow block =
     bindr (transpose_res (map_option (decode_part R) allow)) (\<lambda>allow.
     bindr (transpose_res (map_option (decode_part R) block)) (\<lambda>block.
       Inr (case (allow, block) of
              (Some a, Some b) \<Rightarrow> Some (mask_also_block R (mask_from_allowed a) b)
            | (Some a, None) \<Rightarrow> Some (mask_from_allowed a)
            | (None, Some b) \<Rightarrow> Some (mask_from_block b)
            | (None, None) \<Rightarrow> None)))"

type_synonym binary_array = "u8 list option list"

definition write_slice :: "u8 list \<Rightarrow> usize \<Rightarrow> u8 list \<Rightarrow> u8 list res" where
  "write_slice buf start bytes =
     (if length buf < start then Inl Panic
      else if length buf < start + length bytes then Inl IoError
      else Inr (take start buf @ bytes @ drop (start + length bytes) buf))"

definition binary_array_of :: "usize list \<Rightarrow> u8 list \<Rightarrow> bool list \<Rightarrow> binary_array res" where
  "binary_array_of lengths vals validity =
     (if 2 ^ 31 \<le> sum_list lengths then Inl Panic
      else Inr (map (\<lambda>i. if validity ! i
        then Some (take (lengths ! i) (drop (sum_list (take i lengths)) vals)) else None) [0..<length lengths]))"

definition mask_into_arrow :: "('b, 'z) roaring_serde_ops_scheme \<Rightarrow> 'b row_addr_mask \<Rightarrow> binary_array res" where
  "mask_into_arrow R m =
     (let (block_list, allow_list) = (case m of
            AllowList allow_list \<Rightarrow> (None, Some allow_list) | BlockList block_list \<Rightarrow> (Some block_list, None));
          block_list_length = (case block_list of None \<Rightarrow> 0 | Some bl \<Rightarrow> tm_serialized_size R bl);
          allow_list_length = (case allow_list of None \<Rightarrow> 0 | Some al \<Rightarrow> tm_serialized_size R al);
          value_bytes = replicate (block_list_length + allow_list_length) 0
      in if 2 ^ 31 \<le> block_list_length + allow_list_length then Inl Panic
         else bindr (case block_list of None \<Rightarrow> Inr value_bytes
                     | Some bl \<Rightarrow> write_slice value_bytes 0 (tm_serialize R bl)) (\<lambda>value_bytes1.
              bindr (case allow_list of None \<Rightarrow> Inr value_bytes1
                     | Some al \<Rightarrow> write_slice value_bytes1 block_list_length (tm_serialize R al)) (\<lambda>value_bytes2.
                binary_array_of [block_list_length, allow_list_length] value_bytes2
                  [block_list \<noteq> None, allow_list \<noteq> None])))"

definition mask_from_arrow :: "('b, 'z) roaring_serde_ops_scheme \<Rightarrow> binary_array \<Rightarrow> 'b row_addr_mask res" where
  "mask_from_arrow R array =
     bindr (index_slice array 0) (\<lambda>item0.
     bindr (transpose_res (map_option (tm_deserialize R) item0)) (\<lambda>block_list.
     bindr (index_slice array 1) (\<lambda>item1.
     bindr (transpose_res (map_option (tm_deserialize R) item1)) (\<lambda>allow_list.
       Inr (case (block_list, allow_list) of
              (Some bl, None) \<Rightarrow> BlockList bl
            | (None, Some al) \<Rightarrow> AllowList al
            | (Some block, Some allow) \<Rightarrow> mask_also_block R (AllowList allow) block
            | (None, None) \<Rightarrow> mask_all_rows)))))"

subsection \<open>Round trips\<close>

lemma bt_insert_last: "\<forall>k' \<in> fst ` set m. k' < k \<Longrightarrow> bt_insert m k v = m @ [(k, v)]"
  by (induction m k v rule: bt_insert.induct) auto

lemma tm_eq_keys: "tm_eq R m n \<Longrightarrow> map fst m = map fst n"
  by (induction m arbitrary: n) (auto simp: tm_eq_def list_all2_Cons1)

lemma tm_eq_wf: "tm_eq R m n \<Longrightarrow> bt_wf n = bt_wf m"
  by (simp add: bt_wf_def tm_eq_keys)

lemma tm_eq_Cons: "tm_eq R ((f, s) # m) ((f, t) # n) \<longleftrightarrow> selection_eq R s t \<and> tm_eq R m n"
  by (simp add: tm_eq_def)

context roaring_serde
begin

lemma read_entry:
  "\<exists>t. tm_deserialize_loop R (Suc n) (serialize_entry R (f, s) @ rest) acc =
      tm_deserialize_loop R n rest (bt_insert acc f t) \<and> selection_eq R s t"
proof (cases s)
  case (Partial b)
  define sz where "sz = (word_of_nat (length (rb_serialize R b)) :: u32)"
  have sz: "unat sz = length (rb_serialize R b)" "sz \<noteq> 0"
    using serialize_size[of b] by (auto simp: sz_def unat_of_nat word_unat_eq_iff)
  obtain c where "rb_deserialize R (rb_serialize R b) = Some c" "rb_bits R c = rb_bits R b"
    using deserialize_serialize by blast
  with sz show ?thesis
    by (intro exI[of _ "Partial c"])
      (simp add: serialize_entry_def Partial serialized_size selection_eq_def flip: sz_def)
next
  case Full
  then show ?thesis by (intro exI[of _ Full]) (simp add: serialize_entry_def selection_eq_def)
qed

lemma deserialize_entries:
  "bt_wf (acc @ es) \<Longrightarrow>
   \<exists>es'. tm_deserialize_loop R (length es) (concat (map (serialize_entry R) es) @ rest) acc = Inr (acc @ es') \<and> tm_eq R es es'"
proof (induction es arbitrary: acc)
  case (Cons e es)
  obtain f s where e: "e = (f, s)" by fastforce
  have "\<forall>k \<in> fst ` set acc. k < f" using Cons.prems by (auto simp: e bt_wf_def sorted_wrt_append)
  obtain t where t: "tm_deserialize_loop R (length (e # es)) (concat (map (serialize_entry R) (e # es)) @ rest) acc =
      tm_deserialize_loop R (length es) (concat (map (serialize_entry R) es) @ rest) (acc @ [(f, t)])" "selection_eq R s t"
    using read_entry[of "length es" f s "concat (map (serialize_entry R) es) @ rest" acc]
      bt_insert_last[OF \<open>\<forall>k \<in> fst ` set acc. k < f\<close>] by (auto simp: e)
  have "bt_wf ((acc @ [(f, t)]) @ es)" using Cons.prems by (simp add: e bt_wf_def)
  from Cons.IH[OF this] t show ?case by (auto simp: e tm_eq_Cons)
qed (simp add: tm_eq_def)

lemma deserialize_serialize_map:
  assumes "bt_wf m" "length m < 2 ^ 32"
  shows "\<exists>m'. tm_deserialize R (tm_serialize R m) = Inr m' \<and> tm_eq R m m'"
proof -
  have "unat (word_of_nat (length m) :: u32) = length m" using assms(2) by (simp add: unat_of_nat)
  then show ?thesis
    using deserialize_entries[of "[]" m "[]"] assms(1) by (auto simp: tm_deserialize_def tm_serialize_def)
qed

lemma serialized_size_fold:
  "foldl (\<lambda>sz (_, s). sz + 8 + (case s of Partial b \<Rightarrow> rb_serialized_size R b | Full \<Rightarrow> 0)) k m =
   k + length (concat (map (serialize_entry R) m))"
  by (induction m arbitrary: k)
    (auto simp: serialize_entry_def serialized_size split: row_addr_selection.splits)

lemma serialized_size_eq: "tm_serialized_size R m = length (tm_serialize R m)"
  by (simp add: tm_serialized_size_def serialized_size_fold tm_serialize_def)

lemma serialized_size_entries: "8 * length m \<le> tm_serialized_size R m"
proof -
  have "8 * length m \<le> length (concat (map (serialize_entry R) m))"
    by (induction m) (auto simp: serialize_entry_def split: row_addr_selection.splits)
  then show ?thesis by (simp add: serialized_size_eq tm_serialize_def)
qed

lemma into_arrow_eq:
  assumes "tm_serialized_size R m < 2 ^ 31"
  shows "mask_into_arrow R (AllowList m) = Inr [None, Some (tm_serialize R m)]"
    "mask_into_arrow R (BlockList m) = Inr [Some (tm_serialize R m), None]"
proof -
  have upt: "[0..<2] = [0, 1 :: nat]" by (simp add: numeral_2_eq_2)
  show "mask_into_arrow R (AllowList m) = Inr [None, Some (tm_serialize R m)]"
    "mask_into_arrow R (BlockList m) = Inr [Some (tm_serialize R m), None]"
    using assms by (simp_all add: mask_into_arrow_def Let_def serialized_size_eq write_slice_def binary_array_of_def upt)
qed

lemma arrow_roundtrip:
  assumes "mask_wf m" "tm_serialized_size R (case m of AllowList a \<Rightarrow> a | BlockList b \<Rightarrow> b) < 2 ^ 31"
  shows "\<exists>arr m'. mask_into_arrow R m = Inr arr \<and> mask_from_arrow R arr = Inr m' \<and> mask_wf m' \<and>
    (mask_allow_list m = None) = (mask_allow_list m' = None) \<and> (\<forall>x. mask_selected R m' x = mask_selected R m x)"
proof -
  define l where "l = (case m of AllowList a \<Rightarrow> a | BlockList b \<Rightarrow> b)"
  have "bt_wf l" using assms(1) by (cases m) (simp_all add: l_def)
  moreover have "length l < 2 ^ 32" using assms(2) serialized_size_entries[of l] by (simp add: l_def[symmetric])
  ultimately obtain l' where l': "tm_deserialize R (tm_serialize R l) = Inr l'" "tm_eq R l l'"
    using deserialize_serialize_map by blast
  then have "tm_rows R l' = tm_rows R l" "bt_wf l'" using tm_eq_rows tm_eq_wf \<open>bt_wf l\<close> by (metis, metis)
  moreover note into_arrow_eq[of l, OF assms(2)[folded l_def]]
  ultimately show ?thesis using l'(1)
    by (cases m) (simp_all add: l_def mask_from_arrow_def transpose_res_def mask_allow_list_def)
qed

lemma serialized_parts_roundtrip:
  assumes "bt_wf a" "bt_wf b" "length a < 2 ^ 32" "length b < 2 ^ 32"
  shows "\<exists>m. mask_from_serialized_parts R (Some (tm_serialize R a)) (Some (tm_serialize R b)) = Inr (Some m) \<and>
    mask_wf m \<and> (\<forall>x. mask_selected R m x \<longleftrightarrow> x \<in> tm_rows R a \<and> x \<notin> tm_rows R b)"
proof -
  obtain a' b' where d: "tm_deserialize R (tm_serialize R a) = Inr a'" "tm_eq R a a'"
    "tm_deserialize R (tm_serialize R b) = Inr b'" "tm_eq R b b'"
    using deserialize_serialize_map assms by meson
  then have "bt_wf a'" "bt_wf b'" "tm_rows R a' = tm_rows R a" "tm_rows R b' = tm_rows R b"
    using tm_eq_rows[OF d(2)] tm_eq_rows[OF d(4)] tm_eq_wf[OF d(2)] tm_eq_wf[OF d(4)] assms(1,2) by simp_all
  then show ?thesis
    using d(1,3) by (auto simp: mask_from_serialized_parts_def decode_part_def transpose_res_def mask_from_allowed_def
        mask_also_block_ok)
qed

end

lemma read_u32_errors: "read_u32 bs = Inl e \<Longrightarrow> e = IoError"
  by (simp add: read_u32_def split: if_splits)

lemma tm_deserialize_loop_errors:
  "tm_deserialize_loop R n bs inner = Inl e \<Longrightarrow> e = IoError \<or> e = InvalidInput"
proof (induction n arbitrary: bs inner)
  case (Suc n)
  consider "\<exists>e. read_u32 bs = Inl e" | f bs1 where "read_u32 bs = Inr (f, bs1)" "\<exists>e. read_u32 bs1 = Inl e"
    | f bs1 sz bs2 where "read_u32 bs = Inr (f, bs1)" "read_u32 bs1 = Inr (sz, bs2)"
    by (metis sum.exhaust prod.exhaust)
  then show ?case
    using Suc by cases (auto simp: Let_def dest: read_u32_errors split: if_splits option.splits)
qed simp

lemma tm_deserialize_errors: "tm_deserialize R bs = Inl e \<Longrightarrow> e = IoError \<or> e = InvalidInput"
  by (auto simp: tm_deserialize_def read_u32_def split: if_splits dest: tm_deserialize_loop_errors)

lemma serialized_parts_errors: "mask_from_serialized_parts R a b = Inl e \<Longrightarrow> e = InvalidInput"
  by (auto simp: mask_from_serialized_parts_def transpose_res_def decode_part_def bindr_def split: sum.splits option.splits)

subsection \<open>Properties\<close>

text \<open>
  C29. The stable byte format round-trips: reading back a written map gives an equal map (whole
  fragments stay whole, also next to bitmaps), the announced size is the number of bytes written,
  and reading any bytes whatsoever gives a map or an error, never a panic.
\<close>

theorem treemap_serde_roundtrip:
  assumes "roaring_serde R" "bt_wf m" "length m < 2 ^ 32"
  shows "(\<exists>m'. tm_deserialize R (tm_serialize R m) = Inr m' \<and> tm_eq R m m' \<and> (\<forall>x. tm_contains R m' x = tm_contains R m x)) \<and>
    tm_serialized_size R m = length (tm_serialize R m) \<and> tm_deserialize R bytes \<noteq> Inl Panic"
  using roaring_serde.deserialize_serialize_map[OF assms] roaring_serde.serialized_size_eq[OF assms(1), of m]
    tm_deserialize_errors[of R bytes Panic] roaring.tm_eq_rows[OF roaring_serde.axioms(1)[OF assms(1)]]
    roaring.contains_rows[OF roaring_serde.axioms(1)[OF assms(1)]] by fastforce

theorem treemap_serde_roundtrip_witness:
  "(\<exists>m'. tm_deserialize set_roaring (tm_serialize set_roaring [(1, Full), (2, Partial {3})]) = Inr m' \<and>
      tm_eq set_roaring [(1, Full), (2, Partial {3})] m' \<and>
      (\<forall>x. tm_contains set_roaring m' x = tm_contains set_roaring [(1, Full), (2, Partial {3})] x)) \<and>
    tm_serialized_size set_roaring [(1, Full), (2, Partial {3})] = length (tm_serialize set_roaring [(1, Full), (2, Partial {3})]) \<and>
    tm_deserialize set_roaring [1, 0, 0] \<noteq> Inl Panic"
  by (rule treemap_serde_roundtrip) (simp_all add: set_roaring.roaring_serde_axioms bt_wf_def)



end
