(* ===== verification/Index_Result.thy ===== *)
theory Index_Result
  imports Mask_Serde
begin

text \<open>
  Results of index searches (\<open>lance-select/src/result.rs\<close>): an interval of masks that brackets the
  answer, with NULLs (\<open>NullableIndexExprResult\<close>, prefix \<open>nier\<close>) and without
  (\<open>IndexExprResult\<close>, prefix \<open>ier\<close>), its Boolean algebra, and the two record-batch formats it is
  sent in. The algebra is proved once over the interface \<open>mask_logic\<close>, which both kinds of mask
  implement: an interval bounds a predicate when on every row the predicate's value lies between
  the two endpoints, in the order FALSE, NULL, TRUE.
\<close>

subsection \<open>The interface of masks with a logic\<close>

record 'm index_expr_result =
  ie_lower :: 'm
  ie_upper :: 'm
  ie_exact :: bool

definition bounds :: "('m \<Rightarrow> u64 \<Rightarrow> 'v::linorder) \<Rightarrow> (u64 \<Rightarrow> 'v) \<Rightarrow> 'm index_expr_result \<Rightarrow> bool" where
  "bounds val p r \<longleftrightarrow> (\<forall>x. val (ie_lower r) x \<le> p x \<and> p x \<le> val (ie_upper r) x)"

definition exact_ok :: "'m index_expr_result \<Rightarrow> bool" where
  "exact_ok r \<longleftrightarrow> (ie_exact r \<longrightarrow> ie_lower r = ie_upper r)"

locale mask_logic =
  fixes wf :: "'m \<Rightarrow> bool" and val :: "'m \<Rightarrow> u64 \<Rightarrow> 'v::linorder" and neg :: "'v \<Rightarrow> 'v"
    and m_not :: "'m \<Rightarrow> 'm" and m_and :: "'m \<Rightarrow> 'm \<Rightarrow> 'm" and m_or :: "'m \<Rightarrow> 'm \<Rightarrow> 'm"
    and m_none :: 'm and m_all :: 'm
  assumes wf_not: "wf m \<Longrightarrow> wf (m_not m)" and val_not: "wf m \<Longrightarrow> val (m_not m) x = neg (val m x)"
    and wf_and: "wf m \<Longrightarrow> wf n \<Longrightarrow> wf (m_and m n)" and val_and: "wf m \<Longrightarrow> wf n \<Longrightarrow> val (m_and m n) x = min (val m x) (val n x)"
    and wf_or: "wf m \<Longrightarrow> wf n \<Longrightarrow> wf (m_or m n)" and val_or: "wf m \<Longrightarrow> wf n \<Longrightarrow> val (m_or m n) x = max (val m x) (val n x)"
    and neg_antimono: "neg a \<le> neg b \<longleftrightarrow> b \<le> a"
    and wf_none: "wf m_none" and val_none: "val m_none x \<le> v"
    and wf_all: "wf m_all" and val_all: "v \<le> val m_all x"
begin

lemma bounds_not:
  assumes "wf (ie_lower r)" "wf (ie_upper r)" "bounds val p r"
    "ie_lower r' = m_not (ie_upper r)" "ie_upper r' = m_not (ie_lower r)"
  shows "bounds val (\<lambda>x. neg (p x)) r'"
  using assms by (simp add: bounds_def val_not neg_antimono)

lemma bounds_and:
  assumes "wf (ie_lower r)" "wf (ie_upper r)" "wf (ie_lower s)" "wf (ie_upper s)" "bounds val p r" "bounds val q s"
    "ie_lower r' = m_and (ie_lower r) (ie_lower s)" "ie_upper r' = m_and (ie_upper r) (ie_upper s)"
  shows "bounds val (\<lambda>x. min (p x) (q x)) r'"
  using assms by (auto simp: bounds_def val_and min_le_iff_disj)

lemma bounds_or:
  assumes "wf (ie_lower r)" "wf (ie_upper r)" "wf (ie_lower s)" "wf (ie_upper s)" "bounds val p r" "bounds val q s"
    "ie_lower r' = m_or (ie_lower r) (ie_lower s)" "ie_upper r' = m_or (ie_upper r) (ie_upper s)"
  shows "bounds val (\<lambda>x. max (p x) (q x)) r'"
  using assms by (simp add: bounds_def val_or max.mono del: max.bounded_iff)

lemma bounds_at_most: "(\<And>x. p x \<le> val m x) \<Longrightarrow> bounds val p \<lparr> ie_lower = m_none, ie_upper = m, ie_exact = False \<rparr>"
  by (simp add: bounds_def val_none)

lemma bounds_at_least: "(\<And>x. val m x \<le> p x) \<Longrightarrow> bounds val p \<lparr> ie_lower = m, ie_upper = m_all, ie_exact = False \<rparr>"
  by (simp add: bounds_def val_all)

end

subsection \<open>Results with NULLs\<close>

type_synonym 'b nullable_index_expr_result = "'b nullable_row_addr_mask index_expr_result"

definition nier_exact :: "'b nullable_row_addr_mask \<Rightarrow> 'b nullable_index_expr_result" where
  "nier_exact m = \<lparr> ie_lower = m, ie_upper = m, ie_exact = True \<rparr>"

definition nier_at_most :: "'b nullable_row_addr_mask \<Rightarrow> 'b nullable_index_expr_result" where
  "nier_at_most m = \<lparr> ie_lower = nmask_allow_nothing, ie_upper = m, ie_exact = False \<rparr>"

definition nier_at_least :: "'b nullable_row_addr_mask \<Rightarrow> 'b nullable_index_expr_result" where
  "nier_at_least m = \<lparr> ie_lower = m, ie_upper = nmask_all_rows, ie_exact = False \<rparr>"

definition nier_new ::
    "('b, 'z) roaring_ops_scheme \<Rightarrow> 'b merge_join \<Rightarrow> 'b nullable_row_addr_mask \<Rightarrow> 'b nullable_row_addr_mask \<Rightarrow>
     'b nullable_index_expr_result" where
  "nier_new R J lower upper =
     (if nmask_eq R J lower upper then nier_exact lower
      else \<lparr> ie_lower = lower, ie_upper = upper, ie_exact = False \<rparr>)"

definition nier_try_map ::
    "('b, 'z) roaring_ops_scheme \<Rightarrow> 'b merge_join \<Rightarrow> ('b nullable_row_addr_mask \<Rightarrow> 'e + 'b nullable_row_addr_mask) \<Rightarrow>
     'b nullable_index_expr_result \<Rightarrow> 'e + 'b nullable_index_expr_result" where
  "nier_try_map R J transform r =
     (case transform (ie_lower r) of
        Inl e \<Rightarrow> Inl e
      | Inr lower \<Rightarrow>
          if ie_exact r then Inr (nier_exact lower)
          else (case transform (ie_upper r) of Inl e \<Rightarrow> Inl e | Inr upper \<Rightarrow> Inr (nier_new R J lower upper)))"

definition nier_is_at_most :: "'b nullable_index_expr_result \<Rightarrow> bool" where
  "nier_is_at_most r = (case ie_lower r of AllowList s \<Rightarrow> nset_is_empty s | BlockList _ \<Rightarrow> False)"

definition nier_is_at_least :: "'b nullable_index_expr_result \<Rightarrow> bool" where
  "nier_is_at_least r = (case ie_upper r of BlockList s \<Rightarrow> nset_is_empty s | AllowList _ \<Rightarrow> False)"

definition nier_drop_nulls ::
    "('b, 'z) roaring_ops_scheme \<Rightarrow> 'b nullable_index_expr_result \<Rightarrow> 'b row_addr_mask index_expr_result" where
  "nier_drop_nulls R r =
     \<lparr> ie_lower = nmask_drop_nulls R (ie_lower r), ie_upper = nmask_drop_nulls R (ie_upper r), ie_exact = ie_exact r \<rparr>"

definition nier_not :: "'b nullable_index_expr_result \<Rightarrow> 'b nullable_index_expr_result" where
  "nier_not r = \<lparr> ie_lower = nmask_not (ie_upper r), ie_upper = nmask_not (ie_lower r), ie_exact = ie_exact r \<rparr>"

definition nier_and ::
    "('b, 'z) roaring_ops_scheme \<Rightarrow> 'b nullable_index_expr_result \<Rightarrow> 'b nullable_index_expr_result \<Rightarrow> 'b nullable_index_expr_result" where
  "nier_and R r rhs =
     \<lparr> ie_lower = nmask_and R (ie_lower r) (ie_lower rhs), ie_upper = nmask_and R (ie_upper r) (ie_upper rhs),
       ie_exact = (ie_exact r \<and> ie_exact rhs) \<rparr>"

definition nier_or ::
    "('b, 'z) roaring_ops_scheme \<Rightarrow> 'b nullable_index_expr_result \<Rightarrow> 'b nullable_index_expr_result \<Rightarrow> 'b nullable_index_expr_result" where
  "nier_or R r rhs =
     \<lparr> ie_lower = nmask_or R (ie_lower r) (ie_lower rhs), ie_upper = nmask_or R (ie_upper r) (ie_upper rhs),
       ie_exact = (ie_exact r \<and> ie_exact rhs) \<rparr>"

subsection \<open>Results without NULLs\<close>

type_synonym 'b plain_index_expr_result = "'b row_addr_mask index_expr_result"

definition ier_exact :: "'b row_addr_mask \<Rightarrow> 'b plain_index_expr_result" where
  "ier_exact m = \<lparr> ie_lower = m, ie_upper = m, ie_exact = True \<rparr>"

definition ier_at_most :: "'b row_addr_mask \<Rightarrow> 'b plain_index_expr_result" where
  "ier_at_most m = \<lparr> ie_lower = mask_allow_nothing, ie_upper = m, ie_exact = False \<rparr>"

definition ier_at_least :: "'b row_addr_mask \<Rightarrow> 'b plain_index_expr_result" where
  "ier_at_least m = \<lparr> ie_lower = m, ie_upper = mask_all_rows, ie_exact = False \<rparr>"

definition ier_new :: "'b row_addr_mask \<Rightarrow> 'b row_addr_mask \<Rightarrow> 'b plain_index_expr_result" where
  "ier_new lower upper = \<lparr> ie_lower = lower, ie_upper = upper, ie_exact = False \<rparr>"

definition ier_is_at_most :: "'b plain_index_expr_result \<Rightarrow> bool" where
  "ier_is_at_most r = (case ie_lower r of AllowList s \<Rightarrow> tm_is_empty s | BlockList _ \<Rightarrow> False)"

definition ier_is_at_least :: "'b plain_index_expr_result \<Rightarrow> bool" where
  "ier_is_at_least r = (case ie_upper r of BlockList s \<Rightarrow> tm_is_empty s | AllowList _ \<Rightarrow> False)"

definition ier_not :: "'b plain_index_expr_result \<Rightarrow> 'b plain_index_expr_result" where
  "ier_not r = \<lparr> ie_lower = mask_not (ie_upper r), ie_upper = mask_not (ie_lower r), ie_exact = ie_exact r \<rparr>"

definition ier_and ::
    "('b, 'z) roaring_ops_scheme \<Rightarrow> 'b plain_index_expr_result \<Rightarrow> 'b plain_index_expr_result \<Rightarrow> 'b plain_index_expr_result" where
  "ier_and R r rhs =
     \<lparr> ie_lower = mask_and R (ie_lower r) (ie_lower rhs), ie_upper = mask_and R (ie_upper r) (ie_upper rhs),
       ie_exact = (ie_exact r \<and> ie_exact rhs) \<rparr>"

definition ier_or ::
    "('b, 'z) roaring_ops_scheme \<Rightarrow> 'b plain_index_expr_result \<Rightarrow> 'b plain_index_expr_result \<Rightarrow> 'b plain_index_expr_result" where
  "ier_or R r rhs =
     \<lparr> ie_lower = mask_or R (ie_lower r) (ie_lower rhs), ie_upper = mask_or R (ie_upper r) (ie_upper rhs),
       ie_exact = (ie_exact r \<and> ie_exact rhs) \<rparr>"

subsection \<open>Record batches\<close>

datatype column = BinaryColumn binary_array | UInt32Column "u32 list"

record record_batch =
  batch_fields :: "string list"
  batch_columns :: "column list"

datatype wire_format = ThreeVariant | TwoMask

definition column_len :: "column \<Rightarrow> usize" where
  "column_len c = (case c of BinaryColumn a \<Rightarrow> length a | UInt32Column a \<Rightarrow> length a)"

definition batch_num_rows :: "record_batch \<Rightarrow> usize" where
  "batch_num_rows b = (case batch_columns b of [] \<Rightarrow> 0 | c # _ \<Rightarrow> column_len c)"

definition as_binary :: "column \<Rightarrow> binary_array res" where
  "as_binary c = (case c of BinaryColumn a \<Rightarrow> Inr a | UInt32Column _ \<Rightarrow> Inl Panic)"

definition as_u32 :: "column \<Rightarrow> u32 list res" where
  "as_u32 c = (case c of BinaryColumn _ \<Rightarrow> Inl Panic | UInt32Column a \<Rightarrow> Inr a)"

definition append_value :: "binary_array \<Rightarrow> u8 list \<Rightarrow> binary_array res" where
  "append_value a bytes = (if 2 ^ 31 \<le> length bytes then Inl Panic else Inr (a @ [Some bytes]))"

definition serialize_standard ::
    "('b, 'z) roaring_serde_ops_scheme \<Rightarrow> 'b plain_index_expr_result \<Rightarrow> 'b \<Rightarrow> record_batch res" where
  "serialize_standard R r fragments_covered =
     bindr (mask_into_arrow R (ie_lower r)) (\<lambda>lower_arr.
     bindr (if ie_exact r then Inr [None, None] else mask_into_arrow R (ie_upper r)) (\<lambda>upper_arr.
     bindr (append_value [] (rb_serialize R fragments_covered)) (\<lambda>frags.
       Inr \<lparr> batch_fields = [''lower'', ''upper'', ''fragments_covered''],
             batch_columns = [BinaryColumn lower_arr, BinaryColumn upper_arr, BinaryColumn (frags @ [None])] \<rparr>)))"

definition serialize_three_variant ::
    "('b, 'z) roaring_serde_ops_scheme \<Rightarrow> 'b plain_index_expr_result \<Rightarrow> 'b \<Rightarrow> record_batch res" where
  "serialize_three_variant R r fragments_covered =
     (let (msk, discriminant) =
        (if ie_exact r then (ie_lower r, 0 :: u32)
         else if ier_is_at_most r then (ie_upper r, 1)
         else if ier_is_at_least r then (ie_lower r, 2)
         else (ie_upper r, 1))
      in bindr (mask_into_arrow R msk) (\<lambda>mask_arr.
         bindr (append_value [] (rb_serialize R fragments_covered)) (\<lambda>frags.
           Inr \<lparr> batch_fields = [''result'', ''discriminant'', ''fragments_covered''],
                 batch_columns = [BinaryColumn mask_arr, UInt32Column [discriminant, discriminant],
                   BinaryColumn (frags @ [None])] \<rparr>)))"

definition ier_serialize ::
    "('b, 'z) roaring_serde_ops_scheme \<Rightarrow> 'b plain_index_expr_result \<Rightarrow> 'b \<Rightarrow> wire_format \<Rightarrow> record_batch res" where
  "ier_serialize R r fragments_covered format =
     (case format of
        ThreeVariant \<Rightarrow> serialize_three_variant R r fragments_covered
      | TwoMask \<Rightarrow> serialize_standard R r fragments_covered)"

definition deserialize_two_mask ::
    "('b, 'z) roaring_serde_ops_scheme \<Rightarrow> record_batch \<Rightarrow> 'b plain_index_expr_result res" where
  "deserialize_two_mask R batch =
     bindr (bindr (index_slice (batch_columns batch) 0) as_binary) (\<lambda>lower_col.
     bindr (mask_from_arrow R lower_col) (\<lambda>lower.
     bindr (bindr (index_slice (batch_columns batch) 1) as_binary) (\<lambda>upper_col.
     bindr (index_slice upper_col 0) (\<lambda>item0.
     bindr (index_slice upper_col 1) (\<lambda>item1.
       if item0 = None \<and> item1 = None then Inr (ier_exact lower)
       else bindr (mask_from_arrow R upper_col) (\<lambda>upper.
         Inr \<lparr> ie_lower = lower, ie_upper = upper, ie_exact = False \<rparr>))))))"

definition deserialize_three_variant ::
    "('b, 'z) roaring_serde_ops_scheme \<Rightarrow> record_batch \<Rightarrow> 'b plain_index_expr_result res" where
  "deserialize_three_variant R batch =
     bindr (bindr (index_slice (batch_columns batch) 0) as_binary) (\<lambda>result_col.
     bindr (mask_from_arrow R result_col) (\<lambda>row_addr_mask.
     bindr (bindr (index_slice (batch_columns batch) 1) as_u32) (\<lambda>vals.
     bindr (index_slice vals 0) (\<lambda>match_type.
       if match_type = 0 then Inr (ier_exact row_addr_mask)
       else if match_type = 1 then Inr (ier_at_most row_addr_mask)
       else if match_type = 2 then Inr (ier_at_least row_addr_mask)
       else Inl Internal))))"

definition ier_deserialize ::
    "('b, 'z) roaring_serde_ops_scheme \<Rightarrow> record_batch \<Rightarrow> ('b plain_index_expr_result \<times> 'b) res" where
  "ier_deserialize R batch =
     (if batch_num_rows batch \<noteq> 2 then Inl InvalidInput
      else if length (batch_columns batch) \<noteq> 3 then Inl InvalidInput
      else
        bindr (index_slice (batch_fields batch) 0) (\<lambda>first_col_name.
        bindr (if first_col_name = ''lower'' then deserialize_two_mask R batch
               else if first_col_name = ''result'' then deserialize_three_variant R batch
               else Inl Internal) (\<lambda>index_result.
        bindr (bindr (index_slice (batch_columns batch) 2) as_binary) (\<lambda>frags_col.
        bindr (index_slice frags_col 0) (\<lambda>item0.
          case rb_deserialize R (case item0 of None \<Rightarrow> [] | Some bytes \<Rightarrow> bytes) of
            None \<Rightarrow> Inl IoError
          | Some fragments \<Rightarrow> Inr (index_result, fragments))))))"

abbreviation mask_map :: "'b row_addr_mask \<Rightarrow> 'b row_addr_tree_map" where
  "mask_map m \<equiv> (case m of AllowList a \<Rightarrow> a | BlockList b \<Rightarrow> b)"

subsection \<open>Both kinds of mask implement the interface\<close>

definition ie_wf :: "('m \<Rightarrow> bool) \<Rightarrow> 'm index_expr_result \<Rightarrow> bool" where
  "ie_wf ok r \<longleftrightarrow> ok (ie_lower r) \<and> ok (ie_upper r)"

sublocale roaring \<subseteq> addr_logic: mask_logic mask_wf "mask_selected R" Not mask_not "mask_and R" "mask_or R"
  mask_allow_nothing mask_all_rows
  by unfold_locales (auto simp: mask_and_ok mask_or_ok min_def max_def)

sublocale roaring \<subseteq> null_logic: mask_logic nmask_wf "nmask_value R" kleene_not nmask_not "nmask_and R" "nmask_or R"
  nmask_allow_nothing nmask_all_rows
proof unfold_locales
  show "nmask_value R nmask_allow_nothing x \<le> v" "v \<le> nmask_value R nmask_all_rows x" for x v
    by (cases v; simp add: less_eq_kleene_def kleene_rank_def)+
qed (simp_all add: nmask_not_value nmask_and_value nmask_or_value kleene_and_min kleene_or_max kleene_not_antimono)

context roaring
begin

lemma nier_bounds:
  assumes "ie_wf nmask_wf r" "ie_wf nmask_wf s" "bounds (nmask_value R) p r" "bounds (nmask_value R) q s"
  shows "bounds (nmask_value R) (\<lambda>x. kleene_not (p x)) (nier_not r)"
    "bounds (nmask_value R) (\<lambda>x. kleene_and (p x) (q x)) (nier_and R r s)"
    "bounds (nmask_value R) (\<lambda>x. kleene_or (p x) (q x)) (nier_or R r s)"
    "bounds (mask_selected R) (\<lambda>x. p x = KTrue) (nier_drop_nulls R r)"
proof -
  note wf = assms(1,2)[unfolded ie_wf_def]
  show "bounds (nmask_value R) (\<lambda>x. kleene_not (p x)) (nier_not r)"
    by (rule null_logic.bounds_not[OF _ _ assms(3)]) (use wf in \<open>simp_all add: nier_not_def\<close>)
  show "bounds (nmask_value R) (\<lambda>x. kleene_and (p x) (q x)) (nier_and R r s)"
    unfolding kleene_and_min
    by (rule null_logic.bounds_and[OF _ _ _ _ assms(3,4)]) (use wf in \<open>simp_all add: nier_and_def\<close>)
  show "bounds (nmask_value R) (\<lambda>x. kleene_or (p x) (q x)) (nier_or R r s)"
    unfolding kleene_or_max
    by (rule null_logic.bounds_or[OF _ _ _ _ assms(3,4)]) (use wf in \<open>simp_all add: nier_or_def\<close>)
  have top: "v = KTrue \<longrightarrow> w = KTrue" if "v \<le> w" for v w
    using that by (cases w) (auto simp: less_eq_kleene_def kleene_rank_def)
  have "(nmask_value R (ie_lower r) x = KTrue \<longrightarrow> p x = KTrue) \<and> (p x = KTrue \<longrightarrow> nmask_value R (ie_upper r) x = KTrue)" for x
    using assms(3) top[of "nmask_value R (ie_lower r) x" "p x"] top[of "p x" "nmask_value R (ie_upper r) x"]
    by (simp add: bounds_def)
  then show "bounds (mask_selected R) (\<lambda>x. p x = KTrue) (nier_drop_nulls R r)"
    using wf by (simp add: bounds_def nier_drop_nulls_def nmask_drop_nulls_value)
qed

lemma nier_exact_ok:
  "exact_ok r \<Longrightarrow> exact_ok s \<Longrightarrow> exact_ok (nier_not r) \<and> exact_ok (nier_and R r s) \<and> exact_ok (nier_or R r s) \<and>
   exact_ok (nier_drop_nulls R r)"
  by (simp add: exact_ok_def nier_not_def nier_and_def nier_or_def nier_drop_nulls_def)

end

context roaring_serde
begin

lemma arrow_decoded:
  assumes "mask_wf m" "tm_serialized_size R (mask_map m) < 2 ^ 31"
  obtains arr m' where "mask_into_arrow R m = Inr arr" "mask_from_arrow R arr = Inr m'"
    "\<And>x. mask_selected R m' x = mask_selected R m x" "length arr = 2" "arr \<noteq> [None, None]"
  using arrow_roundtrip[OF assms] assms(2) into_arrow_eq by (cases m) fastforce+

lemma two_mask_roundtrip:
  assumes "ie_wf mask_wf r" "tm_serialized_size R (mask_map (ie_lower r)) < 2 ^ 31"
    "tm_serialized_size R (mask_map (ie_upper r)) < 2 ^ 31" "length (rb_serialize R frags) < 2 ^ 31" "exact_ok r"
  shows "\<exists>batch r' f. serialize_standard R r frags = Inr batch \<and> ier_deserialize R batch = Inr (r', f) \<and>
    rb_bits R f = rb_bits R frags \<and> ie_exact r' = ie_exact r \<and>
    (\<forall>x. mask_selected R (ie_lower r') x = mask_selected R (ie_lower r) x \<and>
         mask_selected R (ie_upper r') x = mask_selected R (ie_upper r) x)"
proof -
  obtain la l where l: "mask_into_arrow R (ie_lower r) = Inr la" "mask_from_arrow R la = Inr l"
    "\<And>x. mask_selected R l x = mask_selected R (ie_lower r) x" "length la = 2"
    by (rule arrow_decoded[of "ie_lower r"]) (use assms(1,2) in \<open>simp_all add: ie_wf_def\<close>)
  obtain ua u where u: "mask_into_arrow R (ie_upper r) = Inr ua" "mask_from_arrow R ua = Inr u"
    "\<And>x. mask_selected R u x = mask_selected R (ie_upper r) x" "length ua = 2" "ua \<noteq> [None, None]"
    by (rule arrow_decoded[of "ie_upper r"]) (use assms(1,3) in \<open>simp_all add: ie_wf_def\<close>)
  obtain f where f: "rb_deserialize R (rb_serialize R frags) = Some f" "rb_bits R f = rb_bits R frags"
    using deserialize_serialize by blast
  have "ua ! 0 \<noteq> None \<or> ua ! 1 \<noteq> None"
    using u(4,5) by (cases ua; cases "tl ua") auto
  with l u f assms(4,5) show ?thesis
    by (auto simp: serialize_standard_def append_value_def ier_deserialize_def batch_num_rows_def column_len_def
        deserialize_two_mask_def as_binary_def ier_exact_def exact_ok_def)
qed

lemma three_variant_sound:
  assumes "ie_wf mask_wf r" "tm_serialized_size R (mask_map (ie_lower r)) < 2 ^ 31"
    "tm_serialized_size R (mask_map (ie_upper r)) < 2 ^ 31" "length (rb_serialize R frags) < 2 ^ 31" "exact_ok r"
    "bounds (mask_selected R) p r"
  shows "\<exists>batch r' f. serialize_three_variant R r frags = Inr batch \<and> ier_deserialize R batch = Inr (r', f) \<and>
    rb_bits R f = rb_bits R frags \<and> ie_exact r' = ie_exact r \<and> bounds (mask_selected R) p r'"
proof -
  define d :: u32 where "d = (if ie_exact r then 0 else if ier_is_at_most r then 1 else if ier_is_at_least r then 2 else 1)"
  define m where "m = (if d = 1 then ie_upper r else ie_lower r)"
  have pick: "(if ie_exact r then (ie_lower r, 0 :: u32) else if ier_is_at_most r then (ie_upper r, 1)
    else if ier_is_at_least r then (ie_lower r, 2) else (ie_upper r, 1)) = (m, d)"
    by (simp add: m_def d_def)
  obtain a m' where a: "mask_into_arrow R m = Inr a" "mask_from_arrow R a = Inr m'"
    "\<And>x. mask_selected R m' x = mask_selected R m x" "length a = 2"
    by (rule arrow_decoded[of m]) (use assms(1-3) in \<open>simp_all add: ie_wf_def m_def\<close>)
  obtain f where f: "rb_deserialize R (rb_serialize R frags) = Some f" "rb_bits R f = rb_bits R frags"
    using deserialize_serialize by blast
  define r' where "r' = (if d = 0 then ier_exact m' else if d = 1 then ier_at_most m' else ier_at_least m')"
  have "d = 0 \<or> d = 1 \<or> d = 2" by (simp add: d_def)
  then have "\<exists>batch. serialize_three_variant R r frags = Inr batch \<and> ier_deserialize R batch = Inr (r', f)"
    using a f assms(4) unfolding serialize_three_variant_def Let_def pick prod.case
    by (auto simp: append_value_def ier_deserialize_def batch_num_rows_def column_len_def
        deserialize_three_variant_def as_binary_def as_u32_def r'_def)
  moreover have "ie_exact r' = ie_exact r"
    by (simp add: r'_def d_def ier_exact_def ier_at_most_def ier_at_least_def)
  moreover have "bounds (mask_selected R) p r'"
    using assms(5,6) a(3) by (auto simp: r'_def d_def m_def bounds_def exact_ok_def ier_exact_def ier_at_most_def ier_at_least_def)
  ultimately show ?thesis using f(2) by blast
qed

end

subsection \<open>Properties\<close>

text \<open>
  C31. The interval algebra of index results is sound for SQL: when two intervals bound two
  predicates on every row, the combined intervals bound the negated, conjoined and disjoined
  predicate in three-valued logic, dropping NULLs bounds the rows of the WHERE answer, and a
  result marked exact has one mask as both endpoints, so its answer is precise.
\<close>

theorem index_result_algebra:
  assumes "roaring R" "ie_wf nmask_wf r" "ie_wf nmask_wf s" "bounds (nmask_value R) p r" "bounds (nmask_value R) q s"
    "exact_ok r" "exact_ok s"
  shows "bounds (nmask_value R) (\<lambda>x. kleene_not (p x)) (nier_not r) \<and>
    bounds (nmask_value R) (\<lambda>x. kleene_and (p x) (q x)) (nier_and R r s) \<and>
    bounds (nmask_value R) (\<lambda>x. kleene_or (p x) (q x)) (nier_or R r s) \<and>
    bounds (mask_selected R) (\<lambda>x. p x = KTrue) (nier_drop_nulls R r) \<and>
    exact_ok (nier_not r) \<and> exact_ok (nier_and R r s) \<and> exact_ok (nier_or R r s) \<and>
    (ie_exact r \<longrightarrow> (\<forall>x. mask_selected R (ie_lower (nier_drop_nulls R r)) x = (p x = KTrue)))"
proof -
  have "exact_ok (nier_drop_nulls R r)" using roaring.nier_exact_ok[OF assms(1,6,7)] by simp
  then have "ie_exact r \<longrightarrow> (\<forall>x. mask_selected R (ie_lower (nier_drop_nulls R r)) x = (p x = KTrue))"
    using roaring.nier_bounds(4)[OF assms(1-5)] by (auto simp: exact_ok_def bounds_def nier_drop_nulls_def)
  then show ?thesis using roaring.nier_bounds[OF assms(1-5)] roaring.nier_exact_ok[OF assms(1,6,7)] by blast
qed

theorem index_result_algebra_witness:
  "let R = set_roaring; m = AllowList \<lparr> ns_selected = [(0, Partial {1})], ns_nulls = [(0, Partial {2})] \<rparr>;
       r = nier_exact m; s = nier_at_most m; p = nmask_value R m; q = (\<lambda>_. KFalse) in
    bounds (nmask_value R) (\<lambda>x. kleene_not (p x)) (nier_not r) \<and>
    bounds (nmask_value R) (\<lambda>x. kleene_and (p x) (q x)) (nier_and R r s) \<and>
    bounds (nmask_value R) (\<lambda>x. kleene_or (p x) (q x)) (nier_or R r s) \<and>
    bounds (mask_selected R) (\<lambda>x. p x = KTrue) (nier_drop_nulls R r) \<and>
    exact_ok (nier_not r) \<and> exact_ok (nier_and R r s) \<and> exact_ok (nier_or R r s) \<and>
    (\<forall>x. mask_selected R (ie_lower (nier_drop_nulls R r)) x = (p x = KTrue))"
proof -
  define m :: "u32 set nullable_row_addr_mask" where
    "m = AllowList \<lparr> ns_selected = [(0, Partial {1})], ns_nulls = [(0, Partial {2})] \<rparr>"
  have "nmask_wf m" by (simp add: m_def nset_wf_def bt_wf_def)
  then have "ie_wf nmask_wf (nier_exact m)" "ie_wf nmask_wf (nier_at_most m)"
    "bounds (nmask_value set_roaring) (nmask_value set_roaring m) (nier_exact m)"
    "bounds (nmask_value set_roaring) (\<lambda>_. KFalse) (nier_at_most m)" "exact_ok (nier_exact m)" "exact_ok (nier_at_most m)"
    by (simp_all add: ie_wf_def nier_exact_def nier_at_most_def bounds_def exact_ok_def less_eq_kleene_def kleene_rank_def)
  from index_result_algebra[OF set_roaring.roaring_axioms this] show ?thesis
    unfolding Let_def m_def[symmetric] by (simp add: nier_exact_def)
qed

text \<open>
  C32. Index results survive their wire formats: the two-mask format gives back the same selected
  rows at both endpoints, the legacy format, which cannot hold both endpoints, still gives an
  interval that bounds the same answer, and both keep exactness and the covered fragments.
\<close>

theorem index_result_wire:
  assumes "roaring_serde R" "ie_wf mask_wf r" "exact_ok r" "bounds (mask_selected R) p r"
    "tm_serialized_size R (mask_map (ie_lower r)) < 2 ^ 31" "tm_serialized_size R (mask_map (ie_upper r)) < 2 ^ 31"
    "length (rb_serialize R frags) < 2 ^ 31"
  shows "\<exists>batch r' f. ier_serialize R r frags format = Inr batch \<and> ier_deserialize R batch = Inr (r', f) \<and>
    rb_eq R f frags \<and> ie_exact r' = ie_exact r \<and> bounds (mask_selected R) p r' \<and>
    (format = TwoMask \<longrightarrow> (\<forall>x. mask_selected R (ie_lower r') x = mask_selected R (ie_lower r) x \<and>
         mask_selected R (ie_upper r') x = mask_selected R (ie_upper r) x))"
proof (cases format)
  case ThreeVariant
  then show ?thesis
    using roaring_serde.three_variant_sound[OF assms(1,2,5,6,7,3,4)]
      roaring.eq_spec[OF roaring_serde.axioms(1)[OF assms(1)]] by (auto simp: ier_serialize_def)
next
  case TwoMask
  then show ?thesis
    using roaring_serde.two_mask_roundtrip[OF assms(1,2,5,6,7,3)] assms(4)
      roaring.eq_spec[OF roaring_serde.axioms(1)[OF assms(1)]] by (fastforce simp: ier_serialize_def bounds_def)
qed

theorem index_result_wire_witness:
  "let R = set_roaring; r = ier_new (AllowList [(1, Full)]) (AllowList [(1, Full), (2, Full)]); frags = {1, 2};
       p = mask_selected R (AllowList [(1, Full)]) in
    \<exists>batch r' f. ier_serialize R r frags ThreeVariant = Inr batch \<and> ier_deserialize R batch = Inr (r', f) \<and>
    rb_eq R f frags \<and> ie_exact r' = ie_exact r \<and> bounds (mask_selected R) p r'"
proof -
  define r :: "u32 set plain_index_expr_result" where "r = ier_new (AllowList [(1, Full)]) (AllowList [(1, Full), (2, Full)])"
  have "length (rb_serialize set_roaring {1, 2}) < 2 ^ 31"
    by (simp add: set_roaring_def set_serialize_def set_size_def del: upt_Suc upt_rec_numeral)
  moreover have "ie_wf mask_wf r" "exact_ok r" "bounds (mask_selected set_roaring) (mask_selected set_roaring (AllowList [(1, Full)])) r"
    "tm_serialized_size set_roaring (mask_map (ie_lower r)) < 2 ^ 31" "tm_serialized_size set_roaring (mask_map (ie_upper r)) < 2 ^ 31"
    by (simp_all add: r_def ie_wf_def ier_new_def bt_wf_def bounds_def exact_ok_def tm_serialized_size_def tm_rows_def frag_bits_def bt_get_def)
  ultimately show ?thesis
    unfolding Let_def r_def[symmetric] using index_result_wire[OF set_roaring.roaring_serde_axioms, of r _ "{1, 2}" ThreeVariant] by blast
qed

end
