(* ===== verification/Deletion_Vector.thy ===== *)
theory Deletion_Vector
  imports Roaring
begin

text \<open>
  Deletion vectors (\<open>lance-core/src/utils/deletion.rs\<close>): the deleted row offsets of a fragment as a
  small hash set or a bitmap. A \<open>HashSet\<close> is the list of its distinct elements in an arbitrary
  iteration order, on which no result below depends. Arrow's \<open>BooleanBufferBuilder\<close> is a parameter
  \<open>B\<close>, and the locale \<open>bool_buffer\<close> says what the code relies on. An iterator handed to \<open>extend\<close>
  comes with the size hint it reports. \<open>deleted\<close> is the set of offsets a vector stands for.
\<close>

subsection \<open>Arrow's Boolean buffer builder\<close>

record 'k bool_buffer_ops =
  bb_new :: "usize \<Rightarrow> 'k"
  bb_append_n :: "'k \<Rightarrow> usize \<Rightarrow> bool \<Rightarrow> 'k"
  bb_set_bit :: "'k \<Rightarrow> usize \<Rightarrow> bool \<Rightarrow> 'k res"
  bb_finish :: "'k \<Rightarrow> bool list"

locale bool_buffer =
  fixes B :: "('k, 'y) bool_buffer_ops_scheme"
  assumes finish_new: "bb_finish B (bb_new B capacity) = []"
    and finish_append_n: "bb_finish B (bb_append_n B k n v) = bb_finish B k @ replicate n v"
    and set_bit_inside: "i < length (bb_finish B k) \<Longrightarrow>
      \<exists>k'. bb_set_bit B k i v = Inr k' \<and> bb_finish B k' = (bb_finish B k)[i := v]"

definition list_bool_buffer :: "bool list bool_buffer_ops" where
  "list_bool_buffer = \<lparr> bb_new = (\<lambda>_. []), bb_append_n = (\<lambda>k n v. k @ replicate n v),
     bb_set_bit = (\<lambda>k i v. if i < length k then Inr (k[i := v]) else Inl Panic), bb_finish = id \<rparr>"

interpretation list_bool_buffer: bool_buffer list_bool_buffer
  by unfold_locales (simp_all add: list_bool_buffer_def)

subsection \<open>Deletion vectors\<close>

definition BITMAP_THRESDHOLD :: usize where
  "BITMAP_THRESDHOLD = 5000"

datatype 'b deletion_vector = NoDeletions | DvSet "u32 list" | DvBitmap 'b

definition dv_len :: "('b, 'z) roaring_ops_scheme \<Rightarrow> 'b deletion_vector \<Rightarrow> usize" where
  "dv_len R dv = (case dv of NoDeletions \<Rightarrow> 0 | DvSet hs \<Rightarrow> length hs | DvBitmap b \<Rightarrow> unat (rb_len R b))"

definition dv_is_empty :: "('b, 'z) roaring_ops_scheme \<Rightarrow> 'b deletion_vector \<Rightarrow> bool" where
  "dv_is_empty R dv \<longleftrightarrow> dv_len R dv = 0"

definition dv_contains :: "('b, 'z) roaring_ops_scheme \<Rightarrow> 'b deletion_vector \<Rightarrow> u32 \<Rightarrow> bool" where
  "dv_contains R dv i =
     (case dv of NoDeletions \<Rightarrow> False | DvSet hs \<Rightarrow> i \<in> set hs | DvBitmap b \<Rightarrow> rb_contains R b i)"

definition dv_contains_range :: "('b, 'z) roaring_ops_scheme \<Rightarrow> 'b deletion_vector \<Rightarrow> u32 range \<Rightarrow> bool" where
  "dv_contains_range R dv r =
     (case dv of
        NoDeletions \<Rightarrow> range_is_empty r
      | DvSet hs \<Rightarrow> list_all (\<lambda>i. i \<in> set hs) (range_vals r)
      | DvBitmap b \<Rightarrow> rb_contains_range R b r)"

definition dv_range_cardinality :: "('b, 'z) roaring_ops_scheme \<Rightarrow> 'b deletion_vector \<Rightarrow> u32 range \<Rightarrow> u64" where
  "dv_range_cardinality R dv r =
     (case dv of
        NoDeletions \<Rightarrow> 0
      | DvSet hs \<Rightarrow> word_of_nat (length (filter (range_contains r) hs))
      | DvBitmap b \<Rightarrow> rb_range_cardinality R b r)"

definition dv_iter :: "('b, 'z) roaring_ops_scheme \<Rightarrow> 'b deletion_vector \<Rightarrow> u32 list" where
  "dv_iter R dv = (case dv of NoDeletions \<Rightarrow> [] | DvSet hs \<Rightarrow> hs | DvBitmap b \<Rightarrow> rb_iter R b)"

definition dv_into_sorted_iter :: "('b, 'z) roaring_ops_scheme \<Rightarrow> 'b deletion_vector \<Rightarrow> u32 list" where
  "dv_into_sorted_iter R dv = (case dv of NoDeletions \<Rightarrow> [] | DvSet hs \<Rightarrow> sort hs | DvBitmap b \<Rightarrow> rb_iter R b)"

definition dv_to_sorted_iter :: "('b, 'z) roaring_ops_scheme \<Rightarrow> 'b deletion_vector \<Rightarrow> u32 list" where
  "dv_to_sorted_iter R dv =
     (case dv of NoDeletions \<Rightarrow> [] | DvSet _ \<Rightarrow> dv_into_sorted_iter R dv | DvBitmap b \<Rightarrow> rb_iter R b)"

definition dv_into_iter :: "('b, 'z) roaring_ops_scheme \<Rightarrow> 'b deletion_vector \<Rightarrow> u32 list" where
  "dv_into_iter R dv = (case dv of NoDeletions \<Rightarrow> [] | DvSet hs \<Rightarrow> sort hs | DvBitmap b \<Rightarrow> rb_iter R b)"

subsection \<open>Keep masks\<close>

record 'k keep_mask_builder =
  km_num_rows :: u32
  km_builder :: "'k option"

definition keep_mask_new :: "u32 \<Rightarrow> 'k keep_mask_builder" where
  "keep_mask_new num_rows = \<lparr> km_num_rows = num_rows, km_builder = None \<rparr>"

definition keep_mask_delete ::
    "('k, 'y) bool_buffer_ops_scheme \<Rightarrow> u32 \<Rightarrow> 'k keep_mask_builder \<Rightarrow> 'k keep_mask_builder res" where
  "keep_mask_delete B position km =
     (let num_rows = unat (km_num_rows km);
          builder = (case km_builder km of
              Some k \<Rightarrow> k
            | None \<Rightarrow> bb_append_n B (bb_new B num_rows) num_rows True)
      in bindr (bb_set_bit B builder (unat position) False) (\<lambda>k. Inr (km\<lparr>km_builder := Some k\<rparr>)))"

definition keep_mask_finish :: "('k, 'y) bool_buffer_ops_scheme \<Rightarrow> 'k keep_mask_builder \<Rightarrow> bool list option" where
  "keep_mask_finish B km = map_option (bb_finish B) (km_builder km)"

definition keep_range_deleted ::
    "('k, 'y) bool_buffer_ops_scheme \<Rightarrow> (u32 range \<Rightarrow> u32 list) \<Rightarrow> u32 range \<Rightarrow> 'k keep_mask_builder \<times> u32 \<Rightarrow>
     ('k keep_mask_builder \<times> u32) res" where
  "keep_range_deleted B deleted_in r = (\<lambda>(km, base).
     bindr (foldr_res (\<lambda>d. keep_mask_delete B (base + d - fst r)) (deleted_in r) km)
       (\<lambda>km'. Inr (km', base + (snd r - fst r))))"

definition keep_range_probe ::
    "('k, 'y) bool_buffer_ops_scheme \<Rightarrow> u32 list \<Rightarrow> u32 range \<Rightarrow> 'k keep_mask_builder \<times> u32 \<Rightarrow>
     ('k keep_mask_builder \<times> u32) res" where
  "keep_range_probe B hs r =
     foldr_res (\<lambda>off (km, position).
         bindr (if off \<in> set hs then keep_mask_delete B position km else Inr km) (\<lambda>km'. Inr (km', position + 1)))
       (range_vals r)"

definition build_keep_mask ::
    "('b, 'z) roaring_ops_scheme \<Rightarrow> ('k, 'y) bool_buffer_ops_scheme \<Rightarrow> 'b deletion_vector \<Rightarrow> u32 range list \<Rightarrow> u32 \<Rightarrow>
     bool list option res" where
  "build_keep_mask R B dv ranges num_rows =
     (let start = (keep_mask_new num_rows, 0 :: u32)
      in bindr
        (case dv of
           NoDeletions \<Rightarrow> Inr start
         | DvBitmap b \<Rightarrow> foldr_res (keep_range_deleted B (rb_range R b)) ranges start
         | DvSet hs \<Rightarrow>
             if min (length hs * length ranges) (2 ^ 64 - 1) \<le> unat num_rows
             then foldr_res (keep_range_deleted B (\<lambda>r. filter (range_contains r) hs)) ranges start
             else foldr_res (keep_range_probe B hs) ranges start)
        (\<lambda>(km, _). Inr (keep_mask_finish B km)))"

definition build_predicate :: "('b, 'z) roaring_ops_scheme \<Rightarrow> 'b deletion_vector \<Rightarrow> u64 list \<Rightarrow> bool list option" where
  "build_predicate R dv row_addrs =
     (case dv of
        DvBitmap b \<Rightarrow> Some (map (\<lambda>row. \<not> rb_contains R b (ucast row)) row_addrs)
      | DvSet hs \<Rightarrow> Some (map (\<lambda>row. \<not> (ucast row :: u32) \<in> set hs) row_addrs)
      | NoDeletions \<Rightarrow> None)"

subsection \<open>Mapping offsets\<close>

record 'b offset_mapper =
  om_dv :: "'b deletion_vector"
  om_left :: u32
  om_last_diff :: u32

definition offset_mapper_new :: "'b deletion_vector \<Rightarrow> 'b offset_mapper" where
  "offset_mapper_new dv = \<lparr> om_dv = dv, om_left = 0, om_last_diff = 0 \<rparr>"

partial_function (option) map_offset_loop ::
    "('b, 'z) roaring_ops_scheme \<Rightarrow> u32 \<Rightarrow> u32 \<Rightarrow> u32 \<Rightarrow> 'b offset_mapper \<Rightarrow> (u32 \<times> 'b offset_mapper) res option" where
  "map_offset_loop R off mid right om =
     (let deleted_in_range = (ucast (dv_range_cardinality R (om_dv om) (0, mid + 1)) :: u32);
          target = off + deleted_in_range
      in if mid = target \<and> \<not> dv_contains R (om_dv om) mid then Some (Inr (mid, om\<lparr>om_last_diff := mid - off\<rparr>))
         else if mid < target then
           if om_left om = mid + 1 then Some (Inl Panic)
           else map_offset_loop R off (mid + 1 + (right - (mid + 1)) div 2) right (om\<lparr>om_left := mid + 1\<rparr>)
         else map_offset_loop R off (om_left om + (mid - om_left om) div 2) mid om)"

definition map_offset ::
    "('b, 'z) roaring_ops_scheme \<Rightarrow> 'b offset_mapper \<Rightarrow> u32 \<Rightarrow> (u32 \<times> 'b offset_mapper) res option" where
  "map_offset R om off =
     map_offset_loop R off (off + om_last_diff om) (off + word_of_nat (dv_len R (om_dv om))) om"

subsection \<open>Conversions and updates\<close>

definition dv_into_bitmap :: "('b, 'z) roaring_ops_scheme \<Rightarrow> 'b deletion_vector \<Rightarrow> 'b" where
  "dv_into_bitmap R dv =
     (case dv of DvBitmap b \<Rightarrow> b | DvSet hs \<Rightarrow> rb_extend R (rb_new R) hs | NoDeletions \<Rightarrow> rb_new R)"

definition dv_eq :: "('b, 'z) roaring_ops_scheme \<Rightarrow> 'b deletion_vector \<Rightarrow> 'b deletion_vector \<Rightarrow> bool" where
  "dv_eq R dv dv' =
     (case (dv, dv') of
        (NoDeletions, NoDeletions) \<Rightarrow> True
      | (DvSet hs, DvSet hs') \<Rightarrow> set hs = set hs'
      | (DvBitmap b, DvBitmap b') \<Rightarrow> rb_eq R b b'
      | (DvSet hs, DvBitmap b) \<Rightarrow> rb_eq R (rb_extend R (rb_new R) hs) b
      | (DvBitmap b, DvSet hs) \<Rightarrow> rb_eq R (rb_extend R (rb_new R) hs) b
      | _ \<Rightarrow> False)"

definition hash_set_extend :: "u32 list \<Rightarrow> u32 list \<Rightarrow> u32 list" where
  "hash_set_extend hs items = foldl (\<lambda>acc x. if x \<in> set acc then acc else acc @ [x]) hs items"

definition promote_set :: "('b, 'z) roaring_ops_scheme \<Rightarrow> u32 list \<Rightarrow> 'b deletion_vector" where
  "promote_set R hs =
     (if length hs > BITMAP_THRESDHOLD then DvBitmap (rb_extend R (rb_new R) hs) else DvSet hs)"

definition dv_extend ::
    "('b, 'z) roaring_ops_scheme \<Rightarrow> usize \<times> usize option \<Rightarrow> 'b deletion_vector \<Rightarrow> u32 list \<Rightarrow> 'b deletion_vector" where
  "dv_extend R size_hint dv items =
     (case dv of
        NoDeletions \<Rightarrow>
          if snd size_hint = Some 0 then NoDeletions
          else if fst size_hint \<ge> BITMAP_THRESDHOLD then DvBitmap (rb_extend R (rb_new R) items)
          else (case snd size_hint of
                  Some upper \<Rightarrow>
                    if upper < BITMAP_THRESDHOLD then DvSet (hash_set_extend [] items)
                    else promote_set R (hash_set_extend [] items)
                | None \<Rightarrow> promote_set R (hash_set_extend [] items))
      | DvSet hs \<Rightarrow> promote_set R (hash_set_extend hs items)
      | DvBitmap b \<Rightarrow> DvBitmap (rb_extend R b items))"

definition dv_from_iter ::
    "('b, 'z) roaring_ops_scheme \<Rightarrow> usize \<times> usize option \<Rightarrow> u32 list \<Rightarrow> 'b deletion_vector" where
  "dv_from_iter R size_hint items = dv_extend R size_hint NoDeletions items"

definition dv_from_bitmap :: "('b, 'z) roaring_ops_scheme \<Rightarrow> 'b \<Rightarrow> 'b deletion_vector" where
  "dv_from_bitmap R b = (if rb_is_empty R b then NoDeletions else DvBitmap b)"

subsection \<open>Deleted offsets\<close>

definition deleted :: "('b, 'z) roaring_ops_scheme \<Rightarrow> 'b deletion_vector \<Rightarrow> u32 set" where
  "deleted R dv = (case dv of NoDeletions \<Rightarrow> {} | DvSet hs \<Rightarrow> set hs | DvBitmap b \<Rightarrow> rb_bits R b)"

definition dv_wf :: "'b deletion_vector \<Rightarrow> bool" where
  "dv_wf dv \<longleftrightarrow> (case dv of DvSet hs \<Rightarrow> distinct hs \<and> length hs \<le> BITMAP_THRESDHOLD | _ \<Rightarrow> True)"

definition size_hint_ok :: "usize \<times> usize option \<Rightarrow> 'a list \<Rightarrow> bool" where
  "size_hint_ok hint items \<longleftrightarrow>
     fst hint \<le> length items \<and> (case snd hint of None \<Rightarrow> True | Some upper \<Rightarrow> length items \<le> upper)"

lemma hash_set_extend_Cons:
  "hash_set_extend hs (x # xs) = hash_set_extend (if x \<in> set hs then hs else hs @ [x]) xs"
  by (simp add: hash_set_extend_def)

lemma hash_set_extend_props:
  "set (hash_set_extend hs xs) = set hs \<union> set xs"
  "distinct hs \<Longrightarrow> distinct (hash_set_extend hs xs)"
  "length (hash_set_extend hs xs) \<le> length hs + length xs"
proof (induction xs arbitrary: hs)
  case Nil
  { case 1 show ?case by (simp add: hash_set_extend_def) }
  { case 2 then show ?case by (simp add: hash_set_extend_def) }
  { case 3 show ?case by (simp add: hash_set_extend_def) }
next
  case (Cons x xs)
  { case 1 show ?case by (auto simp: hash_set_extend_Cons Cons.IH(1)) }
  { case 2 then show ?case by (simp add: hash_set_extend_Cons Cons.IH(2)) }
  { case 3 show ?case using Cons.IH(3)[of "if x \<in> set hs then hs else hs @ [x]"]
      by (simp add: hash_set_extend_Cons split: if_splits) }
qed

context roaring
begin

lemma dv_readers:
  assumes "dv_wf dv"
  shows "dv_len R dv = card (deleted R dv)" "dv_contains R dv i \<longleftrightarrow> i \<in> deleted R dv"
    "dv_contains_range R dv r \<longleftrightarrow> {fst r..<snd r} \<subseteq> deleted R dv"
    "dv_range_cardinality R dv r = word_of_nat (card (deleted R dv \<inter> {fst r..<snd r}))"
    "set (dv_iter R dv) = deleted R dv" "dv_into_sorted_iter R dv = sorted_list_of_set (deleted R dv)"
    "dv_to_sorted_iter R dv = sorted_list_of_set (deleted R dv)"
    "dv_into_iter R dv = sorted_list_of_set (deleted R dv)"
proof -
  have inter: "set (filter (range_contains r) hs) = set hs \<inter> {fst r..<snd r}" for hs
    by (auto simp: range_contains_def)
  have card: "length (filter (range_contains r) hs) = card (set hs \<inter> {fst r..<snd r})" if "distinct hs" for hs
    using that distinct_card[of "filter (range_contains r) hs"] unfolding inter by simp
  show "dv_len R dv = card (deleted R dv)" "dv_contains R dv i \<longleftrightarrow> i \<in> deleted R dv"
    "dv_contains_range R dv r \<longleftrightarrow> {fst r..<snd r} \<subseteq> deleted R dv"
    "dv_range_cardinality R dv r = word_of_nat (card (deleted R dv \<inter> {fst r..<snd r}))"
    "set (dv_iter R dv) = deleted R dv" "dv_into_sorted_iter R dv = sorted_list_of_set (deleted R dv)"
    "dv_to_sorted_iter R dv = sorted_list_of_set (deleted R dv)"
    "dv_into_iter R dv = sorted_list_of_set (deleted R dv)"
    using assms
    by (auto split: deletion_vector.splits simp: dv_len_def dv_contains_def dv_contains_range_def range_is_empty_def
      dv_range_cardinality_def dv_iter_def dv_into_sorted_iter_def dv_to_sorted_iter_def dv_into_iter_def deleted_def
      dv_wf_def distinct_card len_spec card range_cardinality_spec iter_eq sorted_list_of_set_sort_remdups
      distinct_remdups_id list_all_iff)
qed

lemma promote_set_props:
  "distinct hs \<Longrightarrow> dv_wf (promote_set R hs)" "deleted R (promote_set R hs) = set hs"
  by (simp_all add: promote_set_def dv_wf_def deleted_def)

lemma dv_extend_props:
  assumes "dv_wf dv" "size_hint_ok hint items"
  shows "dv_wf (dv_extend R hint dv items) \<and> deleted R (dv_extend R hint dv items) = deleted R dv \<union> set items"
proof (cases dv)
  case NoDeletions
  show ?thesis
  proof (cases "snd hint")
    case None
    then show ?thesis using NoDeletions
      by (auto simp: dv_extend_def promote_set_props hash_set_extend_props)
        (auto simp: dv_wf_def deleted_def)
  next
    case (Some upper)
    then have up: "length items \<le> upper" using assms(2) by (simp add: size_hint_ok_def)
    have short: "length (hash_set_extend [] items) \<le> length items" using hash_set_extend_props(3)[of "[]"] by simp
    have "dv_wf (DvSet (hash_set_extend [] items))" if "upper < BITMAP_THRESDHOLD"
      using that up short by (simp add: dv_wf_def hash_set_extend_props)
    then show ?thesis using NoDeletions Some up
      by (auto simp: dv_extend_def promote_set_props hash_set_extend_props)
        (auto simp: dv_wf_def deleted_def hash_set_extend_props)
  qed
next
  case (DvSet hs)
  then have "distinct (hash_set_extend hs items)" using assms(1) by (simp add: dv_wf_def hash_set_extend_props)
  then show ?thesis using DvSet
    by (simp add: dv_extend_def promote_set_props hash_set_extend_props) (simp add: deleted_def)
next
  case (DvBitmap b)
  then show ?thesis by (simp add: dv_extend_def dv_wf_def deleted_def)
qed

lemma dv_eq_iff:
  "dv_eq R dv dv' \<longleftrightarrow> deleted R dv = deleted R dv' \<and> (dv = NoDeletions \<longleftrightarrow> dv' = NoDeletions)"
  by (auto simp: dv_eq_def deleted_def split: deletion_vector.splits)

end


subsection \<open>Keep masks\<close>

lemma len_u32: "LENGTH(32) = 32"
  by simp

definition del_positions :: "'a set \<Rightarrow> 'a list \<Rightarrow> nat set" where
  "del_positions D xs = {i. i < length xs \<and> xs ! i \<in> D}"

lemma del_positions_Nil [simp]: "del_positions D [] = {}"
  by (simp add: del_positions_def)

lemma del_positions_append:
  "del_positions D (xs @ ys) = del_positions D xs \<union> (+) (length xs) ` del_positions D ys"
proof (rule set_eqI)
  fix i
  show "i \<in> del_positions D (xs @ ys) \<longleftrightarrow> i \<in> del_positions D xs \<union> (+) (length xs) ` del_positions D ys"
  proof (cases "i < length xs")
    case False
    then obtain j where "i = length xs + j" using le_Suc_ex by (metis not_less)
    then show ?thesis by (auto simp: del_positions_def)
  qed (auto simp: del_positions_def nth_append)
qed

lemma del_positions_Cons:
  "del_positions D (x # xs) = (if x \<in> D then {0} else {}) \<union> Suc ` del_positions D xs"
  using del_positions_append[of D "[x]" xs] by (auto simp: del_positions_def)

lemma del_positions_range:
  "del_positions D (range_vals r) = (\<lambda>d. unat d - unat (fst r)) ` (D \<inter> {fst r..<snd r})"
proof (intro set_eqI iffI)
  fix i assume "i \<in> del_positions D (range_vals r)"
  then have i: "i < unat (snd r) - unat (fst r)" "range_vals r ! i \<in> D" by (simp_all add: del_positions_def)
  moreover have "range_vals r ! i \<in> {fst r..<snd r}" using i(1) nth_mem[of i "range_vals r"] by simp
  ultimately show "i \<in> (\<lambda>d. unat d - unat (fst r)) ` (D \<inter> {fst r..<snd r})"
    using unat_nth_range_vals[OF i(1)] by (auto intro!: image_eqI[of _ _ "range_vals r ! i"])
next
  fix i assume "i \<in> (\<lambda>d. unat d - unat (fst r)) ` (D \<inter> {fst r..<snd r})"
  then obtain d where d: "d \<in> D" "fst r \<le> d" "d < snd r" "i = unat d - unat (fst r)" by auto
  then have "i < unat (snd r) - unat (fst r)" by (simp add: word_less_nat_alt word_le_nat_alt)
  moreover from this have "range_vals r ! i = d"
    using d(2) by (simp add: word_unat_eq_iff unat_nth_range_vals d(4) word_le_nat_alt)
  ultimately show "i \<in> del_positions D (range_vals r)" using d(1) by (simp add: del_positions_def)
qed

definition keep_bits :: "nat \<Rightarrow> nat set \<Rightarrow> bool list option" where
  "keep_bits n P = (if P = {} then None else Some (map (\<lambda>i. i \<notin> P) [0..<n]))"

definition km_holds :: "('k, 'y) bool_buffer_ops_scheme \<Rightarrow> nat \<Rightarrow> nat set \<Rightarrow> 'k keep_mask_builder \<Rightarrow> bool" where
  "km_holds B n P km \<longleftrightarrow> unat (km_num_rows km) = n \<and> keep_mask_finish B km = keep_bits n P"

definition keep_step_ok ::
    "('k, 'y) bool_buffer_ops_scheme \<Rightarrow> u32 set \<Rightarrow> nat \<Rightarrow> (u32 range \<Rightarrow> 'k keep_mask_builder \<times> u32 \<Rightarrow> ('k keep_mask_builder \<times> u32) res) \<Rightarrow> bool" where
  "keep_step_ok B D n f \<longleftrightarrow> (\<forall>r km base P. fst r \<le> snd r \<longrightarrow> km_holds B n P km \<longrightarrow>
     unat base + length (range_vals r) \<le> n \<longrightarrow>
     (\<exists>km'. f r (km, base) = Inr (km', base + word_of_nat (length (range_vals r))) \<and>
        km_holds B n (P \<union> (+) (unat base) ` del_positions D (range_vals r)) km'))"

context bool_buffer
begin

lemma km_holds_new: "km_holds B (unat n) {} (keep_mask_new n)"
  by (simp add: km_holds_def keep_mask_new_def keep_mask_finish_def keep_bits_def)

lemma keep_mask_delete_holds:
  assumes "km_holds B n P km" "unat position < n"
  shows "\<exists>km'. keep_mask_delete B position km = Inr km' \<and> km_holds B n (insert (unat position) P) km'"
proof -
  define k where "k = (case km_builder km of Some k \<Rightarrow> k | None \<Rightarrow> bb_append_n B (bb_new B n) n True)"
  have fin: "bb_finish B k = map (\<lambda>i. i \<notin> P) [0..<n]"
    using assms(1) by (auto simp: k_def km_holds_def keep_mask_finish_def keep_bits_def finish_new finish_append_n
        map_replicate_trivial split: option.splits if_splits)
  then obtain k' where k': "bb_set_bit B k (unat position) False = Inr k'"
    "bb_finish B k' = (map (\<lambda>i. i \<notin> P) [0..<n])[unat position := False]"
    using set_bit_inside[of "unat position" k False] assms(2) by auto
  have "bb_finish B k' = map (\<lambda>i. i \<notin> insert (unat position) P) [0..<n]"
    unfolding k'(2) using assms(2) by (intro nth_equalityI) (auto simp: nth_list_update)
  moreover have "keep_mask_delete B position km = Inr (km\<lparr>km_builder := Some k'\<rparr>)"
    using assms(1) k'(1) by (simp add: keep_mask_delete_def Let_def k_def km_holds_def)
  ultimately show ?thesis using assms(1)
    by (simp add: km_holds_def keep_mask_finish_def keep_bits_def)
qed

lemma keep_mask_delete_all:
  assumes "km_holds B n P km" "\<And>d. d \<in> set ds \<Longrightarrow> unat (pos d) < n"
  shows "\<exists>km'. foldr_res (\<lambda>d. keep_mask_delete B (pos d)) ds km = Inr km' \<and>
    km_holds B n (P \<union> (\<lambda>d. unat (pos d)) ` set ds) km'"
  using assms
proof (induction ds arbitrary: km P)
  case (Cons d ds)
  from keep_mask_delete_holds[OF Cons.prems(1), of "pos d"] Cons.prems(2) obtain km1 where
    km1: "keep_mask_delete B (pos d) km = Inr km1" "km_holds B n (insert (unat (pos d)) P) km1" by auto
  from Cons.IH[OF km1(2)] Cons.prems(2) show ?case by (simp add: km1(1) insert_commute Un_insert_left)
qed auto

lemma keep_range_deleted_ok:
  assumes "\<And>r. set (del r) = D \<inter> {fst r..<snd r}" "n < 2 ^ 32"
  shows "keep_step_ok B D n (keep_range_deleted B del)"
  unfolding keep_step_ok_def
proof (intro allI impI)
  fix r :: "u32 range" and km P and base :: u32
  assume r: "fst r \<le> snd r" and km: "km_holds B n P km" and fits: "unat base + length (range_vals r) \<le> n"
  have pos: "unat (base + d - fst r) = unat base + (unat d - unat (fst r))" if "d \<in> set (del r)" for d
  proof -
    have d: "fst r \<le> d" "d < snd r" using that assms(1) by auto
    then have "unat base + (unat d - unat (fst r)) < 2 ^ 32"
      using fits assms(2) by (simp add: word_less_nat_alt word_le_nat_alt)
    moreover have "base + d - fst r = base + word_of_nat (unat d - unat (fst r))"
      using d(1) by (simp add: of_nat_diff word_le_nat_alt)
    ultimately show ?thesis using unat_add_of_nat[of base "unat d - unat (fst r)"] by (simp only: len_u32)
  qed
  have "unat (base + d - fst r) < n" if "d \<in> set (del r)" for d
    using that fits assms(1) pos[OF that] by (auto simp: word_less_nat_alt word_le_nat_alt)
  from keep_mask_delete_all[where pos = "\<lambda>d. base + d - fst r", OF km this] obtain km' where
    km': "foldr_res (\<lambda>d. keep_mask_delete B (base + d - fst r)) (del r) km = Inr km'"
      "km_holds B n (P \<union> (\<lambda>d. unat (base + d - fst r)) ` set (del r)) km'" by blast
  have "(\<lambda>d. unat (base + d - fst r)) ` set (del r) = (+) (unat base) ` del_positions D (range_vals r)"
    unfolding del_positions_range assms(1)[symmetric] image_image by (rule image_cong[OF refl pos])
  moreover have "snd r - fst r = word_of_nat (length (range_vals r))"
    using r by (simp add: of_nat_diff word_le_nat_alt)
  ultimately show "\<exists>km'. keep_range_deleted B del r (km, base) = Inr (km', base + word_of_nat (length (range_vals r))) \<and>
      km_holds B n (P \<union> (+) (unat base) ` del_positions D (range_vals r)) km'"
    using km' by (simp add: keep_range_deleted_def)
qed

lemma keep_probe_loop:
  assumes "km_holds B n P km" "unat position + length xs \<le> n" "n < 2 ^ 32"
  shows "\<exists>km'. foldr_res (\<lambda>off (km, position).
         bindr (if off \<in> set hs then keep_mask_delete B position km else Inr km) (\<lambda>km'. Inr (km', position + 1))) xs (km, position) =
      Inr (km', position + word_of_nat (length xs)) \<and> km_holds B n (P \<union> (+) (unat position) ` del_positions (set hs) xs) km'"
  using assms(1,2)
proof (induction xs arbitrary: km P position)
  case (Cons x xs)
  have next_pos: "unat (position + 1) = unat position + 1"
    using Cons.prems(2) assms(3) unat_add_of_nat[of position 1] by simp
  obtain km1 where km1: "(if x \<in> set hs then keep_mask_delete B position km else Inr km) = Inr km1"
    "km_holds B n (P \<union> (if x \<in> set hs then {unat position} else {})) km1"
    using keep_mask_delete_holds[OF Cons.prems(1), of position] Cons.prems by (cases "x \<in> set hs") auto
  have "(P \<union> (if x \<in> set hs then {unat position} else {})) \<union> (+) (unat (position + 1)) ` del_positions (set hs) xs =
      P \<union> (+) (unat position) ` del_positions (set hs) (x # xs)"
    by (auto simp: del_positions_Cons next_pos image_Un image_image)
  with Cons.IH[OF km1(2), of "position + 1"] Cons.prems(2) show ?case
    unfolding foldr_res.simps prod.case km1(1) bindr_simps by (simp add: next_pos add.assoc)
qed auto

lemma keep_range_probe_ok: "n < 2 ^ 32 \<Longrightarrow> keep_step_ok B (set hs) n (keep_range_probe B hs)"
  unfolding keep_step_ok_def keep_range_probe_def
  using keep_probe_loop by blast

lemma keep_ranges:
  assumes "keep_step_ok B D n f" "km_holds B n P km" "\<And>r. r \<in> set ranges \<Longrightarrow> fst r \<le> snd r"
    "unat base + length (concat (map range_vals ranges)) \<le> n" "n < 2 ^ 32"
  shows "\<exists>km' base'. foldr_res f ranges (km, base) = Inr (km', base') \<and>
    km_holds B n (P \<union> (+) (unat base) ` del_positions D (concat (map range_vals ranges))) km'"
  using assms(2-4)
proof (induction ranges arbitrary: km P base)
  case (Cons r ranges)
  let ?l = "length (range_vals r)"
  have fits: "unat base + ?l \<le> n" "unat base + ?l < 2 ^ 32" using Cons.prems(3) assms(5) by simp_all
  have base: "unat (base + word_of_nat ?l) = unat base + ?l" using fits(2) unat_add_of_nat[of base ?l] by simp
  obtain km1 where km1: "f r (km, base) = Inr (km1, base + word_of_nat ?l)"
    "km_holds B n (P \<union> (+) (unat base) ` del_positions D (range_vals r)) km1"
    using assms(1) Cons.prems(1,2) fits(1) unfolding keep_step_ok_def by (metis list.set_intros(1))
  have "P \<union> (+) (unat base) ` del_positions D (range_vals r) \<union>
      (+) (unat (base + word_of_nat ?l)) ` del_positions D (concat (map range_vals ranges)) =
    P \<union> (+) (unat base) ` del_positions D (concat (map range_vals (r # ranges)))"
    unfolding base by (auto simp: del_positions_append image_Un image_image add.assoc)
  moreover have "unat (base + word_of_nat ?l) + length (concat (map range_vals ranges)) \<le> n"
    using Cons.prems(3) unfolding base by simp
  ultimately show ?case using Cons.IH[OF km1(2), of "base + word_of_nat ?l"] Cons.prems(2)
    unfolding foldr_res.simps km1(1) bindr_simps by (metis list.set_intros(2))
qed auto

end

lemma keep_bits_eq:
  "keep_bits (length xs) (del_positions D xs) = (if set xs \<inter> D = {} then None else Some (map (\<lambda>x. x \<notin> D) xs))"
proof -
  have "del_positions D xs = {} \<longleftrightarrow> set xs \<inter> D = {}" by (force simp: del_positions_def in_set_conv_nth disjoint_iff)
  moreover have "map (\<lambda>i. i \<notin> del_positions D xs) [0..<length xs] = map (\<lambda>x. x \<notin> D) xs"
    by (rule nth_equalityI) (simp_all add: del_positions_def)
  ultimately show ?thesis by (simp add: keep_bits_def)
qed

lemma build_keep_mask_eq:
  assumes R: "roaring R" and B: "bool_buffer B" and wf: "dv_wf dv"
    and ranges: "\<And>r. r \<in> set ranges \<Longrightarrow> fst r \<le> snd r"
    and total: "length (concat (map range_vals ranges)) = unat num_rows"
  shows "build_keep_mask R B dv ranges num_rows =
    Inr (keep_bits (unat num_rows) (del_positions (deleted R dv) (concat (map range_vals ranges))))"
proof -
  have n: "unat num_rows < 2 ^ 32" by (rule unat_u32_bound)
  have fold: "\<exists>km base. foldr_res f ranges (keep_mask_new num_rows, 0) = Inr (km, base) \<and>
      keep_mask_finish B km = keep_bits (unat num_rows) (del_positions D (concat (map range_vals ranges)))"
    if "keep_step_ok B D (unat num_rows) f" for f D
    using bool_buffer.keep_ranges[OF B that bool_buffer.km_holds_new[OF B] ranges, of ranges 0] total n
    by (auto simp: km_holds_def)
  show ?thesis
  proof (cases dv)
    case NoDeletions
    then show ?thesis
      by (simp add: build_keep_mask_def deleted_def del_positions_def keep_bits_def keep_mask_finish_def keep_mask_new_def)
  next
    case (DvBitmap b)
    have "set (rb_range R b r) = rb_bits R b \<inter> {fst r..<snd r}" for r
      by (auto simp: roaring.range_spec[OF R] roaring.set_iter[OF R] range_contains_def)
    from fold[OF bool_buffer.keep_range_deleted_ok[OF B this n]] show ?thesis
      by (auto simp: build_keep_mask_def deleted_def DvBitmap)
  next
    case (DvSet hs)
    have "set (filter (range_contains r) hs) = set hs \<inter> {fst r..<snd r}" for r by (auto simp: range_contains_def)
    from fold[OF bool_buffer.keep_range_deleted_ok[OF B this n]] fold[OF bool_buffer.keep_range_probe_ok[OF B n, of hs]]
    show ?thesis unfolding DvSet
      by (elim exE conjE, cases "min (length hs * length ranges) (2 ^ 64 - 1) \<le> unat num_rows")
        (simp_all only: build_keep_mask_def Let_def deletion_vector.case if_True if_False bindr_simps prod.case deleted_def)
  qed
qed

subsection \<open>Mapping offsets past deleted rows\<close>

definition live_rows :: "u32 set \<Rightarrow> u32 \<Rightarrow> u32 list" where
  "live_rows D num_rows = filter (\<lambda>x. x \<notin> D) (range_vals (0, num_rows))"

fun map_offsets ::
    "('b, 'z) roaring_ops_scheme \<Rightarrow> 'b offset_mapper \<Rightarrow> u32 list \<Rightarrow> u32 list res option" where
  "map_offsets R om [] = Some (Inr [])"
| "map_offsets R om (off # offs) =
     (case map_offset R om off of
        None \<Rightarrow> None
      | Some (Inl e) \<Rightarrow> Some (Inl e)
      | Some (Inr (row, om')) \<Rightarrow> map_option (map_sum id ((#) row)) (map_offsets R om' offs))"

lemma sorted_live_rows: "sorted_wrt (<) (live_rows D n)"
  unfolding live_rows_def by (rule sorted_wrt_filter[OF sorted_range_vals])

lemma set_live_rows: "set (live_rows D n) = {..<n} - D"
  by (auto simp: live_rows_def)

lemma card_below: "card {..<x :: u32} = unat x" "card {..x} = unat x + 1"
proof -
  have "{..<y :: u32} = set (range_vals (0, y))" for y by auto
  then show *: "card {..<x} = unat x" by (simp only: distinct_card[OF distinct_range_vals] length_range_vals) simp
  have "{..x} = insert x {..<x}" by auto
  then show "card {..x} = unat x + 1" by (simp add: *)
qed

lemma card_live_below:
  "card ({..x :: u32} - D) + card (D \<inter> {..x}) = unat x + 1"
proof -
  have "{..x} - D = {..x} - D \<inter> {..x}" by blast
  then have "card ({..x} - D) = card {..x} - card (D \<inter> {..x})" by (simp add: card_Diff_subset)
  moreover have "card (D \<inter> {..x}) \<le> card {..x}" by (rule card_mono) auto
  ultimately show ?thesis by (simp add: card_below)
qed

lemma live_rows_nth:
  assumes "k < length (live_rows D n)"
  defines "t \<equiv> live_rows D n ! k"
  shows "t < n" "t \<notin> D" "card ({..<t} - D) = k" "unat t = k + card (D \<inter> {..t})"
proof -
  have "t \<in> set (live_rows D n)" unfolding t_def using assms(1) by (rule nth_mem)
  then show t: "t < n" "t \<notin> D" by (auto simp: set_live_rows)
  have "set (filter (\<lambda>x. x < t) (live_rows D n)) = {..<t} - D" using t by (auto simp: set_live_rows)
  then have "card ({..<t} - D) = length (filter (\<lambda>x. x < t) (live_rows D n))"
    by (metis distinct_card distinct_filter sorted_live_rows strict_sorted_distinct)
  then show k: "card ({..<t} - D) = k"
    unfolding t_def by (simp add: strict_sorted_nth_filter[OF sorted_live_rows assms(1)])
  have "{..t} - D = insert t ({..<t} - D)" using t by auto
  then have "card ({..t} - D) = k + 1" using k by simp
  then show "unat t = k + card (D \<inter> {..t})" using card_live_below[of t D] by linarith
qed

lemma live_rows_compare:
  assumes "k < length (live_rows D n)"
  defines "t \<equiv> live_rows D n ! k"
  shows "x < t \<Longrightarrow> unat x < k + card (D \<inter> {..x})"
    and "t < x \<Longrightarrow> k + card (D \<inter> {..x}) < unat x \<or> unat x = k + card (D \<inter> {..x}) \<and> x \<in> D"
proof -
  note t = live_rows_nth[OF assms(1), folded t_def]
  note x = card_live_below[of x D]
  show "unat x < k + card (D \<inter> {..x})" if "x < t"
  proof -
    have "{..x} - D \<subseteq> {..<t} - D" using that by auto
    then have "card ({..x} - D) \<le> k" using t(3) card_mono[of "{..<t} - D"] by simp
    with x show ?thesis by linarith
  qed
  show "k + card (D \<inter> {..x}) < unat x \<or> unat x = k + card (D \<inter> {..x}) \<and> x \<in> D" if "t < x"
  proof -
    have "insert t ({..<t} - D) \<subseteq> {..x} - D" using that t(2) by auto
    from card_mono[OF _ this] have ge: "k + 1 \<le> card ({..x} - D)" by (simp add: t(3))
    have "k + 2 \<le> card ({..x} - D)" if "x \<notin> D"
    proof -
      have "insert x (insert t ({..<t} - D)) \<subseteq> {..x} - D" using \<open>t < x\<close> t(2) that by auto
      from card_mono[OF _ this] have "card (insert x (insert t ({..<t} - D))) \<le> card ({..x} - D)" by simp
      moreover have "x \<notin> insert t ({..<t} - D)" using \<open>t < x\<close> by auto
      ultimately show ?thesis by (simp add: t(3))
    qed
    with ge x show ?thesis by fastforce
  qed
qed

lemma word_unat_inverse: "word_of_nat (unat x) = x"
  by simp

lemma unat_add_small: "unat a + unat b < 2 ^ 32 \<Longrightarrow> unat (a + b :: u32) = unat a + unat b"
  by (simp add: unat_word_ariths)

lemma unat_midpoint: "(a :: u32) \<le> b \<Longrightarrow> unat (a + (b - a) div 2) = unat a + (unat b - unat a) div 2"
proof -
  assume le: "a \<le> b"
  have half: "unat ((b - a) div 2) = (unat b - unat a) div 2"
    using le by (simp add: unat_div unat_sub word_le_nat_alt)
  have "unat a + (unat b - unat a) div 2 < 2 ^ 32"
    using le unat_u32_bound[of b] by (simp add: word_le_nat_alt)
  moreover have "a + (b - a) div 2 = a + word_of_nat ((unat b - unat a) div 2)"
    by (simp only: half[symmetric] word_unat_inverse)
  ultimately show ?thesis using unat_add_of_nat[of a "(unat b - unat a) div 2"] by (simp only: len_u32)
qed

lemma live_rows_mono:
  assumes "i \<le> j" "j < length (live_rows D n)"
  shows "live_rows D n ! i \<le> live_rows D n ! j"
  using assms sorted_live_rows[of D n] by (metis le_eq_less_or_eq sorted_wrt_nth_less order_less_imp_le order_refl)

definition mapper_ready :: "('b, 'z) roaring_ops_scheme \<Rightarrow> u32 \<Rightarrow> u32 \<Rightarrow> 'b offset_mapper \<Rightarrow> bool" where
  "mapper_ready R n k om \<longleftrightarrow>
     (let D = deleted R (om_dv om); t = live_rows D n ! unat k
      in unat (om_left om) \<le> unat k + unat (om_last_diff om) \<and> unat (om_last_diff om) \<le> card (D \<inter> {..t}))"

lemma mapper_ready_mono:
  assumes "mapper_ready R n k om" "k \<le> k'" "unat k' < length (live_rows (deleted R (om_dv om)) n)"
  shows "mapper_ready R n k' om"
proof -
  let ?D = "deleted R (om_dv om)"
  have "live_rows ?D n ! unat k \<le> live_rows ?D n ! unat k'"
    using assms(2,3) by (intro live_rows_mono) (simp_all add: word_le_nat_alt)
  then have "card (?D \<inter> {..live_rows ?D n ! unat k}) \<le> card (?D \<inter> {..live_rows ?D n ! unat k'})"
    by (intro card_mono) auto
  then show ?thesis using assms(1,2) by (auto simp: mapper_ready_def Let_def word_le_nat_alt)
qed

context roaring
begin

lemma map_offset_compare:
  fixes k :: u32
  assumes "dv_wf dv" "deleted R dv \<subseteq> {..<n}" "x < n" "unat k + card (deleted R dv) < unat n"
  shows "unat (k + ucast (dv_range_cardinality R dv (0, x + 1))) = unat k + card (deleted R dv \<inter> {..x})"
proof -
  have "{0..<x + 1} = {..x}"
    using unat_add_1[OF assms(3)] by (auto simp: word_less_nat_alt word_le_nat_alt)
  then have card: "dv_range_cardinality R dv (0, x + 1) = word_of_nat (card (deleted R dv \<inter> {..x}))"
    by (simp add: dv_readers(4)[OF assms(1)])
  have "card (deleted R dv \<inter> {..x}) \<le> card (deleted R dv)" by (rule card_mono) auto
  then have small: "unat k + card (deleted R dv \<inter> {..x}) < 2 ^ 32" using assms(4) unat_u32_bound[of n] by linarith
  then have "unat (ucast (word_of_nat (card (deleted R dv \<inter> {..x})) :: u64) :: u32) = card (deleted R dv \<inter> {..x})"
    by (simp add: unat_ucast_small)
  then show ?thesis unfolding card using small by (simp add: unat_word_ariths)
qed

lemma map_offset_loop_finds:
  assumes wf: "dv_wf (om_dv om)" and D: "deleted R (om_dv om) \<subseteq> {..<n}"
    and k: "unat k < length (live_rows (deleted R (om_dv om)) n)"
    and t: "t = live_rows (deleted R (om_dv om)) n ! unat k"
    and fits: "unat k + card (deleted R (om_dv om)) < unat n"
    and "om_left om \<le> t" "t \<le> right" "om_left om \<le> mid" "mid \<le> right" "right < n"
  shows "\<exists>left. left \<le> t \<and>
    map_offset_loop R k mid right om = Some (Inr (t, om\<lparr>om_left := left, om_last_diff := t - k\<rparr>))"
  using assms
proof (induction "2 * (unat right - unat (om_left om)) + (if mid = right then 1 else 0)"
    arbitrary: mid right om rule: less_induct)
  case less
  let ?D = "deleted R (om_dv om)"
  let ?target = "k + ucast (dv_range_cardinality R (om_dv om) (0, mid + 1)) :: u32"
  note cmp = live_rows_compare[OF less.prems(3), folded less.prems(4)]
  have "mid < n" using less.prems by simp
  note target = map_offset_compare[OF less.prems(1,2) this less.prems(5)]
  note unfold = map_offset_loop.simps[of R k mid right om, unfolded Let_def dv_readers(2)[OF less.prems(1)]]
  consider "mid = t" | "mid < t" | "t < mid" by fastforce
  then show ?case
  proof cases
    case 1
    then have "mid = ?target" "t \<notin> ?D"
      using target live_rows_nth(2,4)[OF less.prems(3), folded less.prems(4)] by (simp_all only: 1 word_unat_eq_iff simp_thms)
    then have "map_offset_loop R k mid right om = Some (Inr (t, om\<lparr>om_left := om_left om, om_last_diff := t - k\<rparr>))"
      unfolding unfold using 1 by simp
    then show ?thesis using less.prems(6) by blast
  next
    case 2
    let ?om = "om\<lparr>om_left := mid + 1\<rparr>"
    let ?mid = "mid + 1 + (right - (mid + 1)) div 2"
    have "mid < ?target" "mid \<noteq> ?target" using cmp(1)[OF 2] target by (auto simp: word_less_nat_alt)
    moreover have succ: "unat (mid + 1) = unat mid + 1" using 2 by (rule unat_add_1)
    then have "om_left om \<noteq> mid + 1" using less.prems(8) by (auto simp: word_le_nat_alt)
    ultimately have step: "map_offset_loop R k mid right om = map_offset_loop R k ?mid right ?om"
      unfolding unfold by simp
    have le: "mid + 1 \<le> t" "mid + 1 \<le> right" using 2 less.prems(7) succ by (simp_all add: word_le_nat_alt word_less_nat_alt)
    note mid = unat_midpoint[OF le(2)]
    have bounds: "mid + 1 \<le> ?mid" "?mid \<le> right"
      using le(2) mid unfolding word_le_nat_alt by linarith+
    have "\<exists>left. left \<le> t \<and> map_offset_loop R k ?mid right ?om =
        Some (Inr (t, ?om\<lparr>om_left := left, om_last_diff := t - k\<rparr>))"
      by (rule less.hyps) (use less.prems le bounds succ in \<open>auto simp: word_le_nat_alt\<close>)
    then show ?thesis unfolding step by simp
  next
    case 3
    let ?mid = "om_left om + (mid - om_left om) div 2"
    have "\<not> mid < ?target" "\<not> (mid = ?target \<and> mid \<notin> ?D)"
      using cmp(2)[OF 3] target by (auto simp: word_less_nat_alt)
    then have step: "map_offset_loop R k mid right om = map_offset_loop R k ?mid mid om"
      unfolding unfold by (simp only: if_False simp_thms)
    note mid = unat_midpoint[OF less.prems(8)]
    have lt: "unat (om_left om) < unat mid" using 3 less.prems(6) by (simp add: word_le_nat_alt word_less_nat_alt)
    have bounds: "om_left om \<le> ?mid" "?mid < mid"
      using lt mid unfolding word_le_nat_alt word_less_nat_alt by linarith+
    have "mid = right \<or> unat mid < unat right" using less.prems(9) unfolding word_le_nat_alt word_unat_eq_iff by linarith
    with bounds(2) lt have "2 * (unat mid - unat (om_left om)) + (if ?mid = mid then 1 else 0)
        < 2 * (unat right - unat (om_left om)) + (if mid = right then 1 else 0)" by auto
    then show ?thesis unfolding step
      by (rule less.hyps[OF _ less.prems(1-5)]) (use less.prems(6,9,10) 3 bounds in simp_all)
  qed
qed


lemma length_live_rows:
  assumes "D \<subseteq> {..<n}"
  shows "length (live_rows D n) + card D = unat n"
proof -
  have "length (live_rows D n) = card ({..<n} - D)"
    using distinct_card[OF strict_sorted_distinct[OF sorted_live_rows[of D n]]] by (simp add: set_live_rows)
  then show ?thesis
    using assms card_mono[OF _ assms] by (simp add: card_Diff_subset finite_subset[OF assms] card_below)
qed

lemma map_offset_finds:
  assumes "dv_wf (om_dv om)" "deleted R (om_dv om) \<subseteq> {..<n}"
    "unat k < length (live_rows (deleted R (om_dv om)) n)" "mapper_ready R n k om"
  defines "t \<equiv> live_rows (deleted R (om_dv om)) n ! unat k"
  shows "\<exists>om'. map_offset R om k = Some (Inr (t, om')) \<and> om_dv om' = om_dv om \<and> mapper_ready R n k om'"
proof -
  let ?D = "deleted R (om_dv om)"
  note t = live_rows_nth[OF assms(3), folded t_def]
  have fits: "unat k + card ?D < unat n" using length_live_rows[OF assms(2)] assms(3) by linarith
  have n: "unat n < 2 ^ 32" by (rule unat_u32_bound)
  have le_all: "card (?D \<inter> {..t}) \<le> card ?D" by (rule card_mono) auto
  have ready: "unat (om_left om) \<le> unat k + unat (om_last_diff om)" "unat (om_last_diff om) \<le> card (?D \<inter> {..t})"
    using assms(4) by (simp_all add: mapper_ready_def t_def Let_def)
  have mid: "unat (k + om_last_diff om) = unat k + unat (om_last_diff om)"
    using ready(2) le_all fits n by (intro unat_add_small) simp
  have right: "unat (k + word_of_nat (dv_len R (om_dv om))) = unat k + card ?D"
    using fits n unat_add_of_nat[of k "card ?D"] by (simp add: dv_readers(1)[OF assms(1)])
  obtain left where left: "left \<le> t" "map_offset R om k = Some (Inr (t, om\<lparr>om_left := left, om_last_diff := t - k\<rparr>))"
    unfolding map_offset_def
    using map_offset_loop_finds[OF assms(1-3) t_def[THEN meta_eq_to_obj_eq] fits,
        of "k + word_of_nat (dv_len R (om_dv om))" "k + om_last_diff om"]
      ready le_all t(4) mid right fits by (auto simp: word_le_nat_alt word_less_nat_alt)
  have diff: "unat (t - k) = card (?D \<inter> {..t})" using t(4) by (simp add: unat_sub word_le_nat_alt)
  have "mapper_ready R n k (om\<lparr>om_left := left, om_last_diff := t - k\<rparr>)"
    using left(1) t(4) diff by (simp add: mapper_ready_def Let_def word_le_nat_alt flip: t_def)
  then show ?thesis using left(2) by auto
qed

lemma map_offsets_eq:
  assumes "dv_wf (om_dv om)" "deleted R (om_dv om) \<subseteq> {..<n}" "sorted offs"
    "\<And>k. k \<in> set offs \<Longrightarrow> unat k < length (live_rows (deleted R (om_dv om)) n)"
    "\<And>k. k \<in> set offs \<Longrightarrow> mapper_ready R n k om"
  shows "map_offsets R om offs = Some (Inr (map (\<lambda>k. live_rows (deleted R (om_dv om)) n ! unat k) offs))"
  using assms
proof (induction offs arbitrary: om)
  case (Cons k offs)
  from map_offset_finds[OF Cons.prems(1,2) Cons.prems(4,5)[of k]] obtain om' where
    om': "map_offset R om k = Some (Inr (live_rows (deleted R (om_dv om)) n ! unat k, om'))"
      "om_dv om' = om_dv om" "mapper_ready R n k om'" by auto
  have "map_offsets R om' offs = Some (Inr (map (\<lambda>k. live_rows (deleted R (om_dv om')) n ! unat k) offs))"
  proof (rule Cons.IH)
    show "mapper_ready R n k' om'" if "k' \<in> set offs" for k'
      using that Cons.prems(3,4) om'(2,3) by (intro mapper_ready_mono[of R n k om' k']) auto
  qed (use Cons.prems om'(2) in auto)
  then show ?case by (simp add: om'(1,2))
qed simp

end

subsection \<open>Properties\<close>

text \<open>
  C33. A deletion vector stands for a set of offsets, whichever representation it has: \<open>extend\<close>,
  \<open>from_iter\<close> and the conversions from and to bitmaps keep a hash set duplicate-free and within the
  threshold and give exactly the union, size hints being honest; the readers agree with the set.
  Equality compares the offsets, except that \<open>NoDeletions\<close> differs from an empty set or bitmap.
\<close>

theorem deletion_vector_types:
  assumes "roaring R" "dv_wf dv" "dv_wf dv'" "size_hint_ok hint items"
  shows "(dv_wf (dv_extend R hint dv items) \<and> deleted R (dv_extend R hint dv items) = deleted R dv \<union> set items) \<and>
    (dv_wf (dv_from_iter R hint items) \<and> deleted R (dv_from_iter R hint items) = set items) \<and>
    (dv_wf (dv_from_bitmap R b) \<and> deleted R (dv_from_bitmap R b) = rb_bits R b \<and> rb_bits R (dv_into_bitmap R dv) = deleted R dv) \<and>
    (dv_len R dv = card (deleted R dv) \<and> (dv_is_empty R dv \<longleftrightarrow> deleted R dv = {}) \<and>
      dv_contains R dv i = (i \<in> deleted R dv) \<and> dv_contains_range R dv r = ({fst r..<snd r} \<subseteq> deleted R dv) \<and>
      set (dv_iter R dv) = deleted R dv \<and> dv_to_sorted_iter R dv = sorted_list_of_set (deleted R dv) \<and>
      dv_into_iter R dv = sorted_list_of_set (deleted R dv)) \<and>
    (dv_eq R dv dv' \<longleftrightarrow> deleted R dv = deleted R dv' \<and> (dv = NoDeletions \<longleftrightarrow> dv' = NoDeletions))"
proof -
  note ext = roaring.dv_extend_props[OF assms(1)]
  have none: "dv_wf NoDeletions" "deleted R NoDeletions = {}" by (simp_all add: dv_wf_def deleted_def)
  have "finite (deleted R dv)" by simp
  then have p4: "dv_len R dv = card (deleted R dv) \<and> (dv_is_empty R dv \<longleftrightarrow> deleted R dv = {}) \<and>
      dv_contains R dv i = (i \<in> deleted R dv) \<and> dv_contains_range R dv r = ({fst r..<snd r} \<subseteq> deleted R dv) \<and>
      set (dv_iter R dv) = deleted R dv \<and> dv_to_sorted_iter R dv = sorted_list_of_set (deleted R dv) \<and>
      dv_into_iter R dv = sorted_list_of_set (deleted R dv)"
    by (simp add: dv_is_empty_def roaring.dv_readers[OF assms(1,2)])
  have p1: "dv_wf (dv_extend R hint dv items) \<and> deleted R (dv_extend R hint dv items) = deleted R dv \<union> set items"
    by (rule ext[OF assms(2,4)])
  have p2: "dv_wf (dv_from_iter R hint items) \<and> deleted R (dv_from_iter R hint items) = set items"
    using ext[OF none(1) assms(4)] by (simp add: dv_from_iter_def none(2))
  have p3: "dv_wf (dv_from_bitmap R b) \<and> deleted R (dv_from_bitmap R b) = rb_bits R b \<and> rb_bits R (dv_into_bitmap R dv) = deleted R dv"
    using assms(1) by (auto simp: dv_from_bitmap_def dv_into_bitmap_def dv_wf_def deleted_def roaring.specs
        split: deletion_vector.splits)
  have p5: "dv_eq R dv dv' \<longleftrightarrow> deleted R dv = deleted R dv' \<and> (dv = NoDeletions \<longleftrightarrow> dv' = NoDeletions)"
    by (rule roaring.dv_eq_iff[OF assms(1)])
  show ?thesis by (rule conjI[OF p1 conjI[OF p2 conjI[OF p3 conjI[OF p4 p5]]]])
qed

theorem deletion_vector_types_witness:
  "deleted set_roaring (dv_extend set_roaring (2, None) (DvSet [7]) [3, 7]) = {3, 7}"
  using deletion_vector_types[OF set_roaring.roaring_axioms, of "DvSet [7]" NoDeletions "(2, None)" "[3, 7]"]
  by (simp add: dv_wf_def BITMAP_THRESDHOLD_def size_hint_ok_def deleted_def insert_commute)

text \<open>
  C34. The keep mask of a batch is the plain one: for ranges that cover the batch, each of the three
  strategies (range queries of the bitmap, a walk over the set, a probe per row) gives bit \<open>i\<close> set
  exactly when the \<open>i\<close>-th row of the batch is live, in the order of the ranges, without a panic; and
  no mask exactly when no row of the batch is deleted. It agrees with \<open>build_predicate\<close> on row
  addresses with these offsets.
\<close>

theorem build_keep_mask_correct:
  assumes "roaring R" "bool_buffer B" "dv_wf dv" "list_all (\<lambda>r. fst r \<le> snd r) ranges"
    "length (concat (map range_vals ranges)) = unat num_rows"
  shows "(build_keep_mask R B dv ranges num_rows =
      Inr (if set (concat (map range_vals ranges)) \<inter> deleted R dv = {} then None
           else Some (map (\<lambda>x. x \<notin> deleted R dv) (concat (map range_vals ranges))))) \<and>
    (build_predicate R dv row_addrs =
      (if dv = NoDeletions then None else Some (map (\<lambda>row. ucast row \<notin> deleted R dv) row_addrs)))"
proof -
  have "build_keep_mask R B dv ranges num_rows =
      Inr (keep_bits (length (concat (map range_vals ranges))) (del_positions (deleted R dv) (concat (map range_vals ranges))))"
    using build_keep_mask_eq[OF assms(1-3) _ assms(5)] assms(4) by (simp only: assms(5) list_all_iff)
  then have p1: "build_keep_mask R B dv ranges num_rows =
      Inr (if set (concat (map range_vals ranges)) \<inter> deleted R dv = {} then None
           else Some (map (\<lambda>x. x \<notin> deleted R dv) (concat (map range_vals ranges))))"
    by (simp only: keep_bits_eq)
  have p2: "build_predicate R dv row_addrs =
      (if dv = NoDeletions then None else Some (map (\<lambda>row. ucast row \<notin> deleted R dv) row_addrs))"
    by (cases dv) (simp_all add: build_predicate_def deleted_def roaring.contains_spec[OF assms(1)])
  show ?thesis by (rule conjI[OF p1 p2])
qed

theorem build_keep_mask_correct_witness:
  "build_keep_mask set_roaring list_bool_buffer (DvSet [4, 1]) [(3, 5), (0, 2)] 4 = Inr (Some [True, False, True, False])"
proof -
  have "concat (map range_vals [(3, 5), (0, 2 :: u32)]) = [3, 4, 0, 1]" by (simp add: range_vals_def upt_rec)
  then show ?thesis
    using build_keep_mask_correct[OF set_roaring.roaring_axioms list_bool_buffer.bool_buffer_axioms,
        of "DvSet [4, 1]" "[(3, 5), (0, 2)]" 4]
    by (simp add: dv_wf_def BITMAP_THRESDHOLD_def deleted_def)
qed

text \<open>
  C35. \<open>OffsetMapper\<close> answers every non-decreasing sequence of offsets: each call returns, without a
  failed assertion, although the search keeps its lower bound and its last shift between calls, and
  gives the row that is the \<open>k\<close>-th live one of the fragment.
\<close>

theorem offset_mapper_correct:
  assumes "roaring R" "dv_wf dv" "deleted R dv \<subseteq> {..<num_rows}" "sorted offs"
    "list_all (\<lambda>k. unat k < length (live_rows (deleted R dv) num_rows)) offs"
  shows "map_offsets R (offset_mapper_new dv) offs = Some (Inr (map (\<lambda>k. live_rows (deleted R dv) num_rows ! unat k) offs))"
proof -
  have "mapper_ready R num_rows k (offset_mapper_new dv)" for k
    by (simp add: mapper_ready_def offset_mapper_new_def)
  moreover have "om_dv (offset_mapper_new dv) = dv" by (simp add: offset_mapper_new_def)
  ultimately show ?thesis
    using roaring.map_offsets_eq[OF assms(1), of "offset_mapper_new dv" num_rows offs] assms(2-5)
    by (simp add: list_all_iff)
qed

theorem offset_mapper_correct_witness:
  "map_offsets set_roaring (offset_mapper_new (DvSet [0, 1, 4])) [0, 2, 2] = Some (Inr [2, 5, 5])"
proof -
  have "live_rows {0, 1, 4} 6 = [2, 3, 5 :: u32]" by (simp add: live_rows_def range_vals_def upt_rec)
  moreover have "deleted set_roaring (DvSet [0, 1, 4]) = {0, 1, 4}" by (simp add: deleted_def)
  ultimately show ?thesis
    using offset_mapper_correct[OF set_roaring.roaring_axioms, of "DvSet [0, 1, 4]" 6 "[0, 2, 2]"]
    by (simp add: dv_wf_def BITMAP_THRESDHOLD_def)
qed

end
