(* ===== verification/Row_Id_Serde.thy ===== *)
theory Row_Id_Serde
  imports Segment_Runs Sequence_Reading Le_Bytes
begin

text \<open>
  Reading and writing row-id sequences (\<open>rust/lance-table/src/rowids/serde.rs\<close>). The protobuf
  messages are datatypes with one constructor per arm of a \<open>oneof\<close>, whose absence is
  \<open>None\<close>. The crate \<open>prost\<close> is the record \<open>prost_ops\<close>, a parameter of the
  reader and the writer; its documented behaviour is the locale \<open>prost\<close>. Every check of the
  reader is an error branch, and the folding of neighbouring ranges into one \<open>Ranges\<close> segment
  is modelled with its gap limit.
\<close>

unbundle bit_operations_syntax

subsection \<open>Messages and the protobuf library\<close>

datatype pb_array =
    PbU16Array u64 "u8 list"
  | PbU32Array u64 "u8 list"
  | PbU64Array "u8 list"

datatype pb_segment =
    PbRange u64 u64
  | PbRangeWithHoles u64 u64 "pb_array option option"
  | PbRangeWithBitmap u64 u64 "u8 list"
  | PbSortedArray "pb_array option"
  | PbArray "pb_array option"

datatype wire_type = WtVarint | WtSixtyFourBit | WtLengthDelimited | WtStartGroup | WtEndGroup | WtThirtyTwoBit

record prost_ops =
  pr_decode_key :: "u8 list \<Rightarrow> ((u32 \<times> wire_type) \<times> u8 list) option"
  pr_decode_varint :: "u8 list \<Rightarrow> (u64 \<times> u8 list) option"
  pr_decode_segment :: "u8 list \<Rightarrow> pb_segment option option"
  pr_encode_key :: "u32 \<Rightarrow> wire_type \<Rightarrow> u8 list"
  pr_encode_varint :: "u64 \<Rightarrow> u8 list"
  pr_encode_segment :: "pb_segment option \<Rightarrow> u8 list"
  pr_encode_sequence :: "pb_segment option list \<Rightarrow> u8 list"

subsection \<open>Checks of decoded messages\<close>

definition validate_range :: "u64 \<Rightarrow> u64 \<Rightarrow> usize res" where
  "validate_range start stop =
     (case checked_sub stop start of None \<Rightarrow> Inl CorruptRowIds | Some len \<Rightarrow> Inr (unat len))"

definition validate_packed_array_length :: "usize \<Rightarrow> usize \<Rightarrow> unit res" where
  "validate_packed_array_length byte_len width = (if byte_len mod width \<noteq> 0 then Inl CorruptRowIds else Inr ())"

function find_non_increasing :: "'a::linorder list \<Rightarrow> usize \<Rightarrow> usize option" where
  "find_non_increasing vals at =
     (if at + 1 < length vals then
        (let stop = min (at + 64) (length vals - 1);
             pairs = zip (take (stop - at) (drop at vals)) (take (stop - at) (drop (at + 1) vals))
         in if \<not> foldl (\<lambda>sorted (previous, next). sorted \<and> previous < next) True pairs then
              map_option (\<lambda>offset. at + offset) (find_position (\<lambda>(previous, next). previous \<ge> next) pairs)
            else find_non_increasing vals stop)
      else None)"
  by pat_completeness auto
termination by (relation "measure (\<lambda>(vals, at). length vals - at)") auto

declare find_non_increasing.simps [simp del]

definition first_non_increasing_pair :: "encoded_u64_array \<Rightarrow> (usize \<times> u64 \<times> u64) option" where
  "first_non_increasing_pair array =
     Option.bind
       (case array of
          EncU16 base offsets \<Rightarrow> find_non_increasing offsets 0
        | EncU32 base offsets \<Rightarrow> find_non_increasing offsets 0
        | EncU64 vals \<Rightarrow> find_non_increasing vals 0)
       (\<lambda>index. Option.bind (enc_get array index)
          (\<lambda>previous. Option.bind (enc_get array (index + 1)) (\<lambda>next. Some (index, previous, next))))"

definition unpack_le :: "usize \<Rightarrow> u8 list \<Rightarrow> 'a::len word list" where
  "unpack_le width bytes = map from_le_bytes (fst (as_chunks width bytes))"

definition offsets_overflow :: "u64 \<Rightarrow> 'a::len word list \<Rightarrow> bool" where
  "offsets_overflow base offsets =
     (case list_max offsets of
        Some max_offset \<Rightarrow> checked_add base (ucast max_offset) = None
      | None \<Rightarrow> False)"

definition array_try_from :: "pb_array option \<Rightarrow> encoded_u64_array res" where
  "array_try_from pb =
     (case pb of
        Some (PbU16Array base bytes) \<Rightarrow>
          bindr (validate_packed_array_length (length bytes) 2) (\<lambda>_.
            let offsets = unpack_le 2 bytes
            in if offsets_overflow base offsets then Inl CorruptRowIds else Inr (EncU16 base offsets))
      | Some (PbU32Array base bytes) \<Rightarrow>
          bindr (validate_packed_array_length (length bytes) 4) (\<lambda>_.
            let offsets = unpack_le 4 bytes
            in if offsets_overflow base offsets then Inl CorruptRowIds else Inr (EncU32 base offsets))
      | Some (PbU64Array bytes) \<Rightarrow>
          bindr (validate_packed_array_length (length bytes) 8) (\<lambda>_. Inr (EncU64 (unpack_le 8 bytes)))
      | None \<Rightarrow> Inl CorruptRowIds)"

definition bitmap_try_from :: "u64 \<Rightarrow> u64 \<Rightarrow> u8 list \<Rightarrow> u64_segment res" where
  "bitmap_try_from start stop bytes =
     bindr (validate_range start stop) (\<lambda>range_len.
       let expected_bitmap_len = div_ceil range_len 8; remainder = range_len mod 8;
           ok = Inr (SegRangeWithBitmap (start, stop) (bitmap_from_parts bytes range_len))
       in if length bytes \<noteq> expected_bitmap_len then Inl CorruptRowIds
          else if remainder \<noteq> 0 then
            bindr (index_slice bytes (usize_sub expected_bitmap_len 1)) (\<lambda>last_byte.
              if last_byte AND NOT (push_bit remainder 1 - 1) \<noteq> 0 then Inl CorruptRowIds else ok)
          else ok)"

definition segment_try_from :: "pb_segment option \<Rightarrow> u64_segment res" where
  "segment_try_from pb =
     (case pb of
        Some (PbRange start stop) \<Rightarrow> bindr (validate_range start stop) (\<lambda>_. Inr (SegRange (start, stop)))
      | Some (PbRangeWithHoles start stop pb_holes) \<Rightarrow>
          bindr (validate_range start stop) (\<lambda>_.
          bindr (case pb_holes of None \<Rightarrow> Inl CorruptRowIds | Some a \<Rightarrow> array_try_from a) (\<lambda>holes.
            if first_non_increasing_pair holes \<noteq> None then Inl CorruptRowIds
            else if List.find (\<lambda>hole. hole < start \<or> hole \<ge> stop) (enc_iter holes) \<noteq> None then Inl CorruptRowIds
            else Inr (SegRangeWithHoles (start, stop) holes)))
      | Some (PbRangeWithBitmap start stop bytes) \<Rightarrow> bitmap_try_from start stop bytes
      | Some (PbSortedArray a) \<Rightarrow>
          bindr (array_try_from a) (\<lambda>array.
            if first_non_increasing_pair array \<noteq> None then Inl CorruptRowIds else Inr (SegSortedArray array))
      | Some (PbArray a) \<Rightarrow> bindr (array_try_from a) (\<lambda>array. Inr (SegArray array))
      | None \<Rightarrow> Inl CorruptRowIds)"

subsection \<open>Folding neighbouring ranges\<close>

definition FOLD_GAP :: u64 where
  "FOLD_GAP = push_bit 16 1"

definition flush_ranges :: "u64 range list \<Rightarrow> u64_segment list \<Rightarrow> u64_segment list" where
  "flush_ranges pending out =
     (case segment_from_sorted_ranges pending of
        Some segment \<Rightarrow> out @ [segment]
      | None \<Rightarrow> out @ map SegRange pending)"

definition push_range ::
    "u64 range list \<Rightarrow> u64_segment list \<Rightarrow> u64 range \<Rightarrow> u64 range list \<times> u64_segment list" where
  "push_range pending out r =
     (if pending = [] then ([r], out)
      else
        let l = last pending
        in if snd l = fst r then (butlast pending @ [(fst l, snd r)], out)
           else if snd l > fst r \<or> fst r - snd l > FOLD_GAP then ([r], flush_ranges pending out)
           else (pending @ [r], out))"

subsection \<open>Writing\<close>

definition le_bytes :: "'a::len word list \<Rightarrow> u8 list" where
  "le_bytes vals = foldl (\<lambda>bytes v. bytes @ to_le_bytes v) [] vals"

fun array_to_pb :: "encoded_u64_array \<Rightarrow> pb_array option" where
  "array_to_pb (EncU16 base offsets) = Some (PbU16Array base (le_bytes offsets))"
| "array_to_pb (EncU32 base offsets) = Some (PbU32Array base (le_bytes offsets))"
| "array_to_pb (EncU64 vals) = Some (PbU64Array (le_bytes vals))"

fun segment_to_pb :: "u64_segment \<Rightarrow> pb_segment option res" where
  "segment_to_pb (SegRange r) = Inr (Some (PbRange (fst r) (snd r)))"
| "segment_to_pb (SegRangeWithHoles r holes) = Inr (Some (PbRangeWithHoles (fst r) (snd r) (Some (array_to_pb holes))))"
| "segment_to_pb (SegRangeWithBitmap r bm) = Inr (Some (PbRangeWithBitmap (fst r) (snd r) (bm_data bm)))"
| "segment_to_pb (SegRanges r runs) = Inl Panic"
| "segment_to_pb (SegSortedArray array) = Inr (Some (PbSortedArray (array_to_pb array)))"
| "segment_to_pb (SegArray array) = Inr (Some (PbArray (array_to_pb array)))"

definition segments_to_pb :: "u64_segment \<Rightarrow> pb_segment option list res" where
  "segments_to_pb seg =
     (case seg of
        SegRanges r runs \<Rightarrow>
          bindr (hr_present_ranges runs) (\<lambda>present.
            mapr (\<lambda>p. segment_to_pb (SegRange (fst r + ucast (fst p), fst r + ucast (snd p)))) present)
      | _ \<Rightarrow> bindr (segment_to_pb seg) (\<lambda>pb. Inr [pb]))"

definition sequence_to_pb :: "row_id_sequence \<Rightarrow> pb_segment option list res" where
  "sequence_to_pb sq = bindr (mapr segments_to_pb sq) (\<lambda>pbs. Inr (concat pbs))"

definition write_row_ids :: "'z prost_ops_scheme \<Rightarrow> row_id_sequence \<Rightarrow> u8 list res" where
  "write_row_ids P sq = bindr (sequence_to_pb sq) (\<lambda>pb_sequence. Inr (pr_encode_sequence P pb_sequence))"

subsection \<open>Reading\<close>

partial_function (option) plain_fields ::
    "'z prost_ops_scheme \<Rightarrow> u8 list \<Rightarrow> u64 \<Rightarrow> u64 \<Rightarrow> (u64 \<times> u64) option option" where
  "plain_fields P bytes start stop =
     (if bytes = [] then Some (Some (start, stop))
      else case pr_decode_key P bytes of
             None \<Rightarrow> Some None
           | Some (key, bytes1) \<Rightarrow>
               if snd key \<noteq> WtVarint then Some None
               else case pr_decode_varint P bytes1 of
                      None \<Rightarrow> Some None
                    | Some (v, bytes2) \<Rightarrow>
                        if fst key = 1 then plain_fields P bytes2 v stop
                        else if fst key = 2 then plain_fields P bytes2 start v
                        else Some None)"

definition plain_range :: "'z prost_ops_scheme \<Rightarrow> u8 list \<Rightarrow> u64 range option option" where
  "plain_range P bytes =
     (case pr_decode_key P bytes of
        None \<Rightarrow> Some None
      | Some (key, bytes1) \<Rightarrow>
          if fst key \<noteq> 1 \<or> snd key \<noteq> WtLengthDelimited then Some None
          else case pr_decode_varint P bytes1 of
                 None \<Rightarrow> Some None
               | Some (len, bytes2) \<Rightarrow>
                   if unat len \<noteq> length bytes2 then Some None
                   else Option.bind (plain_fields P bytes2 0 0)
                     (\<lambda>fields. Some (Option.bind fields (\<lambda>(start, stop). if start < stop then Some (start, stop) else None))))"

definition decode_other :: "'z prost_ops_scheme \<Rightarrow> u8 list \<Rightarrow> u64_segment res" where
  "decode_other P bytes = bindr (ok_or CorruptRowIds (pr_decode_segment P bytes)) segment_try_from"

partial_function (option) read_loop ::
    "'z prost_ops_scheme \<Rightarrow> u8 list \<Rightarrow> u64 range list \<Rightarrow> u64_segment list \<Rightarrow>
     (u64 range list \<times> u64_segment list) res option" where
  "read_loop P buf pending segments =
     (if buf = [] then Some (Inr (pending, segments))
      else case pr_decode_key P buf of
             None \<Rightarrow> Some (Inl CorruptRowIds)
           | Some (key, buf1) \<Rightarrow>
               if fst key \<noteq> 1 \<or> snd key \<noteq> WtLengthDelimited then Some (Inl CorruptRowIds)
               else case pr_decode_varint P buf1 of
                      None \<Rightarrow> Some (Inl CorruptRowIds)
                    | Some (len, buf2) \<Rightarrow>
                        if unat len > length buf2 then Some (Inl CorruptRowIds)
                        else case plain_range P (take (unat len) buf2) of
                               None \<Rightarrow> None
                             | Some (Some r) \<Rightarrow>
                                 (let st = push_range pending segments r
                                  in read_loop P (drop (unat len) buf2) (fst st) (snd st))
                             | Some None \<Rightarrow>
                                 (case decode_other P (take (unat len) buf2) of
                                    Inl e \<Rightarrow> Some (Inl e)
                                  | Inr segment \<Rightarrow>
                                      read_loop P (drop (unat len) buf2) []
                                        (flush_ranges pending segments @ [segment])))"

fun total_len_from :: "u64_segment list \<Rightarrow> u64 \<Rightarrow> u64 option res" where
  "total_len_from [] acc = Inr (Some acc)"
| "total_len_from (seg # segs) acc =
     bindr (segment_len seg) (\<lambda>n.
       case checked_add acc (word_of_nat n) of None \<Rightarrow> Inr None | Some acc' \<Rightarrow> total_len_from segs acc')"

definition read_finish :: "u64 range list \<Rightarrow> u64_segment list \<Rightarrow> row_id_sequence res" where
  "read_finish pending segments =
     (let segments' = flush_ranges pending segments
      in bindr (total_len_from segments' 0) (\<lambda>total_len.
           bindr (ok_or CorruptRowIds total_len) (\<lambda>_. Inr segments')))"

definition read_row_ids :: "'z prost_ops_scheme \<Rightarrow> u8 list \<Rightarrow> row_id_sequence res option" where
  "read_row_ids P buf =
     Option.bind (read_loop P buf [] []) (\<lambda>r. Some (bindr r (\<lambda>(pending, segments). read_finish pending segments)))"

definition sequence_try_from :: "'z prost_ops_scheme \<Rightarrow> pb_segment option list \<Rightarrow> row_id_sequence res option" where
  "sequence_try_from P pb = read_row_ids P (pr_encode_sequence P pb)"

subsection \<open>What the checks establish\<close>

lemma foldl_pairs: "foldl (\<lambda>sorted (p, n). sorted \<and> p < n) b xs \<longleftrightarrow> b \<and> (\<forall>(p, n) \<in> set xs. p < n)"
  by (induction xs arbitrary: b) auto

lemma find_position_eq:
  "(find_position p xs = None \<longleftrightarrow> (\<forall>x \<in> set xs. \<not> p x)) \<and> (\<forall>k. find_position p xs = Some k \<longrightarrow> k < length xs)"
proof -
  have "length (takeWhile (\<lambda>x. \<not> p x) xs) < length xs \<longleftrightarrow> (\<exists>x \<in> set xs. p x)"
    by (induction xs) auto
  then show ?thesis by (auto simp: find_position_def Let_def)
qed

lemma block_pairs:
  fixes vals :: "'a::linorder list"
  assumes "at < stop" "stop < length vals"
  shows "(\<forall>(p, n) \<in> set (zip (take (stop - at) (drop at vals)) (take (stop - at) (drop (at + 1) vals))). p < n) \<longleftrightarrow>
    (\<forall>i. at \<le> i \<and> i < stop \<longrightarrow> vals ! i < vals ! Suc i)"
proof -
  let ?zs = "zip (take (stop - at) (drop at vals)) (take (stop - at) (drop (at + 1) vals))"
  have len: "length ?zs = stop - at" using assms by simp
  have nth: "?zs ! j = (vals ! (at + j), vals ! Suc (at + j))" if "j < stop - at" for j using that assms by simp
  have "(\<forall>(p, n) \<in> set ?zs. p < n) \<longleftrightarrow> (\<forall>j < stop - at. vals ! (at + j) < vals ! Suc (at + j))"
    using len nth by (auto simp: all_set_conv_all_nth)
  also have "\<dots> \<longleftrightarrow> (\<forall>i. at \<le> i \<and> i < stop \<longrightarrow> vals ! i < vals ! Suc i)"
  proof (intro iffI allI impI)
    fix i assume all: "\<forall>j < stop - at. vals ! (at + j) < vals ! Suc (at + j)" and i: "at \<le> i \<and> i < stop"
    then have "i - at < stop - at" "at + (i - at) = i" by auto
    then show "vals ! i < vals ! Suc i" using all by metis
  next
    fix j assume "\<forall>i. at \<le> i \<and> i < stop \<longrightarrow> vals ! i < vals ! Suc i" "j < stop - at"
    then show "vals ! (at + j) < vals ! Suc (at + j)" by simp
  qed
  finally show ?thesis .
qed

lemma find_non_increasing_eq:
  "(find_non_increasing vals at = None \<longleftrightarrow> (\<forall>i. at \<le> i \<and> Suc i < length vals \<longrightarrow> vals ! i < vals ! Suc i)) \<and>
   (\<forall>k. find_non_increasing vals at = Some k \<longrightarrow> Suc k < length vals)"
proof (induction vals at rule: find_non_increasing.induct)
  case (1 vals at)
  define stop where "stop = min (at + 64) (length vals - 1)"
  define pairs where "pairs = zip (take (stop - at) (drop at vals)) (take (stop - at) (drop (at + 1) vals))"
  show ?case
  proof (cases "at + 1 < length vals")
    case True
    then have b: "at < stop" "stop < length vals" by (auto simp: stop_def)
    note blk = block_pairs[OF b, folded pairs_def]
    have len: "length pairs \<le> stop - at" by (simp add: pairs_def)
    have unf: "find_non_increasing vals at =
      (if \<not> (\<forall>(p, n) \<in> set pairs. p < n) then map_option (\<lambda>offset. at + offset) (find_position (\<lambda>(p, n). p \<ge> n) pairs)
       else find_non_increasing vals stop)"
      unfolding pairs_def stop_def
      by (subst find_non_increasing.simps) (simp only: True if_True Let_def foldl_pairs simp_thms)
    show ?thesis
    proof (cases "\<forall>(p, n) \<in> set pairs. p < n")
      case sorted: True
      have IH: "(find_non_increasing vals stop = None \<longleftrightarrow> (\<forall>i. stop \<le> i \<and> Suc i < length vals \<longrightarrow> vals ! i < vals ! Suc i)) \<and>
        (\<forall>k. find_non_increasing vals stop = Some k \<longrightarrow> Suc k < length vals)"
        by (rule "1.IH"[OF True stop_def pairs_def]) (use sorted in \<open>simp only: foldl_pairs simp_thms\<close>)
      have "(\<forall>i. at \<le> i \<and> Suc i < length vals \<longrightarrow> vals ! i < vals ! Suc i) \<longleftrightarrow>
        (\<forall>i. stop \<le> i \<and> Suc i < length vals \<longrightarrow> vals ! i < vals ! Suc i)"
        using blk sorted b by (meson le_trans less_imp_le not_le)
      moreover have "find_non_increasing vals at = find_non_increasing vals stop" using sorted unf by argo
      ultimately show ?thesis using IH by simp
    next
      case False
      then have "\<not> (\<forall>i. at \<le> i \<and> Suc i < length vals \<longrightarrow> vals ! i < vals ! Suc i)" using blk b by auto
      moreover have "find_position (\<lambda>(p, n). p \<ge> n) pairs \<noteq> None"
        using False find_position_eq[of "\<lambda>(p, n). p \<ge> n" pairs] by (auto simp: not_le)
      moreover have "Suc k < length vals" if "map_option (\<lambda>offset. at + offset) (find_position (\<lambda>(p, n). p \<ge> n) pairs) = Some k" for k
        using that find_position_eq[of "\<lambda>(p, n). p \<ge> n" pairs] len b by fastforce
      ultimately show ?thesis using False unf by auto
    qed
  qed (auto simp: find_non_increasing.simps[of vals at])
qed

lemma find_non_increasing_0: "find_non_increasing vals 0 = None \<longleftrightarrow> sorted_wrt (<) vals"
  using find_non_increasing_eq[of vals 0] by (simp add: sorted_wrt_iff_nth_Suc_transp)

lemma sorted_offsets:
  assumes "offsets_fit base (offsets :: 'a::len word list)" "LENGTH('a) \<le> 64"
  shows "sorted_wrt (<) (map (\<lambda>off. base + ucast off :: u64) offsets) \<longleftrightarrow> sorted_wrt (<) offsets"
  using assms unfolding sorted_wrt_map offsets_fit_def list_all_iff
  by (intro iffI; elim sorted_wrt_mono_rel[rotated]) (auto simp: base_offset_less_iff)

lemma enc_get_in: "i < enc_len a \<Longrightarrow> enc_get a i \<noteq> None"
  by (cases a) auto

lemma first_non_increasing_pair_eq:
  assumes "enc_wf a"
  shows "first_non_increasing_pair a = None \<longleftrightarrow> sorted_wrt (<) (enc_iter a)"
proof -
  have "first_non_increasing_pair a = None \<longleftrightarrow>
    (case a of EncU16 b os \<Rightarrow> find_non_increasing os 0 | EncU32 b os \<Rightarrow> find_non_increasing os 0 | EncU64 vs \<Rightarrow> find_non_increasing vs 0) = None"
    (is "_ \<longleftrightarrow> ?f = None")
  proof -
    have "Suc k < enc_len a" if "?f = Some k" for k
      using that by (cases a) (simp_all add: find_non_increasing_eq)
    then have "enc_get a k \<noteq> None \<and> enc_get a (k + 1) \<noteq> None" if "?f = Some k" for k
      using that enc_get_in[of k a] enc_get_in[of "k + 1" a] by fastforce
    then show ?thesis unfolding first_non_increasing_pair_def by (cases "?f") auto
  qed
  then show ?thesis using assms by (cases a) (auto simp: find_non_increasing_0 sorted_offsets)
qed

subsection \<open>Arrays\<close>

lemma as_chunks_blocks: "0 < k \<Longrightarrow> (\<forall>c \<in> set cs. length c = k) \<Longrightarrow> as_chunks k (concat cs) = (cs, [])"
  by (induction cs) (simp_all add: as_chunks.simps)

lemma le_bytes_eq: "le_bytes vs = concat (map to_le_bytes vs)"
proof -
  have "foldl (\<lambda>bytes v. bytes @ to_le_bytes v) bs vs = bs @ concat (map to_le_bytes vs)" for bs
    by (induction vs arbitrary: bs) simp_all
  then show ?thesis by (simp add: le_bytes_def)
qed

lemma length_le_bytes: "length (le_bytes (vs :: 'a::len word list)) = LENGTH('a) div 8 * length vs"
  by (induction vs) (simp_all add: le_bytes_eq)

lemma unpack_le_bytes:
  assumes "8 dvd LENGTH('a::len)"
  shows "unpack_le (LENGTH('a) div 8) (le_bytes vs) = (vs :: 'a word list)"
proof -
  have "0 < LENGTH('a) div 8" using assms dvd_imp_le[OF assms len_gt_0] by simp
  then have "as_chunks (LENGTH('a) div 8) (le_bytes vs) = (map to_le_bytes vs, [])"
    unfolding le_bytes_eq by (intro as_chunks_blocks) simp_all
  then show ?thesis using assms by (simp add: unpack_le_def from_to_le_bytes map_idI)
qed

lemma unpack_le_widths [simp]:
  "unpack_le 2 (le_bytes a) = (a :: u16 list)" "unpack_le 4 (le_bytes b) = (b :: u32 list)"
  "unpack_le 8 (le_bytes c) = (c :: u64 list)"
  using unpack_le_bytes[of a] unpack_le_bytes[of b] unpack_le_bytes[of c] by simp_all

lemma length_unpack_le: "length (unpack_le k bytes :: 'a::len word list) \<le> length bytes"
proof (induction k bytes rule: as_chunks.induct)
  case (1 k bytes)
  show ?case
  proof (cases "k = 0 \<or> length bytes < k")
    case False
    then have "length (fst (as_chunks k (drop k bytes))) \<le> length bytes - k" using 1 by (simp add: unpack_le_def)
    then show ?thesis using False by (simp add: unpack_le_def as_chunks.simps[of k bytes] split_def Let_def) linarith
  qed (simp add: unpack_le_def as_chunks.simps[of k bytes])
qed

lemma offsets_overflow_iff:
  assumes "LENGTH('a::len) \<le> 64"
  shows "offsets_overflow base (offsets :: 'a word list) \<longleftrightarrow> \<not> offsets_fit base offsets"
proof (cases "offsets = []")
  case False
  have "(\<forall>off \<in> set offsets. unat base + unat off < 2 ^ 64) \<longleftrightarrow> unat base + unat (Max (set offsets)) < 2 ^ 64"
  proof
    assume "unat base + unat (Max (set offsets)) < 2 ^ 64"
    moreover have "unat off \<le> unat (Max (set offsets))" if "off \<in> set offsets" for off
      using Max_ge[OF _ that] by (simp add: word_le_nat_alt)
    ultimately show "\<forall>off \<in> set offsets. unat base + unat off < 2 ^ 64" by fastforce
  qed (use False in simp)
  then show ?thesis using False assms
    by (simp add: offsets_overflow_def offsets_fit_def list_all_iff list_max_eq checked_add_def unat_ucast_offset)
qed (simp add: offsets_overflow_def offsets_fit_def)

fun pb_array_bytes :: "pb_array option \<Rightarrow> nat" where
  "pb_array_bytes (Some (PbU16Array base bytes)) = length bytes"
| "pb_array_bytes (Some (PbU32Array base bytes)) = length bytes"
| "pb_array_bytes (Some (PbU64Array bytes)) = length bytes"
| "pb_array_bytes None = 0"

lemma array_try_from_sound:
  "(\<exists>a. array_try_from pb = Inr a \<and> enc_wf a \<and> enc_len a \<le> pb_array_bytes pb) \<or> array_try_from pb = Inl CorruptRowIds"
proof (cases pb rule: pb_array_bytes.cases)
qed (auto simp: array_try_from_def validate_packed_array_length_def Let_def offsets_overflow_iff length_unpack_le)

lemma array_roundtrip: "enc_wf a \<Longrightarrow> array_try_from (array_to_pb a) = Inr a"
  by (cases a) (simp_all add: array_try_from_def validate_packed_array_length_def offsets_overflow_iff length_le_bytes)

subsection \<open>Segments\<close>

lemma padding_clear_iff:
  assumes "k < 8"
  shows "(b :: u8) AND NOT (push_bit k 1 - 1) = 0 \<longleftrightarrow> (\<forall>i. k \<le> i \<and> i < 8 \<longrightarrow> \<not> bit b i)"
proof -
  have m: "push_bit k 1 - 1 = (mask k :: u8)" by (simp add: mask_eq_exp_minus_1 push_bit_eq_mult)
  have "b AND NOT (mask k) = 0 \<longleftrightarrow> (\<forall>i < 8. \<not> bit (b AND NOT (mask k)) i)"
    by (auto simp: bit_eq_iff bit_imp_le_length dest: bit_imp_le_length)
  also have "\<dots> \<longleftrightarrow> (\<forall>i. k \<le> i \<and> i < 8 \<longrightarrow> \<not> bit b i)" by (auto simp: bit_and_iff bit_not_iff bit_mask_iff not_le[symmetric])
  finally show ?thesis unfolding m .
qed

lemma padding_bits:
  assumes "length bytes = div_ceil n 8" "n mod 8 \<noteq> 0"
  shows "list_all Not (drop n (bytes_bits bytes)) \<longleftrightarrow>
    (\<forall>i. n mod 8 \<le> i \<and> i < 8 \<longrightarrow> \<not> bit (bytes ! (div_ceil n 8 - 1)) i)"
proof -
  have len: "length bytes = n div 8 + 1" using assms unfolding div_ceil_8 by presburger
  have nd: "8 * (n div 8) + n mod 8 = n" by simp
  have tot: "length (bytes_bits bytes) = 8 * (n div 8) + 8" using len by simp
  have dc: "div_ceil n 8 - 1 = n div 8" using assms(1) len by simp
  have "list_all Not (drop n (bytes_bits bytes)) \<longleftrightarrow> (\<forall>j. n \<le> j \<and> j < 8 * (n div 8) + 8 \<longrightarrow> \<not> bytes_bits bytes ! j)"
  proof (intro iffI allI impI)
    fix j assume a: "list_all Not (drop n (bytes_bits bytes))" and j: "n \<le> j \<and> j < 8 * (n div 8) + 8"
    then have "j - n < length (drop n (bytes_bits bytes))" "drop n (bytes_bits bytes) ! (j - n) = bytes_bits bytes ! j"
      using tot by (auto simp: algebra_simps)
    then show "\<not> bytes_bits bytes ! j" using a by (metis list_all_length)
  next
    assume "\<forall>j. n \<le> j \<and> j < 8 * (n div 8) + 8 \<longrightarrow> \<not> bytes_bits bytes ! j"
    then show "list_all Not (drop n (bytes_bits bytes))" using tot by (simp add: list_all_length)
  qed
  also have "\<dots> \<longleftrightarrow> (\<forall>i. n mod 8 \<le> i \<and> i < 8 \<longrightarrow> \<not> bytes_bits bytes ! (8 * (n div 8) + i))"
  proof (intro iffI allI impI)
    fix i assume a: "\<forall>j. n \<le> j \<and> j < 8 * (n div 8) + 8 \<longrightarrow> \<not> bytes_bits bytes ! j" and "n mod 8 \<le> i \<and> i < 8"
    then show "\<not> bytes_bits bytes ! (8 * (n div 8) + i)" using nd by (metis add_le_cancel_left add_less_cancel_left)
  next
    fix j assume a: "\<forall>i. n mod 8 \<le> i \<and> i < 8 \<longrightarrow> \<not> bytes_bits bytes ! (8 * (n div 8) + i)" and j: "n \<le> j \<and> j < 8 * (n div 8) + 8"
    then have "8 * (n div 8) \<le> j" using nd by linarith
    then obtain i where i: "j = 8 * (n div 8) + i" using le_Suc_ex by blast
    then have "n mod 8 \<le> i \<and> i < 8" using j nd by linarith
    then show "\<not> bytes_bits bytes ! j" using a i by blast
  qed
  finally show ?thesis using len dc by (simp add: nth_bytes_bits)
qed

lemma bitmap_try_from_eq:
  "bitmap_try_from start stop bytes =
     (if start \<le> stop \<and> bitmap_wf (bitmap_from_parts bytes (unat stop - unat start))
      then Inr (SegRangeWithBitmap (start, stop) (bitmap_from_parts bytes (unat stop - unat start)))
      else Inl CorruptRowIds)"
proof (cases "start \<le> stop")
  case True
  let ?n = "unat stop - unat start"
  have v: "validate_range start stop = Inr ?n" using True by (simp add: validate_range_def checked_sub_def unat_diff_word)
  show ?thesis
  proof (cases "length bytes = div_ceil ?n 8 \<and> ?n mod 8 \<noteq> 0")
    case rem: True
    then have "0 < div_ceil ?n 8" unfolding div_ceil_8 by presburger
    then have "index_slice bytes (usize_sub (div_ceil ?n 8) 1) = Inr (bytes ! (div_ceil ?n 8 - 1))"
      using rem by (simp add: index_slice_def usize_sub_def)
    then show ?thesis using True rem v padding_bits[of bytes ?n] padding_clear_iff[of "?n mod 8"]
      by (simp add: bitmap_try_from_def Let_def bitmap_wf_def bitmap_from_parts_def)
  next
    case False
    have "drop ?n (bytes_bits bytes) = []" if "length bytes = div_ceil ?n 8"
      using that False div_ceil_8[of ?n] by simp presburger
    then show ?thesis using True False v by (auto simp: bitmap_try_from_def Let_def bitmap_wf_def bitmap_from_parts_def)
  qed
qed (simp add: bitmap_try_from_def validate_range_def checked_sub_def)

fun segment_valid :: "u64_segment \<Rightarrow> bool" where
  "segment_valid (SegArray array) = enc_wf array"
| "segment_valid seg = segment_wf seg"

definition segment_short :: "u64_segment \<Rightarrow> bool" where
  "segment_short seg \<longleftrightarrow> length (segment_vals seg) < 2 ^ 64"

lemma segment_wf_valid: "segment_wf seg \<Longrightarrow> segment_valid seg"
  by (cases seg) simp_all

lemma segment_valid_len: "segment_valid seg \<Longrightarrow> segment_len seg = Inr (length (segment_vals seg))"
proof (cases seg)
  case (SegArray a)
  then show ?thesis by (cases a) simp_all
qed (simp_all add: segment_len_eq del: segment_len.simps)

lemma segment_bounds_short:
  assumes "segment_wf seg" "segment_bounds seg = Some r"
  shows "segment_short seg"
proof -
  have "- 1 \<notin> set (segment_vals seg)"
    using segment_vals_in_bounds[OF assms, of "- 1"] word_order.extremum_strict by blast
  then have "card (set (segment_vals seg)) < card (UNIV :: u64 set)" by (intro psubset_card_mono) auto
  then show ?thesis using segment_vals_distinct[OF assms(1)] by (simp add: segment_short_def distinct_card card_word)
qed

fun pb_segment_bytes :: "pb_segment option \<Rightarrow> nat" where
  "pb_segment_bytes (Some (PbSortedArray a)) = pb_array_bytes a"
| "pb_segment_bytes (Some (PbArray a)) = pb_array_bytes a"
| "pb_segment_bytes _ = 0"

lemma enc_len_iter: "enc_len a = length (enc_iter a)"
  by (cases a) simp_all

lemma validate_range_eq: "validate_range start stop = (if start \<le> stop then Inr (unat stop - unat start) else Inl CorruptRowIds)"
  by (simp add: validate_range_def checked_sub_def unat_diff_word)

lemma segment_try_from_sound:
  "(\<exists>seg. segment_try_from pb = Inr seg \<and> segment_valid seg \<and> (pb_segment_bytes pb < 2 ^ 64 \<longrightarrow> segment_short seg)) \<or>
   segment_try_from pb = Inl CorruptRowIds"
proof (cases pb)
  case (Some p)
  have short: "segment_short seg" if "segment_wf seg" "segment_bounds seg \<noteq> None" for seg
    using that segment_bounds_short by blast
  show ?thesis
  proof (cases p)
    case (PbRange start stop)
    then show ?thesis using Some short[of "SegRange (start, stop)"] by (simp add: segment_try_from_def validate_range_eq)
  next
    case (PbRangeWithHoles start stop holes)
    show ?thesis
    proof (cases holes)
      case a: (Some a)
      show ?thesis
      proof (cases "start \<le> stop \<and> array_try_from a \<noteq> Inl CorruptRowIds")
        case True
        then obtain h where h: "array_try_from a = Inr h" "enc_wf h" using array_try_from_sound[of a] by auto
        then have eq: "segment_try_from pb =
          (if segment_wf (SegRangeWithHoles (start, stop) h) then Inr (SegRangeWithHoles (start, stop) h) else Inl CorruptRowIds)"
          using Some PbRangeWithHoles a True
          by (auto simp: segment_try_from_def validate_range_eq first_non_increasing_pair_eq find_None_iff list_all_iff not_less not_le
              simp del: not_None_eq)
        show ?thesis unfolding eq using short[of "SegRangeWithHoles (start, stop) h"] by (auto simp del: segment_wf.simps)
      qed (use Some PbRangeWithHoles a in \<open>auto simp: segment_try_from_def validate_range_eq\<close>)
    qed (use Some PbRangeWithHoles in \<open>simp add: segment_try_from_def validate_range_eq\<close>)
  next
    case (PbRangeWithBitmap start stop bytes)
    then show ?thesis using Some short[of "SegRangeWithBitmap (start, stop) _"]
      by (auto simp: segment_try_from_def bitmap_try_from_eq bitmap_from_parts_def range_span_def)
  next
    case (PbSortedArray a)
    then show ?thesis using Some array_try_from_sound[of a]
      by (auto simp: segment_try_from_def first_non_increasing_pair_eq segment_short_def enc_len_iter simp del: not_None_eq
          split: if_splits)
  next
    case (PbArray a)
    then show ?thesis using Some array_try_from_sound[of a]
      by (auto simp: segment_try_from_def segment_short_def enc_len_iter)
  qed
qed (simp add: segment_try_from_def)

lemma segment_roundtrip:
  assumes "segment_wf seg" "segment_to_pb seg = Inr pb"
  shows "segment_try_from pb = Inr seg"
proof (cases seg)
  case (SegRangeWithHoles r holes)
  then show ?thesis using assms
    by (auto simp: segment_try_from_def validate_range_eq array_roundtrip first_non_increasing_pair_eq find_None_iff list_all_iff
        not_less not_le simp del: not_None_eq)
next
  case (SegRangeWithBitmap r bm)
  then have "bitmap_from_parts (bm_data bm) (unat (snd r) - unat (fst r)) = bm"
    using assms(1) by (simp add: bitmap_from_parts_def range_span_def)
  then show ?thesis using assms SegRangeWithBitmap by (auto simp: segment_try_from_def bitmap_try_from_eq)
qed (use assms in \<open>auto simp: segment_try_from_def validate_range_eq array_roundtrip first_non_increasing_pair_eq simp del: not_None_eq\<close>)

subsection \<open>Folding keeps the ids\<close>

lemma flush_ranges_eq:
  assumes "ranges_sep pending"
  shows "\<exists>new. flush_ranges pending out = out @ new \<and> seq_wf new \<and> list_all segment_short new \<and> seq_vals new = ranges_vals pending"
proof (cases "segment_from_sorted_ranges pending")
  case None
  have "segment_wf (SegRange r) \<and> segment_short (SegRange r)" if "r \<in> set pending" for r
    using that assms segment_bounds_short[of "SegRange r" r] by (auto simp: ranges_sep_def)
  then show ?thesis
    using None by (simp add: flush_ranges_def seq_wf_def list_all_iff seq_vals_def ranges_vals_def comp_def)
next
  case (Some seg)
  have len: "2 \<le> length pending" using Some by (simp add: segment_from_sorted_ranges_def split: if_splits)
  then have ne: "pending \<noteq> []" by auto
  note b = ranges_sep_bounds[OF assms, of "hd pending"] ranges_sep_bounds[OF assms, of "last pending"]
  have "fst (hd pending) \<le> snd (last pending)" using b ne by (simp add: word_le_nat_alt)
  then have "unat (snd (last pending)) - unat (fst (hd pending)) < 2 ^ 32"
    using Some by (simp add: segment_from_sorted_ranges_def Let_def unat_diff_word split: if_splits)
  from from_sorted_ranges_eq[OF assms len this] obtain runs where
    "seg = SegRanges (fst (hd pending), snd (last pending)) runs" "segment_wf seg" "segment_vals seg = ranges_vals pending"
    using Some by auto
  then show ?thesis using Some segment_bounds_short[of seg] by (simp add: flush_ranges_def del: segment_wf.simps segment_vals.simps)
qed

lemma ranges_sep_snoc: "ranges_sep (rs @ [r]) \<longleftrightarrow> ranges_sep rs \<and> fst r < snd r \<and> (\<forall>q \<in> set rs. snd q < fst r)"
  by (auto simp: ranges_sep_def sorted_wrt_append)

lemma range_vals_join: "a \<le> m \<Longrightarrow> m \<le> b \<Longrightarrow> range_vals (a, m) @ range_vals (m, b) = range_vals (a, b)" for m :: "'a::len word"
  using upt_add_eq_append[of "unat a" "unat m" "unat b - unat m"] by (simp add: range_vals_def word_le_nat_alt)

lemma push_range_eq:
  assumes "ranges_sep pending" "fst r < snd r" "push_range pending out r = (pending', out')"
  shows "ranges_sep pending' \<and> (\<exists>new. out' = out @ new \<and> seq_wf new \<and> list_all segment_short new \<and>
    seq_vals new @ ranges_vals pending' = ranges_vals pending @ range_vals r)"
proof (cases "pending = []")
  case False
  then obtain rs l where p: "pending = rs @ [l]" by (meson rev_exhaust)
  have sep: "ranges_sep rs" "fst l < snd l" "\<forall>q \<in> set rs. snd q < fst l" using assms(1) p by (auto simp: ranges_sep_snoc)
  show ?thesis
  proof (cases "snd l = fst r \<or> snd l > fst r \<or> fst r - snd l > FOLD_GAP")
    case True
    show ?thesis
    proof (cases "snd l = fst r")
      case eq: True
      then have "range_vals l @ range_vals r = range_vals (fst l, snd r)"
        using range_vals_join[of "fst l" "snd l" "snd r"] sep(2) assms(2) by (cases l, cases r) (simp add: less_imp_le)
      then show ?thesis using assms(2,3) p eq sep by (auto simp: push_range_def ranges_sep_snoc)
    next
      case neq: False
      obtain new where "flush_ranges pending out = out @ new" "seq_wf new" "list_all segment_short new" "seq_vals new = ranges_vals pending"
        using flush_ranges_eq[OF assms(1)] by blast
      moreover have "push_range pending out r = ([r], flush_ranges pending out)"
        using p neq True by (auto simp: push_range_def Let_def)
      ultimately show ?thesis using assms(2,3) by (auto simp: ranges_sep_def)
    qed
  next
    case far: False
    then have "snd l < fst r" by auto
    then have "\<forall>q \<in> set pending. snd q < fst r" using sep p by auto
    moreover have "push_range pending out r = (pending @ [r], out)" using p far by (auto simp: push_range_def Let_def)
    ultimately show ?thesis using assms by (auto simp: ranges_sep_snoc)
  qed
qed (use assms in \<open>auto simp: push_range_def ranges_sep_def\<close>)

subsection \<open>Total length\<close>

lemma total_len_from_eq:
  assumes "list_all segment_valid segs" "list_all segment_short segs"
  shows "total_len_from segs acc =
    Inr (if unat acc + length (seq_vals segs) < 2 ^ 64 then Some (acc + word_of_nat (length (seq_vals segs))) else None)"
  using assms
proof (induction segs arbitrary: acc)
  case (Cons seg segs)
  let ?n = "length (segment_vals seg)"
  have n: "unat (word_of_nat ?n :: u64) = ?n" using Cons.prems by (simp add: segment_short_def unat_of_nat)
  have len: "segment_len seg = Inr ?n" using Cons.prems segment_valid_len by simp
  show ?case
  proof (cases "unat acc + ?n < 2 ^ 64")
    case True
    then have "unat (acc + word_of_nat ?n) = unat acc + ?n" by (simp add: unat_add_of_nat)
    moreover have "total_len_from (seg # segs) acc = total_len_from segs (acc + word_of_nat ?n)"
      using True len n by (simp add: checked_add_def)
    ultimately show ?thesis using Cons.IH[of "acc + word_of_nat ?n"] Cons.prems by (simp only: list.pred_inject seq_vals_simps length_append add.assoc of_nat_add)
  qed (use len n in \<open>simp add: checked_add_def\<close>)
qed (use unat_u64_bound in simp)

lemma read_finish_eq:
  assumes "ranges_sep pending" "list_all segment_valid out" "list_all segment_short out"
  shows "\<exists>new. flush_ranges pending out = out @ new \<and> seq_wf new \<and> list_all segment_short new \<and> seq_vals new = ranges_vals pending \<and>
    read_finish pending out =
      (if length (seq_vals out @ ranges_vals pending) < 2 ^ 64 then Inr (out @ new) else Inl CorruptRowIds)"
proof -
  obtain new where new: "flush_ranges pending out = out @ new" "seq_wf new" "list_all segment_short new" "seq_vals new = ranges_vals pending"
    using flush_ranges_eq[OF assms(1)] by blast
  have "list_all segment_valid new" using new(2) segment_wf_valid by (auto simp: seq_wf_def list_all_iff)
  then have "total_len_from (out @ new) 0 = Inr (if length (seq_vals out @ ranges_vals pending) < 2 ^ 64 then
      Some (word_of_nat (length (seq_vals out @ ranges_vals pending))) else None)"
    using total_len_from_eq[of "out @ new" 0] new assms by simp
  then have "read_finish pending out =
      (if length (seq_vals out @ ranges_vals pending) < 2 ^ 64 then Inr (out @ new) else Inl CorruptRowIds)"
    using new(1) by (simp add: read_finish_def ok_or_def)
  then show ?thesis using new by blast
qed

end
