(* ===== verification/Row_Id_Wire.thy ===== *)
theory Row_Id_Wire
  imports Row_Id_Serde
begin

text \<open>
  Reading and writing row-id sequences over the protobuf library: the laws the code relies on, what
  reading arbitrary bytes establishes, and that reading inverts writing. An implementation of the wire
  format shows that the laws can hold.
\<close>

subsection \<open>The protobuf library\<close>

text \<open>
  What the reader and the writer rely on: decoding a key or a varint consumes at least one byte and
  inverts encoding; the encoding of a sequence is the concatenation of its length-delimited segments;
  a \<open>Range\<close> is the length-delimited field 1 of its segment, with zero fields left out, and every
  other arm is a length-delimited field with its own number; decoding a segment inverts encoding it
  and its byte strings are parts of the input.
\<close>

definition encode_range_fields :: "'z prost_ops_scheme \<Rightarrow> u64 \<Rightarrow> u64 \<Rightarrow> u8 list" where
  "encode_range_fields P start stop =
     (if start = 0 then [] else pr_encode_key P 1 WtVarint @ pr_encode_varint P start) @
     (if stop = 0 then [] else pr_encode_key P 2 WtVarint @ pr_encode_varint P stop)"

fun segment_field :: "pb_segment \<Rightarrow> u32" where
  "segment_field (PbRange _ _) = 1"
| "segment_field (PbRangeWithHoles _ _ _) = 2"
| "segment_field (PbRangeWithBitmap _ _ _) = 3"
| "segment_field (PbSortedArray _) = 4"
| "segment_field (PbArray _) = 5"

definition length_delimited :: "'z prost_ops_scheme \<Rightarrow> u32 \<Rightarrow> u8 list \<Rightarrow> u8 list" where
  "length_delimited P field body = pr_encode_key P field WtLengthDelimited @ pr_encode_varint P (word_of_nat (length body)) @ body"

locale prost =
  fixes P :: "'z prost_ops_scheme"
  assumes decode_key_consumes: "pr_decode_key P buf = Some (key, rest) \<Longrightarrow> length rest < length buf"
    and decode_varint_consumes: "pr_decode_varint P buf = Some (v, rest) \<Longrightarrow> length rest < length buf"
    and decode_key_encode: "1 \<le> field \<Longrightarrow> field < 2 ^ 29 \<Longrightarrow> pr_decode_key P (pr_encode_key P field wt @ rest) = Some ((field, wt), rest)"
    and decode_varint_encode: "pr_decode_varint P (pr_encode_varint P v @ rest) = Some (v, rest)"
    and encode_sequence: "pr_encode_sequence P segs = concat (map (\<lambda>s. length_delimited P 1 (pr_encode_segment P s)) segs)"
    and encode_segment: "\<exists>body. pr_encode_segment P (Some kind) = length_delimited P (segment_field kind) body"
    and encode_segment_range: "pr_encode_segment P (Some (PbRange start stop)) = length_delimited P 1 (encode_range_fields P start stop)"
    and decode_segment_encode: "pr_decode_segment P (pr_encode_segment P s) = Some s"
    and decode_segment_bytes: "pr_decode_segment P buf = Some s \<Longrightarrow> pb_segment_bytes s \<le> length buf"
begin

lemma plain_fields_returns: "\<exists>f. plain_fields P bytes start stop = Some f"
proof (induction bytes arbitrary: start stop rule: length_induct)
  case (1 bytes)
  have "length rest2 < length bytes" if "pr_decode_key P bytes = Some (key, rest)" "pr_decode_varint P rest = Some (v, rest2)" for key rest v rest2
    using decode_key_consumes[OF that(1)] decode_varint_consumes[OF that(2)] by simp
  with "1.IH" show ?case by (subst plain_fields.simps) (auto split: option.splits)
qed

lemma plain_range_returns: "\<exists>r. plain_range P bytes = Some r \<and> (\<forall>q. r = Some q \<longrightarrow> fst q < snd q)"
proof -
  have "\<exists>r. Option.bind (plain_fields P bs 0 0) (\<lambda>f. Some (Option.bind f (\<lambda>(a, b). if a < b then Some (a, b) else None))) = Some r \<and>
    (\<forall>q. r = Some q \<longrightarrow> fst q < snd q)" for bs
    using plain_fields_returns[of bs 0 0] by (auto split: option.splits if_splits simp: bind_eq_Some_conv)
  then show ?thesis unfolding plain_range_def by (auto split: option.splits)
qed

lemma decode_other_sound:
  "(\<exists>seg. decode_other P bytes = Inr seg \<and> segment_valid seg \<and> (length bytes < 2 ^ 64 \<longrightarrow> segment_short seg)) \<or>
   decode_other P bytes = Inl CorruptRowIds"
proof (cases "pr_decode_segment P bytes")
  case (Some s)
  then show ?thesis using segment_try_from_sound[of s] decode_segment_bytes[OF Some] by (auto simp: decode_other_def ok_or_def)
qed (simp add: decode_other_def ok_or_def)

lemma read_loop_sound:
  assumes "length buf < 2 ^ 64" "ranges_sep pending" "list_all segment_valid out" "list_all segment_short out"
  shows "(\<exists>pending' out'. read_loop P buf pending out = Some (Inr (pending', out')) \<and> ranges_sep pending' \<and>
      list_all segment_valid out' \<and> list_all segment_short out') \<or> read_loop P buf pending out = Some (Inl CorruptRowIds)"
  using assms
proof (induction buf arbitrary: pending out rule: length_induct)
  case (1 buf)
  show ?case
  proof (cases "buf = []")
    case False
    show ?thesis
    proof (cases "\<exists>buf1 len buf2. pr_decode_key P buf = Some ((1, WtLengthDelimited), buf1) \<and>
        pr_decode_varint P buf1 = Some (len, buf2) \<and> unat len \<le> length buf2")
      case True
      then obtain buf1 len buf2 where d: "pr_decode_key P buf = Some ((1, WtLengthDelimited), buf1)"
        "pr_decode_varint P buf1 = Some (len, buf2)" "unat len \<le> length buf2" by blast
      let ?seg = "take (unat len) buf2" and ?rest = "drop (unat len) buf2"
      have lt: "length buf2 < length buf" using decode_key_consumes[OF d(1)] decode_varint_consumes[OF d(2)] by simp
      then have short: "length ?rest < length buf" "length ?rest < 2 ^ 64" "length ?seg < 2 ^ 64" using "1.prems"(1) by auto
      obtain r where r: "plain_range P ?seg = Some r" "\<forall>q. r = Some q \<longrightarrow> fst q < snd q" using plain_range_returns by blast
      show ?thesis
      proof (cases r)
        case (Some q)
        obtain pending' out' where push: "push_range pending out q = (pending', out')" by fastforce
        obtain new where new: "ranges_sep pending'" "out' = out @ new" "seq_wf new" "list_all segment_short new"
          using push_range_eq[OF "1.prems"(2) _ push] r(2) Some by blast
        have "list_all segment_valid new" using new(3) segment_wf_valid by (auto simp: seq_wf_def list_all_iff)
        then have ih: "list_all segment_valid out'" "list_all segment_short out'" using new "1.prems" by auto
        have "read_loop P buf pending out = read_loop P ?rest pending' out'"
          using False d r Some push by (subst read_loop.simps) simp
        then show ?thesis using "1.IH" short(1,2) new(1) ih by simp
      next
        case None
        then have eq: "read_loop P buf pending out =
          (case decode_other P ?seg of Inl e \<Rightarrow> Some (Inl e) | Inr s \<Rightarrow> read_loop P ?rest [] (flush_ranges pending out @ [s]))"
          using False d r by (subst read_loop.simps) simp
        obtain new where new: "flush_ranges pending out = out @ new" "seq_wf new" "list_all segment_short new"
          using flush_ranges_eq[OF "1.prems"(2)] by blast
        have v: "list_all segment_valid new" using new(2) segment_wf_valid by (auto simp: seq_wf_def list_all_iff)
        show ?thesis
        proof (cases "decode_other P ?seg")
          case (Inr s)
          then have "list_all segment_valid (out @ new @ [s])" "list_all segment_short (out @ new @ [s])"
            using decode_other_sound[of ?seg] short(3) new v "1.prems" by auto
          then show ?thesis using "1.IH" short(1,2) eq Inr new(1) by (simp add: ranges_sep_def)
        qed (use eq decode_other_sound[of ?seg] in auto)
      qed
    next
      case bad: False
      then have "read_loop P buf pending out = Some (Inl CorruptRowIds)"
        using False by (subst read_loop.simps) (auto split: option.splits)
      then show ?thesis by simp
    qed
  qed (use "1.prems" in \<open>simp add: read_loop.simps[of P "[]"]\<close>)
qed

lemma encode_key_nonempty: "1 \<le> field \<Longrightarrow> field < 2 ^ 29 \<Longrightarrow> pr_encode_key P field wt \<noteq> []"
  using decode_key_encode[of field wt "[]"] decode_key_consumes[of "[]"] by auto

lemma plain_fields_step:
  assumes "f = 1 \<or> f = 2"
  shows "plain_fields P (pr_encode_key P f WtVarint @ pr_encode_varint P v @ rest) start stop =
    (if f = 1 then plain_fields P rest v stop else plain_fields P rest start v)"
proof -
  have f: "1 \<le> f \<and> f < 2 ^ 29" using assms by (auto simp: word_le_nat_alt word_less_nat_alt)
  then have "pr_encode_key P f WtVarint @ pr_encode_varint P v @ rest \<noteq> []" using encode_key_nonempty[of f WtVarint] by blast
  then show ?thesis using assms f by (subst plain_fields.simps) (auto simp: decode_key_encode decode_varint_encode)
qed

lemma plain_fields_encode: "plain_fields P (encode_range_fields P start stop) 0 0 = Some (Some (start, stop))"
proof -
  have nil: "plain_fields P [] a b = Some (Some (a, b))" for a b by (simp add: plain_fields.simps[of P "[]"])
  have tail: "plain_fields P (if stop = 0 then [] else pr_encode_key P 2 WtVarint @ pr_encode_varint P stop) a 0 = Some (Some (a, stop))" for a
    using plain_fields_step[of 2 stop "[]" a 0] by (simp add: nil)
  show ?thesis
  proof (cases "start = 0")
    case True
    then show ?thesis using tail[of 0] by (simp add: encode_range_fields_def)
  next
    case False
    then show ?thesis using tail[of start] by (simp add: encode_range_fields_def plain_fields_step)
  qed
qed

lemma plain_range_encode:
  assumes "length (pr_encode_segment P (Some kind)) < 2 ^ 64"
  shows "plain_range P (pr_encode_segment P (Some kind)) =
    Some (case kind of PbRange start stop \<Rightarrow> if start < stop then Some (start, stop) else None | _ \<Rightarrow> None)"
proof (cases "\<exists>start stop. kind = PbRange start stop")
  case True
  then obtain start stop where k: "kind = PbRange start stop" by blast
  have "length (encode_range_fields P start stop) < 2 ^ 64" using assms k encode_segment_range by (simp add: length_delimited_def)
  then have "unat (word_of_nat (length (encode_range_fields P start stop)) :: u64) = length (encode_range_fields P start stop)"
    by (simp add: unat_of_nat)
  then show ?thesis unfolding k encode_segment_range plain_range_def length_delimited_def
    by (simp add: decode_key_encode decode_varint_encode plain_fields_encode word_less_nat_alt)
next
  case False
  obtain body where body: "pr_encode_segment P (Some kind) = length_delimited P (segment_field kind) body" using encode_segment by blast
  have "1 \<le> segment_field kind \<and> segment_field kind < 2 ^ 29 \<and> segment_field kind \<noteq> 1"
    using False by (cases kind) (simp_all add: word_le_nat_alt word_less_nat_alt)
  then show ?thesis using body False by (cases kind) (simp_all add: plain_range_def length_delimited_def decode_key_encode)
qed

lemma read_loop_step:
  assumes "length (pr_encode_segment P s) < 2 ^ 64" "plain_range P (pr_encode_segment P s) = Some r"
  shows "read_loop P (length_delimited P 1 (pr_encode_segment P s) @ rest) pending out =
    (case r of
       Some q \<Rightarrow> read_loop P rest (fst (push_range pending out q)) (snd (push_range pending out q))
     | None \<Rightarrow> (case segment_try_from s of
           Inl e \<Rightarrow> Some (Inl e)
         | Inr seg \<Rightarrow> read_loop P rest [] (flush_ranges pending out @ [seg])))"
proof -
  let ?b = "pr_encode_segment P s"
  have one: "(1 :: u32) < 2 ^ 29" by (simp add: word_less_nat_alt)
  have ne: "pr_encode_key P 1 WtLengthDelimited \<noteq> []" using encode_key_nonempty[of 1 WtLengthDelimited] one by simp
  have len: "unat (word_of_nat (length ?b) :: u64) = length ?b" using assms(1) by (simp add: unat_of_nat)
  have other: "decode_other P ?b = segment_try_from s" by (simp add: decode_other_def decode_segment_encode ok_or_def)
  show ?thesis using ne len assms(2) other one
    by (subst read_loop.simps, cases r; cases "segment_try_from s")
      (simp_all add: length_delimited_def decode_key_encode decode_varint_encode Let_def)
qed

lemma read_loop_encode:
  assumes "\<forall>s \<in> set pbs. s \<noteq> None \<and> length (pr_encode_segment P s) < 2 ^ 64"
    "list_all2 (\<lambda>s seg. segment_try_from s = Inr seg \<and> segment_wf seg) pbs segs" "ranges_sep pending" "seq_wf out"
  shows "\<exists>pending' out'. read_loop P (pr_encode_sequence P pbs) pending out = Some (Inr (pending', out')) \<and> ranges_sep pending' \<and>
    seq_wf out' \<and> seq_vals out' @ ranges_vals pending' = seq_vals out @ ranges_vals pending @ seq_vals segs"
  using assms
proof (induction pbs arbitrary: pending out segs)
  case Nil
  then show ?case by (simp add: encode_sequence read_loop.simps[of P "[]"])
next
  case (Cons s pbs)
  then obtain kind seg segs' where s: "s = Some kind" "segs = seg # segs'" "segment_try_from s = Inr seg" "segment_wf seg"
    "list_all2 (\<lambda>s seg. segment_try_from s = Inr seg \<and> segment_wf seg) pbs segs'"
    by (auto simp: list_all2_Cons1)
  have short: "length (pr_encode_segment P s) < 2 ^ 64" using Cons.prems by simp
  note step = read_loop_step[OF short plain_range_encode[OF short[unfolded s(1)], folded s(1)]]
  show ?case
  proof (cases "\<exists>start stop. kind = PbRange start stop \<and> start < stop")
    case True
    then obtain start stop where k: "kind = PbRange start stop" "start < stop" by blast
    obtain pending' out' where push: "push_range pending out (start, stop) = (pending', out')" by fastforce
    obtain new where new: "ranges_sep pending'" "out' = out @ new" "seq_wf new"
        "seq_vals new @ ranges_vals pending' = ranges_vals pending @ range_vals (start, stop)"
      using push_range_eq[OF Cons.prems(3) _ push] k(2) by auto
    have "seg = SegRange (start, stop)" using s k by (simp add: segment_try_from_def validate_range_eq split: if_splits)
    moreover have "read_loop P (pr_encode_sequence P (s # pbs)) pending out = read_loop P (pr_encode_sequence P pbs) pending' out'"
      using step k push by (simp add: encode_sequence)
    moreover have "seq_wf out'" using new Cons.prems by simp
    ultimately show ?thesis using Cons.IH[OF _ s(5) new(1)] Cons.prems(1) new(2,4) s(2) by (metis (no_types, lifting) append.assoc
        list.set_intros(2) segment_vals.simps(1) seq_vals_simps(2) seq_vals_simps(3))
  next
    case False
    obtain new where new: "flush_ranges pending out = out @ new" "seq_wf new" "seq_vals new = ranges_vals pending"
      using flush_ranges_eq[OF Cons.prems(3)] by blast
    have "read_loop P (pr_encode_sequence P (s # pbs)) pending out = read_loop P (pr_encode_sequence P pbs) [] (out @ new @ [seg])"
      using step False new(1) s(3) by (cases kind) (simp_all add: encode_sequence)
    moreover have "seq_wf (out @ new @ [seg])" "ranges_sep []" using new s Cons.prems by (simp_all add: ranges_sep_def)
    ultimately show ?thesis using Cons.IH[OF _ s(5), of "[]" "out @ new @ [seg]"] Cons.prems(1) new(3) s(2) by simp
  qed
qed

end

subsection \<open>Writing\<close>

lemma present_range_le:
  assumes "segment_wf (SegRanges r runs)" "hr_present_ranges runs = Inr ranges" "q \<in> set ranges"
  shows "fst r + ucast (fst q) \<le> fst r + ucast (snd q)"
proof -
  have wf: "hr_wf runs" "fst r \<le> snd r" "unat (hr_span runs) = range_span r" using assms(1) by auto
  have ok: "\<forall>q \<in> set ranges. fst q < snd q" "concat (map (map unat \<circ> range_vals) ranges) = hr_present runs"
    using hr_present_ranges_eq[OF wf(1)] assms(2) by auto
  have lt: "unat (fst q) < unat (snd q)" using ok(1) assms(3) by (simp add: word_less_nat_alt)
  have "unat (snd q) - 1 \<in> set (map unat (range_vals q))" using lt by (simp add: map_unat_range_vals del: set_map)
  then have "unat (snd q) - 1 \<in> set (hr_present runs)" using assms(3) unfolding ok(2)[symmetric] by auto
  then have "unat (snd q) \<le> range_span r" using hr_present_less_span[OF wf(1)] wf(3) lt by fastforce
  then have "unat (fst r) + unat (snd q) < 2 ^ 64" "unat (fst r) + unat (fst q) < 2 ^ 64" using range_span_bound[OF wf(2)] lt by linarith+
  then show ?thesis using lt by (simp add: word_le_nat_alt unat_base_offset)
qed

lemma segments_to_pb_eq:
  assumes "segment_wf seg"
  shows "\<exists>pbs segs. segments_to_pb seg = Inr pbs \<and> None \<notin> set pbs \<and>
    list_all2 (\<lambda>s sg. segment_try_from s = Inr sg \<and> segment_wf sg) pbs segs \<and> seq_vals segs = segment_vals seg"
proof (cases "\<exists>r runs. seg = SegRanges r runs")
  case True
  then obtain r runs where seg: "seg = SegRanges r runs" by blast
  obtain ranges where ranges: "hr_present_ranges runs = Inr ranges" using assms seg hr_present_ranges_eq[of runs] by auto
  let ?q = "\<lambda>p. (fst r + ucast (fst p), fst r + ucast (snd p)) :: u64 range"
  have "mapr (\<lambda>p. segment_to_pb (SegRange (?q p))) ranges = Inr (map (\<lambda>p. Some (PbRange (fst (?q p)) (snd (?q p)))) ranges)"
    by (rule mapr_Inr) simp
  then have "segments_to_pb seg = Inr (map (\<lambda>p. Some (PbRange (fst (?q p)) (snd (?q p)))) ranges)"
    using seg ranges by (simp add: segments_to_pb_def)
  moreover have "list_all2 (\<lambda>s sg. segment_try_from s = Inr sg \<and> segment_wf sg)
      (map (\<lambda>p. Some (PbRange (fst (?q p)) (snd (?q p)))) ranges) (map (\<lambda>p. SegRange (?q p)) ranges)"
    using present_range_le[of r runs ranges] assms seg ranges
    by (auto simp: list_all2_map1 list_all2_map2 list_all2_same segment_try_from_def validate_range_eq)
  moreover have "seq_vals (map (\<lambda>p. SegRange (?q p)) ranges) = segment_vals seg"
    using hr_present_range_vals[of r runs ranges] assms seg ranges by (simp add: seq_vals_def comp_def)
  ultimately show ?thesis by force
next
  case False
  then obtain pb where pb: "segment_to_pb seg = Inr pb" "pb \<noteq> None" by (cases seg) auto
  then have "segments_to_pb seg = Inr [pb]" using False by (cases seg) (simp_all add: segments_to_pb_def)
  then show ?thesis using pb segment_roundtrip[OF assms pb(1)] assms by (intro exI[of _ "[pb]"] exI[of _ "[seg]"]) auto
qed

lemma sequence_to_pb_eq:
  "seq_wf sq \<Longrightarrow> \<exists>pbs segs. sequence_to_pb sq = Inr pbs \<and> None \<notin> set pbs \<and>
    list_all2 (\<lambda>s sg. segment_try_from s = Inr sg \<and> segment_wf sg) pbs segs \<and> seq_vals segs = seq_vals sq"
proof (induction sq)
  case (Cons seg sq)
  then obtain pbs segs where ih: "sequence_to_pb sq = Inr pbs" "None \<notin> set pbs"
    "list_all2 (\<lambda>s sg. segment_try_from s = Inr sg \<and> segment_wf sg) pbs segs" "seq_vals segs = seq_vals sq" by auto
  obtain pbs' segs' where sg: "segments_to_pb seg = Inr pbs'" "None \<notin> set pbs'"
    "list_all2 (\<lambda>s sg. segment_try_from s = Inr sg \<and> segment_wf sg) pbs' segs'" "seq_vals segs' = segment_vals seg"
    using segments_to_pb_eq[of seg] Cons.prems by auto
  have "sequence_to_pb (seg # sq) = Inr (pbs' @ pbs)"
    using ih(1) sg(1) by (cases "mapr segments_to_pb sq") (auto simp: sequence_to_pb_def)
  then show ?case using ih sg by (intro exI[of _ "pbs' @ pbs"] exI[of _ "segs' @ segs"]) (simp add: list_all2_appendI)
qed (simp add: sequence_to_pb_def)

subsection \<open>A protobuf implementation\<close>

text \<open>
  The base-128 varints and field keys of the protobuf wire format, with a plain layout of the bodies
  that the reader leaves to the library. It satisfies the laws of the locale.
\<close>

fun leb128 :: "nat \<Rightarrow> u8 list" where
  "leb128 n = (if n < 128 then [word_of_nat n] else word_of_nat (n mod 128 + 128) # leb128 (n div 128))"

declare leb128.simps [simp del]

fun unleb128 :: "u8 list \<Rightarrow> (nat \<times> u8 list) option" where
  "unleb128 [] = None"
| "unleb128 (b # bs) =
     (if unat b < 128 then Some (unat b, bs)
      else map_option (\<lambda>(n, rest). (unat b - 128 + 128 * n, rest)) (unleb128 bs))"

lemma unleb128_leb128: "unleb128 (leb128 n @ rest) = Some (n, rest)"
proof (induction n rule: leb128.induct)
  case (1 n)
  show ?case
  proof (cases "n < 128")
    case True
    then show ?thesis by (simp add: leb128.simps[of n] unat_of_nat)
  next
    case False
    have "unat (word_of_nat (n mod 128 + 128) :: u8) = n mod 128 + 128"
      by (subst unat_of_nat) (simp add: mod_less)
    then show ?thesis using False 1 by (simp add: leb128.simps[of n])
  qed
qed

lemma unleb128_consumes: "unleb128 bs = Some (n, rest) \<Longrightarrow> length rest < length bs"
  by (induction bs arbitrary: n rest) (auto split: if_splits simp: less_SucI)

fun wire_code :: "wire_type \<Rightarrow> nat" where
  "wire_code WtVarint = 0"
| "wire_code WtSixtyFourBit = 1"
| "wire_code WtLengthDelimited = 2"
| "wire_code WtStartGroup = 3"
| "wire_code WtEndGroup = 4"
| "wire_code WtThirtyTwoBit = 5"

definition wire_of_code :: "nat \<Rightarrow> wire_type option" where
  "wire_of_code c = List.find (\<lambda>w. wire_code w = c)
     [WtVarint, WtSixtyFourBit, WtLengthDelimited, WtStartGroup, WtEndGroup, WtThirtyTwoBit]"

definition wire_decode_varint :: "u8 list \<Rightarrow> (u64 \<times> u8 list) option" where
  "wire_decode_varint bs = map_option (\<lambda>(n, rest). (word_of_nat n, rest)) (unleb128 bs)"

definition wire_encode_key :: "u32 \<Rightarrow> wire_type \<Rightarrow> u8 list" where
  "wire_encode_key field w = leb128 (unat field * 8 + wire_code w)"

definition wire_decode_key :: "u8 list \<Rightarrow> ((u32 \<times> wire_type) \<times> u8 list) option" where
  "wire_decode_key bs =
     Option.bind (unleb128 bs) (\<lambda>(n, rest). map_option (\<lambda>w. ((word_of_nat (n div 8), w), rest)) (wire_of_code (n mod 8)))"

definition wire_delimited :: "u32 \<Rightarrow> u8 list \<Rightarrow> u8 list" where
  "wire_delimited field body = wire_encode_key field WtLengthDelimited @ leb128 (unat (word_of_nat (length body) :: u64)) @ body"

definition wire_range_fields :: "u64 \<Rightarrow> u64 \<Rightarrow> u8 list" where
  "wire_range_fields start stop =
     (if start = 0 then [] else wire_encode_key 1 WtVarint @ leb128 (unat start)) @
     (if stop = 0 then [] else wire_encode_key 2 WtVarint @ leb128 (unat stop))"

fun wire_encode_array :: "pb_array option \<Rightarrow> u8 list" where
  "wire_encode_array None = []"
| "wire_encode_array (Some (PbU16Array base bytes)) = 1 # to_le_bytes base @ bytes"
| "wire_encode_array (Some (PbU32Array base bytes)) = 2 # to_le_bytes base @ bytes"
| "wire_encode_array (Some (PbU64Array bytes)) = 3 # bytes"

definition wire_decode_array :: "u8 list \<Rightarrow> pb_array option" where
  "wire_decode_array bs =
     (case bs of
        [] \<Rightarrow> None
      | t # body \<Rightarrow>
          if t = 1 then Some (PbU16Array (from_le_bytes (take 8 body)) (drop 8 body))
          else if t = 2 then Some (PbU32Array (from_le_bytes (take 8 body)) (drop 8 body))
          else Some (PbU64Array body))"

fun wire_encode_segment :: "pb_segment option \<Rightarrow> u8 list" where
  "wire_encode_segment None = []"
| "wire_encode_segment (Some (PbRange start stop)) = wire_delimited 1 (wire_range_fields start stop)"
| "wire_encode_segment (Some (PbRangeWithHoles start stop holes)) =
     wire_delimited 2 (to_le_bytes start @ to_le_bytes stop @ (case holes of None \<Rightarrow> [] | Some a \<Rightarrow> 0 # wire_encode_array a))"
| "wire_encode_segment (Some (PbRangeWithBitmap start stop bytes)) = wire_delimited 3 (to_le_bytes start @ to_le_bytes stop @ bytes)"
| "wire_encode_segment (Some (PbSortedArray a)) = wire_delimited 4 (wire_encode_array a)"
| "wire_encode_segment (Some (PbArray a)) = wire_delimited 5 (wire_encode_array a)"

definition wire_decode_field :: "u32 \<Rightarrow> u8 list \<Rightarrow> u64 \<times> u8 list" where
  "wire_decode_field field bs =
     (case wire_decode_key bs of
        Some (key, bs1) \<Rightarrow>
          if fst key = field then (case wire_decode_varint bs1 of Some (v, bs2) \<Rightarrow> (v, bs2) | None \<Rightarrow> (0, bs)) else (0, bs)
      | None \<Rightarrow> (0, bs))"

definition wire_decode_body :: "u32 \<Rightarrow> u8 list \<Rightarrow> pb_segment option" where
  "wire_decode_body field body =
     (let start = from_le_bytes (take 8 body); stop = from_le_bytes (take 8 (drop 8 body)); tail = drop 16 body
      in if field = 1 then
           (let (start, rest) = wire_decode_field 1 body; (stop, _) = wire_decode_field 2 rest in Some (PbRange start stop))
         else if field = 2 then
           Some (PbRangeWithHoles start stop (case tail of [] \<Rightarrow> None | _ # a \<Rightarrow> Some (wire_decode_array a)))
         else if field = 3 then Some (PbRangeWithBitmap start stop tail)
         else if field = 4 then Some (PbSortedArray (wire_decode_array body))
         else if field = 5 then Some (PbArray (wire_decode_array body))
         else None)"

definition wire_decode_segment :: "u8 list \<Rightarrow> pb_segment option option" where
  "wire_decode_segment bs =
     (if bs = [] then Some None
      else Option.bind (wire_decode_key bs) (\<lambda>(key, bs1).
        Option.bind (wire_decode_varint bs1) (\<lambda>(len, body). map_option Some (wire_decode_body (fst key) body))))"

definition wire_prost :: prost_ops where
  "wire_prost = \<lparr>
     pr_decode_key = wire_decode_key, pr_decode_varint = wire_decode_varint, pr_decode_segment = wire_decode_segment,
     pr_encode_key = wire_encode_key, pr_encode_varint = (\<lambda>v. leb128 (unat v)), pr_encode_segment = wire_encode_segment,
     pr_encode_sequence = (\<lambda>segs. concat (map (\<lambda>s. wire_delimited 1 (wire_encode_segment s)) segs)) \<rparr>"

lemma wire_decode_key_encode: "wire_decode_key (wire_encode_key field w @ rest) = Some ((field, w), rest)"
proof -
  have "wire_code w < 8" "wire_of_code (wire_code w) = Some w" by (cases w; simp add: wire_of_code_def)+
  then show ?thesis by (simp add: wire_decode_key_def wire_encode_key_def unleb128_leb128)
qed

lemma wire_decode_varint_encode: "wire_decode_varint (leb128 (unat v) @ rest) = Some (v, rest)"
  by (simp add: wire_decode_varint_def unleb128_leb128)

lemma wire_decode_key_consumes: "wire_decode_key bs = Some (key, rest) \<Longrightarrow> length rest < length bs"
  by (auto simp: wire_decode_key_def bind_eq_Some_conv dest: unleb128_consumes)

lemma wire_decode_varint_consumes: "wire_decode_varint bs = Some (v, rest) \<Longrightarrow> length rest < length bs"
  by (auto simp: wire_decode_varint_def dest: unleb128_consumes)

lemma wire_decode_segment_delimited:
  "wire_decode_segment (wire_delimited field body) = map_option Some (wire_decode_body field body)"
proof -
  have ne: "wire_encode_key field WtLengthDelimited \<noteq> []"
    using wire_decode_key_consumes[OF wire_decode_key_encode[of field WtLengthDelimited "[]"]] by auto
  then show ?thesis
    by (simp add: wire_decode_segment_def wire_delimited_def wire_decode_key_encode wire_decode_varint_encode)
qed

lemma wire_decode_array_encode [simp]: "wire_decode_array (wire_encode_array a) = a"
  by (cases a rule: wire_encode_array.cases) (simp_all add: wire_decode_array_def)

lemma wire_decode_field_encode:
  "wire_decode_field f (wire_encode_key f WtVarint @ leb128 (unat v) @ rest) = (v, rest)"
  "f \<noteq> g \<Longrightarrow> wire_decode_field f (wire_encode_key g WtVarint @ rest) = (0, wire_encode_key g WtVarint @ rest)"
  "wire_decode_field f [] = (0, [])"
  by (simp_all add: wire_decode_field_def wire_decode_key_encode wire_decode_varint_encode) (simp add: wire_decode_key_def)

lemma wire_decode_range_fields:
  "wire_decode_body 1 (wire_range_fields start stop) = Some (PbRange start stop)"
  using wire_decode_field_encode(1)[of 1 start] wire_decode_field_encode(1)[of 1 start "[]"] wire_decode_field_encode(1)[of 2 stop "[]"]
  by (simp add: wire_decode_body_def wire_range_fields_def wire_decode_field_encode(2,3))

lemma wire_decode_encode: "wire_decode_segment (wire_encode_segment s) = Some s"
  by (cases s rule: wire_encode_segment.cases)
    (simp_all add: wire_decode_segment_delimited wire_decode_range_fields, simp_all add: wire_decode_segment_def wire_decode_body_def
      split: option.split)

lemma wire_array_bytes: "pb_array_bytes (wire_decode_array bs) \<le> length bs"
  by (auto simp: wire_decode_array_def split: list.split)

lemma wire_segment_bytes: "wire_decode_segment bs = Some s \<Longrightarrow> pb_segment_bytes s \<le> length bs"
proof -
  assume a: "wire_decode_segment bs = Some s"
  have body: "pb_segment_bytes (Some k) \<le> length body" if "wire_decode_body f body = Some k" for f body k
    using that wire_array_bytes[of body] by (auto simp: wire_decode_body_def Let_def split: if_splits prod.splits)
  show ?thesis
  proof (cases "bs = []")
    case False
    then obtain key bs1 len bd k where d: "wire_decode_key bs = Some (key, bs1)" "wire_decode_varint bs1 = Some (len, bd)"
      "wire_decode_body (fst key) bd = Some k" "s = Some k"
      using a by (auto simp: wire_decode_segment_def bind_eq_Some_conv)
    then show ?thesis using wire_decode_key_consumes[OF d(1)] wire_decode_varint_consumes[OF d(2)] body[OF d(3)] by simp
  qed (use a in \<open>auto simp: wire_decode_segment_def\<close>)
qed

lemma wire_length_delimited: "length_delimited wire_prost = wire_delimited"
  by (intro ext) (simp add: wire_prost_def length_delimited_def wire_delimited_def)

interpretation wire: prost wire_prost
proof unfold_locales
  show "\<exists>body. pr_encode_segment wire_prost (Some kind) = length_delimited wire_prost (segment_field kind) body" for kind
    unfolding wire_length_delimited by (cases kind) (auto simp: wire_prost_def)
  show "pr_encode_sequence wire_prost segs = concat (map (\<lambda>s. length_delimited wire_prost 1 (pr_encode_segment wire_prost s)) segs)" for segs
    unfolding wire_length_delimited by (simp add: wire_prost_def)
  show "pr_encode_segment wire_prost (Some (PbRange start stop)) = length_delimited wire_prost 1 (encode_range_fields wire_prost start stop)"
    for start stop
    unfolding wire_length_delimited by (simp add: wire_prost_def encode_range_fields_def wire_range_fields_def)
qed (auto simp: wire_prost_def wire_decode_key_encode wire_decode_varint_encode wire_decode_encode
    dest: wire_decode_key_consumes wire_decode_varint_consumes wire_segment_bytes)

subsection \<open>Properties\<close>

lemma sequence_len_valid:
  assumes "list_all segment_valid sq"
  shows "sequence_len sq = Inr (word_of_nat (length (seq_vals sq)))"
proof -
  have "mapr segment_len sq = Inr (map (\<lambda>s. length (segment_vals s)) sq)"
    using assms by (intro mapr_Inr) (simp add: segment_valid_len list_all_iff)
  moreover have "sum_list (map word_of_nat ns) = (word_of_nat (sum_list ns) :: u64)" for ns
    by (induction ns) simp_all
  ultimately show ?thesis by (simp add: sequence_len_def length_seq_vals)
qed

text \<open>
  C38. Reading any bytes returns: either with the corruption error, or with a sequence in which every
  segment satisfies the invariant of its encoding - ordered ranges, holes strictly increasing and
  inside the range, bitmaps of the right length with clear padding, sorted arrays without repetition,
  offsets that do not overflow - and whose total length fits 64 bits, as \<open>len\<close> requires. Nothing
  panics. Only the distinctness of an unsorted array is not checked.
\<close>

theorem read_row_ids_validates:
  assumes "prost P" "length buf < 2 ^ 64"
  shows "read_row_ids P buf = Some (Inl CorruptRowIds) \<or>
    (\<exists>sq. read_row_ids P buf = Some (Inr sq) \<and> list_all segment_valid sq \<and> length (seq_vals sq) < 2 ^ 64 \<and>
       sequence_len sq = Inr (word_of_nat (length (seq_vals sq))))"
proof (cases "read_loop P buf [] [] = Some (Inl CorruptRowIds)")
  case False
  then obtain pending out where loop: "read_loop P buf [] [] = Some (Inr (pending, out))" "ranges_sep pending"
    "list_all segment_valid out" "list_all segment_short out"
    using prost.read_loop_sound[OF assms(1,2), of "[]" "[]"] by (auto simp: ranges_sep_def)
  from read_finish_eq[OF loop(2-4)] obtain new where new: "seq_wf new" "seq_vals new = ranges_vals pending"
    "read_finish pending out = (if length (seq_vals out @ ranges_vals pending) < 2 ^ 64 then Inr (out @ new) else Inl CorruptRowIds)"
    by blast
  have "list_all segment_valid (out @ new)" using loop(3) new(1) segment_wf_valid by (auto simp: seq_wf_def list_all_iff)
  then show ?thesis using loop(1) new(2,3) sequence_len_valid[of "out @ new"] by (auto simp: read_row_ids_def)
qed (simp add: read_row_ids_def)

theorem read_row_ids_validates_witness:
  "read_row_ids wire_prost [10, 4, 10, 2, 16, 7, 10] = Some (Inl CorruptRowIds) \<or>
    (\<exists>sq. read_row_ids wire_prost [10, 4, 10, 2, 16, 7, 10] = Some (Inr sq) \<and> list_all segment_valid sq \<and>
       length (seq_vals sq) < 2 ^ 64 \<and> sequence_len sq = Inr (word_of_nat (length (seq_vals sq))))"
  by (rule read_row_ids_validates[OF wire.prost_axioms]) simp

text \<open>
  C39. Every well-formed sequence can be written, and reading the bytes back gives a well-formed
  sequence of the same row ids in the same order. The segments need not be the same: a run of ranges is
  written as plain ranges, and the reader merges adjacent ranges and folds neighbouring ones.
\<close>

theorem row_ids_roundtrip:
  assumes "prost P" "seq_wf sq" "length (seq_vals sq) < 2 ^ 64"
    "\<And>bytes. write_row_ids P sq = Inr bytes \<Longrightarrow> length bytes < 2 ^ 64"
  shows "\<exists>bytes sq'. write_row_ids P sq = Inr bytes \<and> read_row_ids P bytes = Some (Inr sq') \<and> seq_wf sq' \<and>
    seq_vals sq' = seq_vals sq"
proof -
  obtain pbs segs where pb: "sequence_to_pb sq = Inr pbs" "None \<notin> set pbs"
    "list_all2 (\<lambda>s sg. segment_try_from s = Inr sg \<and> segment_wf sg) pbs segs" "seq_vals segs = seq_vals sq"
    using sequence_to_pb_eq[OF assms(2)] by blast
  let ?bytes = "pr_encode_sequence P pbs"
  have w: "write_row_ids P sq = Inr ?bytes" using pb(1) by (simp add: write_row_ids_def)
  have "length (pr_encode_segment P s) \<le> length ?bytes" if "s \<in> set pbs" for s
  proof -
    have "length_delimited P 1 (pr_encode_segment P s) \<in> set (map (\<lambda>s. length_delimited P 1 (pr_encode_segment P s)) pbs)" using that by simp
    then obtain as bs where "map (\<lambda>s. length_delimited P 1 (pr_encode_segment P s)) pbs = as @ length_delimited P 1 (pr_encode_segment P s) # bs"
      by (meson split_list)
    then show ?thesis by (simp add: prost.encode_sequence[OF assms(1)] length_delimited_def)
  qed
  then have "\<forall>s \<in> set pbs. s \<noteq> None \<and> length (pr_encode_segment P s) < 2 ^ 64" using assms(4)[OF w] pb(2) by (metis le_less_trans)
  from prost.read_loop_encode[OF assms(1) this pb(3), of "[]" "[]"] obtain pending out where
    loop: "read_loop P ?bytes [] [] = Some (Inr (pending, out))" "ranges_sep pending" "seq_wf out"
      "seq_vals out @ ranges_vals pending = seq_vals sq"
    using pb(4) by (auto simp: ranges_sep_def)
  have "length (segment_vals seg) \<le> length (seq_vals out)" if "seg \<in> set out" for seg
    using split_list[OF that] by (auto simp: seq_vals_simps)
  moreover have "length (seq_vals out) < 2 ^ 64" using assms(3) loop(4) by (metis le_add1 le_less_trans length_append)
  ultimately have "list_all segment_valid out" "list_all segment_short out"
    using loop(3) segment_wf_valid by (force simp: seq_wf_def list_all_iff segment_short_def)+
  from read_finish_eq[OF loop(2) this] obtain new where "seq_wf new" "seq_vals new = ranges_vals pending" "read_finish pending out = Inr (out @ new)"
    using loop(4) assms(3) by auto
  then have "read_row_ids P ?bytes = Some (Inr (out @ new))" "seq_wf (out @ new)" "seq_vals (out @ new) = seq_vals sq"
    using loop by (simp_all add: read_row_ids_def)
  then show ?thesis using w by blast
qed

theorem row_ids_roundtrip_witness:
  "\<exists>bytes sq'. write_row_ids wire_prost [SegRange (5, 8), SegRange (300, 302), SegArray (EncU64 [9, 2])] = Inr bytes \<and>
     read_row_ids wire_prost bytes = Some (Inr sq') \<and> seq_wf sq' \<and>
     seq_vals sq' = seq_vals [SegRange (5, 8), SegRange (300, 302), SegArray (EncU64 [9, 2])]"
proof (rule row_ids_roundtrip[OF wire.prost_axioms])
  show "length bytes < 2 ^ 64" if "write_row_ids wire_prost [SegRange (5, 8), SegRange (300, 302), SegArray (EncU64 [9, 2])] = Inr bytes" for bytes
    using that
    by (auto simp: write_row_ids_def sequence_to_pb_def segments_to_pb_def wire_prost_def wire_delimited_def wire_range_fields_def
        wire_encode_key_def leb128.simps length_le_bytes)
qed (simp_all add: seq_wf_def seq_vals_def range_vals_def)

end
