(* ===== verification/Spec2Isabelle.thy ===== *)
theory Spec2Isabelle
  imports Sequence_Reencode Sequence_Selection Index_Result Deletion_Vector Row_Id_Wire
begin

text \<open>skeleton\<close>

end
